theory Spec2Isabelle
  imports Main
begin

section \<open>The pool allocator (\<open>AVLPoolAllocator\<close>)\<close>

text \<open>
  Values of the template parameter \<open>size_type\<close> are natural numbers; the largest one,
  \<open>std::numeric_limits<size_type>::max()\<close>, is the parameter \<open>mx\<close> of the functions
  that read \<open>max_capacity()\<close>. Every arithmetic operation of the allocator on a
  \<open>size_type\<close> is guarded by the source so that its result is at most \<open>mx\<close>
  (\<open>capacity() << 1\<close> only below \<open>max_capacity() >> 1\<close>, \<open>i + 1\<close> only for
  \<open>i < new_capacity\<close>), so no wrap-around occurs there.

  The failures of the code are values of \<open>error\<close>:
  \<^item> \<open>AllocatorExhausted\<close> is \<open>THROW("The AVLPool is full")\<close>;
  \<^item> \<open>AssertionFailed\<close> is the \<open>assert\<close> of \<open>rebalance_and_seth\<close>;
  \<^item> \<open>UndefinedBehaviour\<close> stands for a read or write that C++ leaves undefined: a
    slot outside the arena, or the member of the union \<open>Elem\<close> that is not active.
\<close>

datatype error = AllocatorExhausted | AssertionFailed | UndefinedBehaviour

text \<open>\<open>union Elem { size_type ptr; T val; }\<close>: a free slot holds the index of the next
  free slot, an occupied slot holds a constructed node.\<close>

datatype 'a Elem = Ptr nat | Val 'a

fun is_Val :: "'a Elem \<Rightarrow> bool" where
  "is_Val (Val _) = True"
| "is_Val (Ptr _) = False"

record 'a AVLPoolAllocator =
  data :: "'a Elem list"
  capacity :: nat
  head :: nat

text \<open>\<open>ptr(arr, i)\<close> and \<open>elem(arr, i)\<close>: reading a member of slot \<open>i\<close>.\<close>

definition ptr :: "'a Elem list \<Rightarrow> nat \<Rightarrow> error + nat" where
  "ptr arr i =
     (if i < length arr then (case arr ! i of Ptr n \<Rightarrow> Inr n | Val _ \<Rightarrow> Inl UndefinedBehaviour)
      else Inl UndefinedBehaviour)"

definition elem :: "'a Elem list \<Rightarrow> nat \<Rightarrow> error + 'a" where
  "elem arr i =
     (if i < length arr then (case arr ! i of Val v \<Rightarrow> Inr v | Ptr _ \<Rightarrow> Inl UndefinedBehaviour)
      else Inl UndefinedBehaviour)"

text \<open>The default constructor and \<open>explicit AVLPoolAllocator(size_type reverve_size)\<close>.\<close>

definition AVLPoolAllocator_default :: "'a AVLPoolAllocator" where
  "AVLPoolAllocator_default = \<lparr>data = [Ptr 1], capacity = 1, head = 0\<rparr>"

definition AVLPoolAllocator_reserve :: "nat \<Rightarrow> 'a AVLPoolAllocator" where
  "AVLPoolAllocator_reserve reverve_size =
     \<lparr>data = map (\<lambda>i. Ptr (i + 1)) [0 ..< max 1 reverve_size],
      capacity = max 1 reverve_size, head = 0\<rparr>"

text \<open>
  \<open>allocate()\<close>. When the free list is empty (\<open>head == capacity()\<close>) the arena grows:
  every old slot is moved as a constructed node to the same index of the new arena (which
  is undefined when a slot holds no node), the new slots are threaded into the free list.
  Then the head of the free list is popped.
\<close>

definition allocate :: "nat \<Rightarrow> 'a AVLPoolAllocator \<Rightarrow> error + (nat \<times> 'a AVLPoolAllocator)" where
  "allocate mx p =
     (case (if head p = capacity p then
              (if capacity p = mx then Inl AllocatorExhausted
               else if \<not> list_all is_Val (data p) then Inl UndefinedBehaviour
               else
                 let new_capacity = (if capacity p < mx div 2 then 2 * capacity p else mx);
                     new_data = data p @ map (\<lambda>i. Ptr (i + 1)) [capacity p ..< new_capacity]
                 in Inr (p\<lparr>data := new_data, capacity := new_capacity\<rparr>))
            else Inr p) of
        Inl e \<Rightarrow> Inl e
      | Inr q \<Rightarrow>
          (case ptr (data q) (head q) of
             Inl e \<Rightarrow> Inl e
           | Inr nx \<Rightarrow> Inr (head q, q\<lparr>head := nx\<rparr>)))"

text \<open>Placement-new of a node into the slot \<open>allocate\<close> returned
  (\<open>::new (&pool[x]) Node{...}\<close>).\<close>

definition construct :: "'a AVLPoolAllocator \<Rightarrow> nat \<Rightarrow> 'a \<Rightarrow> error + 'a AVLPoolAllocator" where
  "construct p x v =
     (if x < length (data p) then Inr (p\<lparr>data := (data p)[x := Val v]\<rparr>)
      else Inl UndefinedBehaviour)"

definition deallocate :: "'a AVLPoolAllocator \<Rightarrow> nat \<Rightarrow> error + 'a AVLPoolAllocator" where
  "deallocate p n =
     (if n < length (data p) then Inr (p\<lparr>data := (data p)[n := Ptr (head p)], head := n\<rparr>)
      else Inl UndefinedBehaviour)"

definition destruct_and_deallocate :: "'a AVLPoolAllocator \<Rightarrow> nat \<Rightarrow> error + 'a AVLPoolAllocator" where
  "destruct_and_deallocate p n =
     (case elem (data p) n of
        Inl e \<Rightarrow> Inl e
      | Inr _ \<Rightarrow> Inr (p\<lparr>data := (data p)[n := Ptr (head p)], head := n\<rparr>))"

definition deallocate_all :: "'a AVLPoolAllocator \<Rightarrow> 'a AVLPoolAllocator" where
  "deallocate_all p =
     p\<lparr>data := map (\<lambda>i. Ptr (i + 1)) [0 ..< capacity p], head := 0\<rparr>"

text \<open>
  \<open>reserve_for(n)\<close>. The loop
  \<open>for (i = head; i != capacity(); i = ptr(i)) ptr(new_data, i) = ptr(i);\<close>
  walks the free list; it does not return on a cyclic list, which is the value \<open>None\<close>.
\<close>

partial_function (option) copy_free_list ::
  "'a Elem list \<Rightarrow> nat \<Rightarrow> nat \<Rightarrow> 'a Elem list \<Rightarrow> (error + 'a Elem list) option" where
  "copy_free_list old cap i new_data =
     (if i = cap then Some (Inr new_data)
      else (case ptr old i of
              Inl e \<Rightarrow> Some (Inl e)
            | Inr nx \<Rightarrow> copy_free_list old cap nx (new_data[i := Ptr nx])))"

text \<open>The slots that still hold the mark \<open>new_capacity\<close> are the allocated ones: their
  nodes are moved to the new arena (slot 0 as an \<open>AVLNodeBase\<close>).\<close>

definition move_allocated ::
  "'a Elem list \<Rightarrow> nat \<Rightarrow> nat \<Rightarrow> 'a Elem list \<Rightarrow> error + 'a Elem list" where
  "move_allocated old cap new_capacity new_data =
     (if list_ex (\<lambda>i. new_data ! i = Ptr new_capacity \<and> \<not> (i < length old \<and> is_Val (old ! i))) [0 ..< cap]
      then Inl UndefinedBehaviour
      else Inr (map (\<lambda>i. if new_data ! i = Ptr new_capacity then old ! i else new_data ! i) [0 ..< cap]
                @ drop cap new_data))"

definition reserve_for :: "nat \<Rightarrow> 'a AVLPoolAllocator \<Rightarrow> nat \<Rightarrow> (error + 'a AVLPoolAllocator) option" where
  "reserve_for mx p n =
     (if n < capacity p then Some (Inr p)
      else if capacity p = mx then Some (Inl AllocatorExhausted)
      else
        let new_capacity = max n (if capacity p < mx div 2 then 2 * capacity p else mx);
            init = replicate (capacity p) (Ptr new_capacity)
                   @ map (\<lambda>i. Ptr (i + 1)) [capacity p ..< new_capacity]
        in (case copy_free_list (data p) (capacity p) (head p) init of
              None \<Rightarrow> None
            | Some (Inl e) \<Rightarrow> Some (Inl e)
            | Some (Inr marked) \<Rightarrow>
                (case move_allocated (data p) (capacity p) new_capacity marked of
                   Inl e \<Rightarrow> Some (Inl e)
                 | Inr nd \<Rightarrow> Some (Inr (p\<lparr>data := nd, capacity := new_capacity\<rparr>)))))"

text \<open>
  A well-formed pool with free list \<open>fs\<close>: the arena has \<open>capacity\<close> slots, the free
  list starts at \<open>head\<close>, runs through distinct free slots and ends at \<open>capacity\<close>,
  and every slot that is not on it holds a node.
\<close>

fun free_chain :: "'a Elem list \<Rightarrow> nat \<Rightarrow> nat \<Rightarrow> nat list \<Rightarrow> bool" where
  "free_chain d cap i [] = (i = cap)"
| "free_chain d cap i (x # xs) =
     (i = x \<and> x < cap \<and> (case d ! x of Ptr j \<Rightarrow> free_chain d cap j xs | Val _ \<Rightarrow> False))"

definition pool_wf :: "nat \<Rightarrow> 'a AVLPoolAllocator \<Rightarrow> nat list \<Rightarrow> bool" where
  "pool_wf mx p fs =
     (length (data p) = capacity p \<and> 0 < capacity p \<and> capacity p \<le> mx \<and>
      free_chain (data p) (capacity p) (head p) fs \<and> distinct fs \<and>
      list_all (\<lambda>i. i \<in> set fs \<or> is_Val (data p ! i)) [0 ..< capacity p])"

definition occupied :: "'a AVLPoolAllocator \<Rightarrow> nat set" where
  "occupied p = {i. i < length (data p) \<and> is_Val (data p ! i)}"


section \<open>The AVL dictionary engine (\<open>AVLDictionary\<close>)\<close>

text \<open>
  A node (\<open>AVLNodeBase\<close> with the payload of \<open>AVLSetNode\<close> or \<open>AVLMapNode\<close>) is a record:
  \<open>idx\<close> is its handle, the index of its slot in the pool; \<open>val\<close> is the mapped value of
  a map node (\<open>unit\<close> for a set node); \<open>h\<close> is the stored \<open>uint8_t h\<close>. The two child
  handles \<open>kid[L]\<close>, \<open>kid[R]\<close> of the nodes below a handle form a tree: the subtree a
  handle denotes is either \<open>nil\<close> (handle 0, the sentinel, with \<open>h = 0\<close> and both kids
  \<open>nil\<close>) or a node with its two subtrees. An index into \<open>kid\<close> is a \<open>bool\<close>:
  \<open>L = 0\<close> is \<open>False\<close>, \<open>R = 1\<close> is \<open>True\<close>, and \<open>dir ^ 1\<close> is negation.
\<close>

record ('k, 'v) AVLNode =
  idx :: nat
  key :: 'k
  val :: 'v
  h :: nat

datatype ('k, 'v) subtree =
  nil
| node "('k, 'v) subtree" "('k, 'v) AVLNode" "('k, 'v) subtree"

definition L :: bool where [simp]: "L = False"
definition R :: bool where [simp]: "R = True"

text \<open>\<open>pool[x].h\<close> and \<open>pool[x].kid[dir]\<close>.\<close>

fun h_of :: "('k, 'v) subtree \<Rightarrow> nat" where
  "h_of nil = 0"
| "h_of (node l n r) = h n"

fun kid :: "('k, 'v) subtree \<Rightarrow> bool \<Rightarrow> ('k, 'v) subtree" where
  "kid nil dir = nil"
| "kid (node l n r) dir = (if dir then r else l)"

text \<open>\<open>pool[x].kid[dir] = c\<close> and \<open>seth(x)\<close>, for a handle \<open>x\<close> that is not the
  sentinel: every caller below applies them to a node only.\<close>

fun set_kid :: "('k, 'v) subtree \<Rightarrow> bool \<Rightarrow> ('k, 'v) subtree \<Rightarrow> ('k, 'v) subtree" where
  "set_kid nil dir c = nil"
| "set_kid (node l n r) dir c = (if dir then node l n c else node c n r)"

fun seth :: "('k, 'v) subtree \<Rightarrow> ('k, 'v) subtree" where
  "seth nil = nil"
| "seth (node l n r) = node l (n\<lparr>h := (1 + max (h_of l) (h_of r)) mod 256\<rparr>) r"

text \<open>Division of C++ \<open>int\<close>s truncates towards zero.\<close>

definition c_div :: "int \<Rightarrow> int \<Rightarrow> int" where
  "c_div a b = (if (a < 0) = (b < 0) then \<bar>a\<bar> div \<bar>b\<bar> else - (\<bar>a\<bar> div \<bar>b\<bar>))"

text \<open>\<open>rotate(x, dir)\<close>: ``rotating nil node up is invalid''.\<close>

fun rotate :: "('k, 'v) subtree \<Rightarrow> bool \<Rightarrow> error + ('k, 'v) subtree" where
  "rotate nil dir = Inl UndefinedBehaviour"
| "rotate (node l n r) dir =
     (let x = node l n r;
          revdir = \<not> dir;
          res = kid x revdir
      in (case res of
            nil \<Rightarrow> Inl UndefinedBehaviour
          | node _ _ _ \<Rightarrow> Inr (set_kid res dir (seth (set_kid x revdir (kid res dir))))))"

definition rotate_and_seth :: "('k, 'v) subtree \<Rightarrow> bool \<Rightarrow> error + ('k, 'v) subtree" where
  "rotate_and_seth x dir = (case rotate x dir of Inl e \<Rightarrow> Inl e | Inr res \<Rightarrow> Inr (seth res))"

fun rebalance_and_seth :: "('k, 'v) subtree \<Rightarrow> error + ('k, 'v) subtree" where
  "rebalance_and_seth nil = Inl UndefinedBehaviour"
| "rebalance_and_seth (node l n r) =
     (let x = node l n r;
          b = c_div (int (h_of (kid x L)) - int (h_of (kid x R))) 2
      in if \<not> (- 1 \<le> b \<and> b \<le> 1) then Inl AssertionFailed
         else if b \<noteq> 0 then
           (let dir = ((b + 1) div 2 = 1);
                revdir = \<not> dir;
                aux_B = kid x revdir
            in if int (h_of (kid aux_B R)) - int (h_of (kid aux_B L)) = b then
                 (let aux_C = kid aux_B dir
                  in (case (aux_B, aux_C) of
                        (node _ _ _, node _ _ _) \<Rightarrow>
                          (let x1 = seth (set_kid x revdir (kid aux_C dir));
                               b1 = seth (set_kid aux_B dir (kid aux_C revdir))
                           in Inr (seth (set_kid (set_kid aux_C dir x1) revdir b1)))
                      | _ \<Rightarrow> Inl UndefinedBehaviour))
               else rotate_and_seth x dir)
         else Inr (seth x))"

text \<open>
  \<open>insert(x, inserted)\<close>. The reference parameter \<open>x\<close> is a subtree, returned updated.
  The handle \<open>inserted\<close> is given as its node; both its kids are \<open>nil\<close> at every call
  (a node from \<open>allocate_node(..., nil, nil, uint8_t{0})\<close>, or one whose kids
  \<open>pull_out\<close> has reset), so \<open>x = inserted\<close> makes \<open>x\<close> that node with two \<open>nil\<close> kids.
\<close>

fun insert_node ::
  "('k \<Rightarrow> 'k \<Rightarrow> bool) \<Rightarrow> ('k, 'v) subtree \<Rightarrow> ('k, 'v) AVLNode \<Rightarrow> error + ('k, 'v) subtree" where
  "insert_node compare nil inserted = Inr (node nil inserted nil)"
| "insert_node compare (node l n r) inserted =
     (let x = node l n r;
          dir = compare (key n) (key inserted)
      in (case insert_node compare (kid x dir) inserted of
            Inl e \<Rightarrow> Inl e
          | Inr k \<Rightarrow> rebalance_and_seth (set_kid x dir k)))"

text \<open>\<open>insert_if_not_exists(x, inserted)\<close> returns the updated \<open>x\<close> and the handle:
  \<open>inserted\<close> if the insertion took place, the found node's otherwise.\<close>

fun insert_if_not_exists ::
  "('k \<Rightarrow> 'k \<Rightarrow> bool) \<Rightarrow> ('k, 'v) subtree \<Rightarrow> ('k, 'v) AVLNode \<Rightarrow> error + (('k, 'v) subtree \<times> nat)" where
  "insert_if_not_exists compare nil inserted = Inr (node nil inserted nil, idx inserted)"
| "insert_if_not_exists compare (node l n r) inserted =
     (let x = node l n r;
          dir = compare (key n) (key inserted)
      in if \<not> dir \<and> \<not> compare (key inserted) (key n) then Inr (x, idx n)
         else (case insert_if_not_exists compare (kid x dir) inserted of
                 Inl e \<Rightarrow> Inl e
               | Inr (k, res) \<Rightarrow>
                   (case rebalance_and_seth (set_kid x dir k) of
                      Inl e \<Rightarrow> Inl e
                    | Inr x' \<Rightarrow> Inr (x', res))))"

text \<open>\<open>dirmost(node, direction)\<close>, \<open>front()\<close> and \<open>back()\<close> of the engine.\<close>

fun dirmost :: "('k, 'v) subtree \<Rightarrow> bool \<Rightarrow> ('k, 'v) AVLNode option" where
  "dirmost nil direction = None"
| "dirmost (node l n r) direction =
     (let next = kid (node l n r) direction
      in (case next of nil \<Rightarrow> Some n | node _ _ _ \<Rightarrow> dirmost next direction))"

text \<open>\<open>pull_out_rightmost(x)\<close> returns the updated \<open>x\<close> and the pulled out node. It is
  called on a handle that is not \<open>nil\<close>.\<close>

fun pull_out_rightmost ::
  "('k, 'v) subtree \<Rightarrow> error + (('k, 'v) subtree \<times> ('k, 'v) AVLNode)" where
  "pull_out_rightmost nil = Inl UndefinedBehaviour"
| "pull_out_rightmost (node l n r) =
     (case r of
        nil \<Rightarrow> Inr (l, n)
      | node _ _ _ \<Rightarrow>
          (case pull_out_rightmost r of
             Inl e \<Rightarrow> Inl e
           | Inr (r', res) \<Rightarrow>
               (case rebalance_and_seth (node l n r') of
                  Inl e \<Rightarrow> Inl e
                | Inr x' \<Rightarrow> Inr (x', res))))"

text \<open>
  \<open>erase_impl(x, key, to_ret_val)\<close> returns the updated \<open>x\<close> and the node it took out of
  the tree, if any. What the functor \<open>to_ret_val\<close> does with that node (\<open>erase\<close>
  deallocates it, \<open>pull_out\<close> resets its kids) touches no other node, and is applied by
  the two callers below.
\<close>

fun erase_impl ::
  "('k \<Rightarrow> 'k \<Rightarrow> bool) \<Rightarrow> ('k, 'v) subtree \<Rightarrow> 'k \<Rightarrow> error + (('k, 'v) subtree \<times> ('k, 'v) AVLNode option)" where
  "erase_impl compare nil k = Inr (nil, None)"
| "erase_impl compare (node l n r) k =
     (let x = node l n r;
          dir = compare (key n) k
      in if \<not> dir \<and> \<not> compare k (key n) then
           (case l of
              nil \<Rightarrow>
                (let new_x = r
                 in (case new_x of
                       nil \<Rightarrow> Inr (new_x, Some n)
                     | node _ _ _ \<Rightarrow>
                         (case rebalance_and_seth new_x of
                            Inl e \<Rightarrow> Inl e
                          | Inr x' \<Rightarrow> Inr (x', Some n))))
            | node _ _ _ \<Rightarrow>
                (case pull_out_rightmost l of
                   Inl e \<Rightarrow> Inl e
                 | Inr (x_left, pulled) \<Rightarrow>
                     (case rebalance_and_seth (node x_left pulled r) of
                        Inl e \<Rightarrow> Inl e
                      | Inr x' \<Rightarrow> Inr (x', Some n))))
         else (case erase_impl compare (kid x dir) k of
                 Inl e \<Rightarrow> Inl e
               | Inr (k', res) \<Rightarrow>
                   (case rebalance_and_seth (set_kid x dir k') of
                      Inl e \<Rightarrow> Inl e
                    | Inr x' \<Rightarrow> Inr (x', res))))"

text \<open>\<open>find(key)\<close> returns the found node (the source returns the address of its data).\<close>

fun find_key :: "('k \<Rightarrow> 'k \<Rightarrow> bool) \<Rightarrow> ('k, 'v) subtree \<Rightarrow> 'k \<Rightarrow> ('k, 'v) AVLNode option" where
  "find_key compare nil k = None"
| "find_key compare (node l n r) k =
     (let dir = compare (key n) k
      in if \<not> dir \<and> \<not> compare k (key n) then Some n
         else find_key compare (kid (node l n r) dir) k)"

text \<open>
  Traversal. A callback reads the node and updates the state it captured; it answers
  \<open>stop_repeating\<close> or \<open>continue_repeating\<close>.
\<close>

datatype repeating = stop_repeating | continue_repeating

fun for_each ::
  "('k, 'v) subtree \<Rightarrow> (('k, 'v) AVLNode \<Rightarrow> 's \<Rightarrow> repeating \<times> 's) \<Rightarrow> 's \<Rightarrow> repeating \<times> 's" where
  "for_each nil func s = (continue_repeating, s)"
| "for_each (node l n r) func s =
     (case for_each l func s of
        (stop_repeating, s1) \<Rightarrow> (stop_repeating, s1)
      | (continue_repeating, s1) \<Rightarrow>
          (case func n s1 of
             (stop_repeating, s2) \<Rightarrow> (stop_repeating, s2)
           | (continue_repeating, s2) \<Rightarrow> for_each r func s2))"

fun foreach_since_upper_bound ::
  "('k \<Rightarrow> 'k \<Rightarrow> bool) \<Rightarrow> ('k, 'v) subtree \<Rightarrow> 'k \<Rightarrow> (('k, 'v) AVLNode \<Rightarrow> 's \<Rightarrow> repeating \<times> 's) \<Rightarrow> 's
   \<Rightarrow> repeating \<times> 's" where
  "foreach_since_upper_bound compare nil k callback s = (continue_repeating, s)"
| "foreach_since_upper_bound compare (node l n r) k callback s =
     (if compare k (key n) then
        (case foreach_since_upper_bound compare l k callback s of
           (stop_repeating, s1) \<Rightarrow> (stop_repeating, s1)
         | (continue_repeating, s1) \<Rightarrow>
             (case callback n s1 of
                (stop_repeating, s2) \<Rightarrow> (stop_repeating, s2)
              | (continue_repeating, s2) \<Rightarrow> for_each r callback s2))
      else foreach_since_upper_bound compare r k callback s)"


section \<open>Invariants and observations of a tree\<close>

text \<open>
  The in-order traversal of a subtree lists, for every node, its handle, key and value
  (the stored height is bookkeeping of the balancing and is left out).
\<close>

definition entry :: "('k, 'v) AVLNode \<Rightarrow> nat \<times> 'k \<times> 'v" where
  "entry n = (idx n, key n, val n)"

definition ekey :: "nat \<times> 'k \<times> 'v \<Rightarrow> 'k" where
  "ekey e = fst (snd e)"

fun inorder :: "('k, 'v) subtree \<Rightarrow> (nat \<times> 'k \<times> 'v) list" where
  "inorder nil = []"
| "inorder (node l n r) = inorder l @ entry n # inorder r"

text \<open>The comparator has to be a strict weak ordering.\<close>

definition strict_weak_order :: "('k \<Rightarrow> 'k \<Rightarrow> bool) \<Rightarrow> bool" where
  "strict_weak_order compare =
     ((\<forall>a. \<not> compare a a) \<and>
      (\<forall>a b c. compare a b \<and> compare b c \<longrightarrow> compare a c) \<and>
      (\<forall>a b c. \<not> compare a b \<and> \<not> compare b c \<longrightarrow> \<not> compare a c))"

text \<open>Two keys are equivalent when neither compares less than the other: this is the
  test \<open>not dir and not compare(key, pool[x].key())\<close> of the lookups.\<close>

definition equivalent :: "('k \<Rightarrow> 'k \<Rightarrow> bool) \<Rightarrow> 'k \<Rightarrow> 'k \<Rightarrow> bool" where
  "equivalent compare a b = (\<not> compare a b \<and> \<not> compare b a)"

text \<open>Sorted traversals: no later key compares less than an earlier one
  (\<open>sorted_multi\<close>); every earlier key compares less than every later one
  (\<open>sorted_unique\<close>).\<close>

definition sorted_multi :: "('k \<Rightarrow> 'k \<Rightarrow> bool) \<Rightarrow> (nat \<times> 'k \<times> 'v) list \<Rightarrow> bool" where
  "sorted_multi compare es = sorted_wrt (\<lambda>a b. \<not> compare (ekey b) (ekey a)) es"

definition sorted_unique :: "('k \<Rightarrow> 'k \<Rightarrow> bool) \<Rightarrow> (nat \<times> 'k \<times> 'v) list \<Rightarrow> bool" where
  "sorted_unique compare es = sorted_wrt (\<lambda>a b. compare (ekey a) (ekey b)) es"

text \<open>
  The balance invariant as the specification states it, on the stored heights: at every
  node the heights of the two kids differ by at most 1 and the stored height is
  \<open>1 + max\<close> of them.
\<close>

fun avl_spec :: "('k, 'v) subtree \<Rightarrow> bool" where
  "avl_spec nil = True"
| "avl_spec (node l n r) =
     (avl_spec l \<and> avl_spec r \<and> h_of l \<le> h_of r + 1 \<and> h_of r \<le> h_of l + 1 \<and>
      h n = 1 + max (h_of l) (h_of r))"

text \<open>
  The balance invariant the code keeps: as above, but a node without kids may also store
  the height 0 it was allocated with.
\<close>

fun avl_stored :: "('k, 'v) subtree \<Rightarrow> bool" where
  "avl_stored nil = True"
| "avl_stored (node l n r) =
     (avl_stored l \<and> avl_stored r \<and> h_of l \<le> h_of r + 1 \<and> h_of r \<le> h_of l + 1 \<and>
      (h n = 1 + max (h_of l) (h_of r) \<or> (l = nil \<and> r = nil \<and> h n = 0)))"

text \<open>The height of a subtree as a tree (the number of nodes on a longest path), and
  balance in terms of it.\<close>

fun height :: "('k, 'v) subtree \<Rightarrow> nat" where
  "height nil = 0"
| "height (node l n r) = 1 + max (height l) (height r)"

fun height_balanced :: "('k, 'v) subtree \<Rightarrow> bool" where
  "height_balanced nil = True"
| "height_balanced (node l n r) =
     (height_balanced l \<and> height_balanced r \<and>
      height l \<le> height r + 1 \<and> height r \<le> height l + 1)"

text \<open>Where an unconditional insert puts an entry in a sorted traversal: after the
  entries whose key compares less than its key, before all others.\<close>

definition ins_list :: "('k \<Rightarrow> 'k \<Rightarrow> bool) \<Rightarrow> nat \<times> 'k \<times> 'v \<Rightarrow> (nat \<times> 'k \<times> 'v) list \<Rightarrow> (nat \<times> 'k \<times> 'v) list" where
  "ins_list cmp e es = takeWhile (\<lambda>x. cmp (ekey x) (ekey e)) es @ e # dropWhile (\<lambda>x. cmp (ekey x) (ekey e)) es"


section \<open>The dictionary object and the concrete containers\<close>

text \<open>
  An \<open>AVLDictionary\<close> owns its pool, the handle \<open>root\<close> (here the tree it denotes) and
  the counter \<open>size_\<close>. The nodes themselves are kept in the tree, so a slot of the pool
  records only whether it is occupied. \<open>size_\<close> is a \<open>size_type\<close>: \<open>++size_\<close> and
  \<open>--size_\<close> wrap around at \<open>mx\<close>.
\<close>

record ('k, 'v) AVLDictionary =
  pool :: "unit AVLPoolAllocator"
  root :: "('k, 'v) subtree"
  size' :: nat

text \<open>The constructor \<open>AVLDictionary(size_type reserve_n = 1, Comp cmp = {})\<close>: the pool
  is built first, then \<open>nil = pool.allocate()\<close>, and the body asserts \<open>nil == 0\<close> and
  writes the sentinel.\<close>

definition AVLDictionary_new :: "nat \<Rightarrow> nat \<Rightarrow> error + ('k, 'v) AVLDictionary" where
  "AVLDictionary_new mx reserve_n =
     (case allocate mx (AVLPoolAllocator_reserve reserve_n) of
        Inl e \<Rightarrow> Inl e
      | Inr (nil_idx, p) \<Rightarrow>
          if nil_idx \<noteq> 0 then Inl AssertionFailed
          else (case construct p nil_idx () of
                  Inl e \<Rightarrow> Inl e
                | Inr p' \<Rightarrow> Inr \<lparr>pool = p', root = nil, size' = 0\<rparr>))"

definition allocate_node ::
  "nat \<Rightarrow> ('k, 'v) AVLDictionary \<Rightarrow> error + (nat \<times> ('k, 'v) AVLDictionary)" where
  "allocate_node mx d =
     (case allocate mx (pool d) of
        Inl e \<Rightarrow> Inl e
      | Inr (x, p) \<Rightarrow>
          (case construct p x () of
             Inl e \<Rightarrow> Inl e
           | Inr p' \<Rightarrow> Inr (x, d\<lparr>pool := p', size' := (size' d + 1) mod (mx + 1)\<rparr>)))"

definition deallocate_node ::
  "nat \<Rightarrow> ('k, 'v) AVLDictionary \<Rightarrow> nat \<Rightarrow> error + ('k, 'v) AVLDictionary" where
  "deallocate_node mx d x =
     (case destruct_and_deallocate (pool d) x of
        Inl e \<Rightarrow> Inl e
      | Inr p' \<Rightarrow> Inr (d\<lparr>pool := p', size' := (size' d + mx) mod (mx + 1)\<rparr>))"

text \<open>
  \<open>delete_subtree(x)\<close>. \<open>trivially_destructible\<close> is
  \<open>std::is_trivially_destructible_v<Node>\<close>, a property of the node type: it holds for a
  set node whose key type is trivially destructible (\<open>AVLSetNode<size_t, int>\<close>) and never
  for a map node, whose \<open>union DataU\<close> has a user-provided destructor.
\<close>

fun delete_subtree ::
  "bool \<Rightarrow> nat \<Rightarrow> ('k, 'v) AVLDictionary \<Rightarrow> ('k, 'v) subtree \<Rightarrow> error + ('k, 'v) AVLDictionary" where
  "delete_subtree trivially_destructible mx d nil = Inr d"
| "delete_subtree trivially_destructible mx d (node l n r) =
     (if trivially_destructible then Inr d
      else (case delete_subtree trivially_destructible mx d l of
              Inl e \<Rightarrow> Inl e
            | Inr d1 \<Rightarrow>
                (case delete_subtree trivially_destructible mx d1 r of
                   Inl e \<Rightarrow> Inl e
                 | Inr d2 \<Rightarrow> deallocate_node mx d2 (idx n))))"

definition clear :: "bool \<Rightarrow> nat \<Rightarrow> ('k, 'v) AVLDictionary \<Rightarrow> error + ('k, 'v) AVLDictionary" where
  "clear trivially_destructible mx d =
     (case delete_subtree trivially_destructible mx d (root d) of
        Inl e \<Rightarrow> Inl e
      | Inr d' \<Rightarrow> Inr (d'\<lparr>root := nil\<rparr>))"

definition size_of :: "('k, 'v) AVLDictionary \<Rightarrow> nat" where
  "size_of d = size' d"

definition empty_dict :: "('k, 'v) AVLDictionary \<Rightarrow> bool" where
  "empty_dict d = (size_of d = 0)"

text \<open>\<open>emplace_if_not_exists_impl(x, key)\<close> allocates the node at the leaf it reaches;
  \<open>construct_node_data(key)\<close> value-initialises the mapped value (\<open>dflt\<close>). It returns
  what to replace \<open>x\<close> with and the emplaced or found handle.\<close>

fun emplace_if_not_exists_impl ::
  "nat \<Rightarrow> ('k \<Rightarrow> 'k \<Rightarrow> bool) \<Rightarrow> 'v \<Rightarrow> ('k, 'v) AVLDictionary \<Rightarrow> ('k, 'v) subtree \<Rightarrow> 'k
   \<Rightarrow> error + (('k, 'v) AVLDictionary \<times> ('k, 'v) subtree \<times> nat)" where
  "emplace_if_not_exists_impl mx compare dflt d nil k =
     (case allocate_node mx d of
        Inl e \<Rightarrow> Inl e
      | Inr (x, d') \<Rightarrow> Inr (d', node nil \<lparr>idx = x, key = k, val = dflt, h = 0\<rparr> nil, x))"
| "emplace_if_not_exists_impl mx compare dflt d (node l n r) k =
     (let x = node l n r;
          dir = compare (key n) k
      in if \<not> dir \<and> \<not> compare k (key n) then Inr (d, x, idx n)
         else (case emplace_if_not_exists_impl mx compare dflt d (kid x dir) k of
                 Inl e \<Rightarrow> Inl e
               | Inr (d', p_first, p_second) \<Rightarrow>
                   (case rebalance_and_seth (set_kid x dir p_first) of
                      Inl e \<Rightarrow> Inl e
                    | Inr x' \<Rightarrow> Inr (d', x', p_second))))"

definition emplace_if_not_exists ::
  "nat \<Rightarrow> ('k \<Rightarrow> 'k \<Rightarrow> bool) \<Rightarrow> 'v \<Rightarrow> ('k, 'v) AVLDictionary \<Rightarrow> 'k
   \<Rightarrow> error + (nat \<times> ('k, 'v) AVLDictionary)" where
  "emplace_if_not_exists mx compare dflt d k =
     (case emplace_if_not_exists_impl mx compare dflt d (root d) k of
        Inl e \<Rightarrow> Inl e
      | Inr (d', p_first, p_second) \<Rightarrow> Inr (p_second, d'\<lparr>root := p_first\<rparr>))"

text \<open>\<open>insert_or_replace(x, inserted)\<close>: a found duplicate hands its kids and height to
  \<open>inserted\<close> and is deallocated. It returns the updated \<open>x\<close> and whether the insertion
  took place.\<close>

fun insert_or_replace ::
  "nat \<Rightarrow> ('k \<Rightarrow> 'k \<Rightarrow> bool) \<Rightarrow> ('k, 'v) AVLDictionary \<Rightarrow> ('k, 'v) subtree \<Rightarrow> ('k, 'v) AVLNode
   \<Rightarrow> error + (('k, 'v) AVLDictionary \<times> ('k, 'v) subtree \<times> bool)" where
  "insert_or_replace mx compare d nil inserted = Inr (d, node nil inserted nil, True)"
| "insert_or_replace mx compare d (node l n r) inserted =
     (let x = node l n r;
          dir = compare (key n) (key inserted)
      in if \<not> dir \<and> \<not> compare (key inserted) (key n) then
           (case deallocate_node mx d (idx n) of
              Inl e \<Rightarrow> Inl e
            | Inr d' \<Rightarrow> Inr (d', node l (inserted\<lparr>h := h n\<rparr>) r, False))
         else (case insert_or_replace mx compare d (kid x dir) inserted of
                 Inl e \<Rightarrow> Inl e
               | Inr (d', k, res) \<Rightarrow>
                   (case rebalance_and_seth (set_kid x dir k) of
                      Inl e \<Rightarrow> Inl e
                    | Inr x' \<Rightarrow> Inr (d', x', res))))"

text \<open>\<open>erase(key)\<close> deallocates the node \<open>erase_impl\<close> took out; \<open>pull_out(root, key)\<close>
  returns it with its kids reset (its stored height is left as it was).\<close>

definition erase ::
  "nat \<Rightarrow> ('k \<Rightarrow> 'k \<Rightarrow> bool) \<Rightarrow> ('k, 'v) AVLDictionary \<Rightarrow> 'k \<Rightarrow> error + (bool \<times> ('k, 'v) AVLDictionary)" where
  "erase mx compare d k =
     (case erase_impl compare (root d) k of
        Inl e \<Rightarrow> Inl e
      | Inr (x', None) \<Rightarrow> Inr (False, d\<lparr>root := x'\<rparr>)
      | Inr (x', Some n) \<Rightarrow>
          (case deallocate_node mx (d\<lparr>root := x'\<rparr>) (idx n) of
             Inl e \<Rightarrow> Inl e
           | Inr d' \<Rightarrow> Inr (True, d')))"

definition pull_out ::
  "('k \<Rightarrow> 'k \<Rightarrow> bool) \<Rightarrow> ('k, 'v) AVLDictionary \<Rightarrow> 'k
   \<Rightarrow> error + (('k, 'v) AVLNode option \<times> ('k, 'v) AVLDictionary)" where
  "pull_out compare d k =
     (case erase_impl compare (root d) k of
        Inl e \<Rightarrow> Inl e
      | Inr (x', res) \<Rightarrow> Inr (res, d\<lparr>root := x'\<rparr>))"

text \<open>\<open>front()\<close> and \<open>back()\<close> of \<open>AVLDictContainer\<close> return the data of the node, or
  nothing (\<open>nullptr\<close>); \<open>back'\<close> is \<open>back()\<close>.\<close>

definition node_data :: "('k, 'v) AVLNode \<Rightarrow> 'k \<times> 'v" where
  "node_data n = (key n, val n)"

definition front :: "('k, 'v) AVLDictionary \<Rightarrow> ('k \<times> 'v) option" where
  "front d = (case dirmost (root d) L of None \<Rightarrow> None | Some x \<Rightarrow> Some (node_data x))"

definition back' :: "('k, 'v) AVLDictionary \<Rightarrow> ('k \<times> 'v) option" where
  "back' d = (case dirmost (root d) R of None \<Rightarrow> None | Some x \<Rightarrow> Some (node_data x))"

text \<open>
  \<open>filter(condition)\<close>. The \<open>processor\<close> stores the key of the first node that satisfies
  the condition in \<open>key_opt\<close> and stops the traversal. The \<open>while\<close> loop has no bound
  the code states, so it is a partial function: \<open>None\<close> means it does not return.
\<close>

definition processor ::
  "('k \<times> 'v \<Rightarrow> bool) \<Rightarrow> ('k, 'v) AVLNode \<Rightarrow> 'k option \<Rightarrow> repeating \<times> 'k option" where
  "processor condition n key_opt =
     (if condition (node_data n) then (stop_repeating, Some (key n))
      else (continue_repeating, key_opt))"

partial_function (option) filter_loop ::
  "nat \<Rightarrow> ('k \<Rightarrow> 'k \<Rightarrow> bool) \<Rightarrow> ('k \<times> 'v \<Rightarrow> bool) \<Rightarrow> ('k, 'v) AVLDictionary \<Rightarrow> 'k option
   \<Rightarrow> (error + ('k, 'v) AVLDictionary) option" where
  "filter_loop mx compare condition d key_opt =
     (case key_opt of
        None \<Rightarrow> Some (Inr d)
      | Some k \<Rightarrow>
          (case erase mx compare d k of
             Inl e \<Rightarrow> Some (Inl e)
           | Inr (_, d') \<Rightarrow>
               filter_loop mx compare condition d'
                 (snd (foreach_since_upper_bound compare (root d') k (processor condition) None))))"

definition filter_dict ::
  "nat \<Rightarrow> ('k \<Rightarrow> 'k \<Rightarrow> bool) \<Rightarrow> ('k \<times> 'v \<Rightarrow> bool) \<Rightarrow> ('k, 'v) AVLDictionary
   \<Rightarrow> (error + ('k, 'v) AVLDictionary) option" where
  "filter_dict mx compare condition d =
     filter_loop mx compare condition d (snd (for_each (root d) (processor condition) None))"

text \<open>\<open>AVLDictSet::emplace\<close> and \<open>AVLDictMultiset::emplace\<close>.\<close>

definition Set_emplace ::
  "nat \<Rightarrow> ('k \<Rightarrow> 'k \<Rightarrow> bool) \<Rightarrow> ('k, unit) AVLDictionary \<Rightarrow> 'k \<Rightarrow> error + (bool \<times> ('k, unit) AVLDictionary)" where
  "Set_emplace mx compare d k =
     (case allocate_node mx d of
        Inl e \<Rightarrow> Inl e
      | Inr (new_node, d1) \<Rightarrow>
          (case insert_if_not_exists compare (root d1) \<lparr>idx = new_node, key = k, val = (), h = 0\<rparr> of
             Inl e \<Rightarrow> Inl e
           | Inr (t', x) \<Rightarrow>
               if x \<noteq> new_node then
                 (case deallocate_node mx (d1\<lparr>root := t'\<rparr>) new_node of
                    Inl e \<Rightarrow> Inl e
                  | Inr d2 \<Rightarrow> Inr (False, d2))
               else Inr (True, d1\<lparr>root := t'\<rparr>)))"

definition Multiset_emplace ::
  "nat \<Rightarrow> ('k \<Rightarrow> 'k \<Rightarrow> bool) \<Rightarrow> ('k, unit) AVLDictionary \<Rightarrow> 'k \<Rightarrow> error + ('k, unit) AVLDictionary" where
  "Multiset_emplace mx compare d k =
     (case allocate_node mx d of
        Inl e \<Rightarrow> Inl e
      | Inr (new_node, d1) \<Rightarrow>
          (case insert_node compare (root d1) \<lparr>idx = new_node, key = k, val = (), h = 0\<rparr> of
             Inl e \<Rightarrow> Inl e
           | Inr t' \<Rightarrow> Inr (d1\<lparr>root := t'\<rparr>)))"

text \<open>\<open>AVLDictMap\<close>: \<open>emplace\<close>, \<open>operator[]\<close> and \<open>alter_key\<close>. \<open>emplace\<close> returns the
  data of the new node and whether the key was new; \<open>operator[]\<close> returns the handle
  and the mapped value it refers to.\<close>

definition Map_emplace ::
  "nat \<Rightarrow> ('k \<Rightarrow> 'k \<Rightarrow> bool) \<Rightarrow> ('k, 'v) AVLDictionary \<Rightarrow> 'k \<Rightarrow> 'v
   \<Rightarrow> error + ((('k \<times> 'v) \<times> bool) \<times> ('k, 'v) AVLDictionary)" where
  "Map_emplace mx compare d k v =
     (case allocate_node mx d of
        Inl e \<Rightarrow> Inl e
      | Inr (new_node, d1) \<Rightarrow>
          (case insert_or_replace mx compare d1 (root d1) \<lparr>idx = new_node, key = k, val = v, h = 0\<rparr> of
             Inl e \<Rightarrow> Inl e
           | Inr (d2, t', b) \<Rightarrow> Inr (((k, v), b), d2\<lparr>root := t'\<rparr>)))"

definition Map_index ::
  "nat \<Rightarrow> ('k \<Rightarrow> 'k \<Rightarrow> bool) \<Rightarrow> 'v \<Rightarrow> ('k, 'v) AVLDictionary \<Rightarrow> 'k
   \<Rightarrow> error + ((nat \<times> 'v) \<times> ('k, 'v) AVLDictionary)" where
  "Map_index mx compare dflt d k =
     (case emplace_if_not_exists mx compare dflt d k of
        Inl e \<Rightarrow> Inl e
      | Inr (x, d') \<Rightarrow>
          (case find (\<lambda>e. fst e = x) (inorder (root d')) of
             None \<Rightarrow> Inl UndefinedBehaviour
           | Some e \<Rightarrow> Inr ((x, snd (snd e)), d')))"

definition Map_alter_key ::
  "nat \<Rightarrow> ('k \<Rightarrow> 'k \<Rightarrow> bool) \<Rightarrow> ('k, 'v) AVLDictionary \<Rightarrow> 'k \<Rightarrow> 'k
   \<Rightarrow> error + ((bool \<times> bool) \<times> ('k, 'v) AVLDictionary)" where
  "Map_alter_key mx compare d old_key new_key =
     (case pull_out compare d old_key of
        Inl e \<Rightarrow> Inl e
      | Inr (None, d1) \<Rightarrow> Inr ((False, False), d1)
      | Inr (Some x, d1) \<Rightarrow>
          (case insert_or_replace mx compare d1 (root d1) (x\<lparr>key := new_key\<rparr>) of
             Inl e \<Rightarrow> Inl e
           | Inr (d2, t', b) \<Rightarrow> Inr ((True, \<not> b), d2\<lparr>root := t'\<rparr>)))"

text \<open>\<open>AVLDictMultimap\<close>: \<open>emplace\<close> and \<open>alter_key\<close>.\<close>

definition Multimap_emplace ::
  "nat \<Rightarrow> ('k \<Rightarrow> 'k \<Rightarrow> bool) \<Rightarrow> ('k, 'v) AVLDictionary \<Rightarrow> 'k \<Rightarrow> 'v
   \<Rightarrow> error + (('k \<times> 'v) \<times> ('k, 'v) AVLDictionary)" where
  "Multimap_emplace mx compare d k v =
     (case allocate_node mx d of
        Inl e \<Rightarrow> Inl e
      | Inr (new_node, d1) \<Rightarrow>
          (case insert_node compare (root d1) \<lparr>idx = new_node, key = k, val = v, h = 0\<rparr> of
             Inl e \<Rightarrow> Inl e
           | Inr t' \<Rightarrow> Inr ((k, v), d1\<lparr>root := t'\<rparr>)))"

definition Multimap_alter_key ::
  "('k \<Rightarrow> 'k \<Rightarrow> bool) \<Rightarrow> ('k, 'v) AVLDictionary \<Rightarrow> 'k \<Rightarrow> 'k
   \<Rightarrow> error + (bool \<times> ('k, 'v) AVLDictionary)" where
  "Multimap_alter_key compare d old_key new_key =
     (case pull_out compare d old_key of
        Inl e \<Rightarrow> Inl e
      | Inr (None, d1) \<Rightarrow> Inr (False, d1)
      | Inr (Some x, d1) \<Rightarrow>
          (case insert_node compare (root d1) (x\<lparr>key := new_key\<rparr>) of
             Inl e \<Rightarrow> Inl e
           | Inr t' \<Rightarrow> Inr (True, d1\<lparr>root := t'\<rparr>)))"


section \<open>The invariant of a dictionary\<close>

text \<open>
  A dictionary is well-formed when its pool has a free list, the sentinel's slot 0 is
  occupied, the handles of the nodes of the tree are distinct and are exactly the other
  occupied slots, \<open>size_\<close> counts the nodes, and the stored heights satisfy the balance
  invariant the code keeps. \<open>size_type\<close> has at most 64 bits.
\<close>

definition pool_ok :: "nat \<Rightarrow> 'a AVLPoolAllocator \<Rightarrow> bool" where
  "pool_ok mx p = (\<exists>fs. pool_wf mx p fs)"

definition handles :: "('k, 'v) subtree \<Rightarrow> nat list" where
  "handles t = map fst (inorder t)"

definition dict_inv :: "nat \<Rightarrow> ('k, 'v) AVLDictionary \<Rightarrow> bool" where
  "dict_inv mx d =
     (mx < 2 ^ 64 \<and> pool_ok mx (pool d) \<and> 0 \<in> occupied (pool d) \<and>
      distinct (handles (root d)) \<and> set (handles (root d)) = occupied (pool d) - {0} \<and>
      size' d = length (inorder (root d)) \<and> avl_stored (root d))"

text \<open>The pool is full: the free list is empty and the capacity is \<open>max_capacity()\<close>.\<close>

definition pool_full :: "nat \<Rightarrow> 'a AVLPoolAllocator \<Rightarrow> bool" where
  "pool_full mx p = (head p = capacity p \<and> capacity p = mx)"

section \<open>Sequences of operations\<close>

text \<open>
  The inserting and erasing operations of the four containers, and a run of a list of them
  on a freshly constructed dictionary. A run stops at the first failure, as the exception
  would. \<open>Set\<close> and \<open>Multiset\<close> take the same operations; \<open>operator[]\<close> exists for
  \<open>Map\<close> only.
\<close>

datatype 'k set_op = Emplace 'k | Erase 'k

datatype ('k, 'v) map_op = MapEmplace 'k 'v | MapIndex 'k | MapErase 'k

datatype ('k, 'v) multimap_op = MultimapEmplace 'k 'v | MultimapErase 'k

fun Set_step ::
  "nat \<Rightarrow> ('k \<Rightarrow> 'k \<Rightarrow> bool) \<Rightarrow> ('k, unit) AVLDictionary \<Rightarrow> 'k set_op \<Rightarrow> error + ('k, unit) AVLDictionary" where
  "Set_step mx compare d (Emplace k) =
     (case Set_emplace mx compare d k of Inl e \<Rightarrow> Inl e | Inr (_, d') \<Rightarrow> Inr d')"
| "Set_step mx compare d (Erase k) =
     (case erase mx compare d k of Inl e \<Rightarrow> Inl e | Inr (_, d') \<Rightarrow> Inr d')"

fun Multiset_step ::
  "nat \<Rightarrow> ('k \<Rightarrow> 'k \<Rightarrow> bool) \<Rightarrow> ('k, unit) AVLDictionary \<Rightarrow> 'k set_op \<Rightarrow> error + ('k, unit) AVLDictionary" where
  "Multiset_step mx compare d (Emplace k) = Multiset_emplace mx compare d k"
| "Multiset_step mx compare d (Erase k) =
     (case erase mx compare d k of Inl e \<Rightarrow> Inl e | Inr (_, d') \<Rightarrow> Inr d')"

fun Map_step ::
  "nat \<Rightarrow> ('k \<Rightarrow> 'k \<Rightarrow> bool) \<Rightarrow> 'v \<Rightarrow> ('k, 'v) AVLDictionary \<Rightarrow> ('k, 'v) map_op
   \<Rightarrow> error + ('k, 'v) AVLDictionary" where
  "Map_step mx compare dflt d (MapEmplace k v) =
     (case Map_emplace mx compare d k v of Inl e \<Rightarrow> Inl e | Inr (_, d') \<Rightarrow> Inr d')"
| "Map_step mx compare dflt d (MapIndex k) =
     (case Map_index mx compare dflt d k of Inl e \<Rightarrow> Inl e | Inr (_, d') \<Rightarrow> Inr d')"
| "Map_step mx compare dflt d (MapErase k) =
     (case erase mx compare d k of Inl e \<Rightarrow> Inl e | Inr (_, d') \<Rightarrow> Inr d')"

fun Multimap_step ::
  "nat \<Rightarrow> ('k \<Rightarrow> 'k \<Rightarrow> bool) \<Rightarrow> ('k, 'v) AVLDictionary \<Rightarrow> ('k, 'v) multimap_op
   \<Rightarrow> error + ('k, 'v) AVLDictionary" where
  "Multimap_step mx compare d (MultimapEmplace k v) =
     (case Multimap_emplace mx compare d k v of Inl e \<Rightarrow> Inl e | Inr (_, d') \<Rightarrow> Inr d')"
| "Multimap_step mx compare d (MultimapErase k) =
     (case erase mx compare d k of Inl e \<Rightarrow> Inl e | Inr (_, d') \<Rightarrow> Inr d')"

fun run_ops :: "('d \<Rightarrow> 'o \<Rightarrow> error + 'd) \<Rightarrow> 'd \<Rightarrow> 'o list \<Rightarrow> error + 'd" where
  "run_ops step d [] = Inr d"
| "run_ops step d (x # xs) = (case step d x of Inl e \<Rightarrow> Inl e | Inr d' \<Rightarrow> run_ops step d' xs)"

definition run_new ::
  "nat \<Rightarrow> nat \<Rightarrow> (('k, 'v) AVLDictionary \<Rightarrow> 'o \<Rightarrow> error + ('k, 'v) AVLDictionary) \<Rightarrow> 'o list
   \<Rightarrow> error + ('k, 'v) AVLDictionary" where
  "run_new mx reserve_n step ops =
     (case AVLDictionary_new mx reserve_n of Inl e \<Rightarrow> Inl e | Inr d \<Rightarrow> run_ops step d ops)"


text \<open>How the stored height of a subtree may change in one operation: by at most 1, and
  what replaces \<open>nil\<close> stores the height 0.\<close>

definition hrel :: "('k, 'v) subtree \<Rightarrow> ('k, 'v) subtree \<Rightarrow> bool" where
  "hrel t t' = (h_of t' \<le> h_of t + 1 \<and> h_of t \<le> h_of t' + 1 \<and> (t = nil \<longrightarrow> h_of t' = 0))"

text \<open>The arena after growing to \<open>nc\<close> slots: the old slots as they were, the new ones
  threaded into the free list.\<close>

definition grown :: "nat \<Rightarrow> 'a AVLPoolAllocator \<Rightarrow> 'a AVLPoolAllocator" where
  "grown nc p = p\<lparr>data := data p @ map (\<lambda>i. Ptr (i + 1)) [capacity p ..< nc], capacity := nc\<rparr>"


text \<open>The invariant of a dictionary together with its sorted traversal.\<close>

definition inv_multi :: "nat \<Rightarrow> ('k \<Rightarrow> 'k \<Rightarrow> bool) \<Rightarrow> ('k, 'v) AVLDictionary \<Rightarrow> bool" where
  "inv_multi mx cmp d = (dict_inv mx d \<and> sorted_multi cmp (inorder (root d)))"

definition inv_unique :: "nat \<Rightarrow> ('k \<Rightarrow> 'k \<Rightarrow> bool) \<Rightarrow> ('k, 'v) AVLDictionary \<Rightarrow> bool" where
  "inv_unique mx cmp d = (dict_inv mx d \<and> sorted_unique cmp (inorder (root d)))"


text \<open>What a traversal with the \<open>processor\<close> of \<open>filter\<close> returns on the elements \<open>es\<close>:
  it stops at the first one that satisfies the condition and stores its key.\<close>

definition found_key :: "('k \<times> 'v \<Rightarrow> bool) \<Rightarrow> (nat \<times> 'k \<times> 'v) list \<Rightarrow> 'k option \<Rightarrow> repeating \<times> 'k option" where
  "found_key condition es s =
     (case find (\<lambda>e. condition (snd e)) es of
        None \<Rightarrow> (continue_repeating, s)
      | Some e \<Rightarrow> (stop_repeating, Some (ekey e)))"


section \<open>Properties of the pool allocator\<close>

lemma free_chain_le: "free_chain d cap i fs \<Longrightarrow> i \<le> cap"
  by (cases fs) auto

lemma free_chain_update:
  "x \<notin> set fs \<Longrightarrow> free_chain (d[x := v]) cap i fs = free_chain d cap i fs"
  by (induction fs arbitrary: i) (auto split: Elem.splits)

lemma free_chain_lt: "free_chain d cap i fs \<Longrightarrow> \<forall>x\<in>set fs. x < cap"
  by (induction fs arbitrary: i) (auto split: Elem.splits)

lemma free_chain_Ptr: "free_chain d cap i fs \<Longrightarrow> x \<in> set fs \<Longrightarrow> \<exists>j. d ! x = Ptr j \<and> j \<le> cap"
  by (induction fs arbitrary: i) (auto split: Elem.splits dest: free_chain_le)

lemma copy_free_list_chain:
  "free_chain old cap i fs \<Longrightarrow> cap \<le> length old \<Longrightarrow>
   copy_free_list old cap i nd = Some (Inr (fold (\<lambda>x a. a[x := old ! x]) fs nd))"
proof (induction fs arbitrary: i nd)
  case Nil
  then show ?case by (subst copy_free_list.simps) simp
next
  case (Cons x xs)
  from Cons.prems obtain j where j: "i = x" "x < cap" "old ! x = Ptr j" "free_chain old cap j xs"
    by (auto split: Elem.splits)
  show ?case
    using j Cons.prems(2) Cons.IH[OF j(4) Cons.prems(2)]
    by (subst copy_free_list.simps) (simp add: ptr_def)
qed

lemma nth_fold_upd:
  "i < length nd \<Longrightarrow>
   fold (\<lambda>x a. a[x := old ! x]) fs nd ! i = (if i \<in> set fs then old ! i else nd ! i)"
  by (induction fs arbitrary: nd) (auto simp: nth_list_update)

lemma length_fold_upd: "length (fold (\<lambda>x a. a[x := f x]) fs nd) = length nd"
  by (induction fs arbitrary: nd) auto

lemma pool_wf_D:
  assumes "pool_wf mx p fs"
  shows "length (data p) = capacity p" "0 < capacity p" "capacity p \<le> mx"
    "free_chain (data p) (capacity p) (head p) fs" "distinct fs"
    "\<And>i. i < capacity p \<Longrightarrow> i \<notin> set fs \<Longrightarrow> is_Val (data p ! i)"
  using assms by (auto simp: pool_wf_def list_all_iff)

lemma reserve_for_grow:
  assumes wf: "pool_wf mx p fs" and n: "capacity p \<le> n" and nmx: "capacity p \<noteq> mx"
  defines "nc \<equiv> max n (if capacity p < mx div 2 then 2 * capacity p else mx)"
  shows "reserve_for mx p n = Some (Inr (grown nc p))"
proof -
  let ?cap = "capacity p" and ?old = "data p"
  define init :: "'a Elem list" where "init = replicate ?cap (Ptr nc) @ map (\<lambda>i. Ptr (i + 1)) [?cap ..< nc]"
  define marked where "marked = fold (\<lambda>x a. a[x := ?old ! x]) fs init"
  note W = pool_wf_D[OF wf]
  have nc: "?cap < nc" using W(2,3) nmx n by (auto simp: nc_def max_def)
  have len_init: "length init = nc" using nc by (simp add: init_def)
  have cfl: "copy_free_list ?old ?cap (head p) init = Some (Inr marked)"
    using copy_free_list_chain[OF W(4)] W(1) by (simp add: marked_def)
  have len_m: "length marked = nc" by (simp add: marked_def length_fold_upd len_init)
  have m_nth: "marked ! i = (if i \<in> set fs then ?old ! i else init ! i)" if "i < nc" for i
    using nth_fold_upd[of i init ?old fs] that len_init by (simp add: marked_def)
  have init_lo: "init ! i = Ptr nc" if "i < ?cap" for i using that by (simp add: init_def nth_append)
  have init_hi: "init ! i = Ptr (i + 1)" if "\<not> i < ?cap" "i < nc" for i
    using that nth_upt[of "capacity p" "i - capacity p" nc] by (simp add: init_def nth_append)
  have fs_lt: "\<forall>x\<in>set fs. x < ?cap" using free_chain_lt[OF W(4)] .
  have no_ub: "\<not> list_ex (\<lambda>i. marked ! i = Ptr nc \<and> \<not> (i < length ?old \<and> is_Val (?old ! i))) [0 ..< ?cap]"
  proof -
    { fix i assume i: "i < ?cap" and mk: "marked ! i = Ptr nc"
      have "i \<notin> set fs"
      proof
        assume "i \<in> set fs"
        then obtain j where "?old ! i = Ptr j" "j \<le> ?cap" using free_chain_Ptr[OF W(4)] by blast
        with mk m_nth[of i] i nc \<open>i \<in> set fs\<close> show False by simp
      qed
      then have "i < length ?old \<and> is_Val (?old ! i)" using W(1,6) i by simp }
    then show ?thesis by (auto simp: list_ex_iff)
  qed
  have res: "map (\<lambda>i. if marked ! i = Ptr nc then ?old ! i else marked ! i) [0 ..< ?cap] @ drop ?cap marked
        = ?old @ map (\<lambda>i. Ptr (i + 1)) [?cap ..< nc]" (is "?l = ?r")
  proof (rule nth_equalityI)
    show "length ?l = length ?r" using len_m nc W(1) by simp
  next
    fix i assume "i < length ?l"
    then have i: "i < nc" using len_m nc by simp
    show "?l ! i = ?r ! i"
    proof (cases "i < ?cap")
      case True
      then show ?thesis using m_nth[of i] i W(1) init_lo[of i] by (auto simp: nth_append)
    next
      case False
      then have "i \<notin> set fs" using fs_lt by auto
      then show ?thesis using False m_nth[of i] i W(1) len_m nc init_hi[of i] by (simp add: nth_append)
    qed
  qed
  show ?thesis
    unfolding reserve_for_def Let_def nc_def[symmetric] init_def[symmetric]
    using n nmx cfl no_ub res
    by (simp add: move_allocated_def grown_def)
qed

lemma allocate_pop:
  assumes wf: "pool_wf mx p (x # fs)"
  shows "\<exists>j. data p ! x = Ptr j \<and> allocate mx p = Inr (x, p\<lparr>head := j\<rparr>)"
proof -
  note W = pool_wf_D[OF wf]
  from W(4) obtain j where j: "head p = x" "x < capacity p" "data p ! x = Ptr j"
    by (auto split: Elem.splits)
  then show ?thesis using W(1) by (simp add: allocate_def ptr_def)
qed

lemma allocate_grow:
  assumes wf: "pool_wf mx p []" and nmx: "capacity p \<noteq> mx"
  defines "nc \<equiv> (if capacity p < mx div 2 then 2 * capacity p else mx)"
  shows "allocate mx p = Inr (capacity p, (grown nc p)\<lparr>head := capacity p + 1\<rparr>)"
proof -
  note W = pool_wf_D[OF wf]
  have hd: "head p = capacity p" using W(4) by simp
  have nc: "capacity p < nc" using W(2,3) nmx by (auto simp: nc_def)
  have allv: "list_all is_Val (data p)"
    using W(1,6) by (auto simp: list_all_length)
  have nth: "(data p @ map (\<lambda>i. Ptr (i + 1)) [capacity p ..< nc]) ! capacity p = Ptr (capacity p + 1)"
    using nc W(1) by (simp add: nth_append)
  show ?thesis
    unfolding allocate_def Let_def nc_def[symmetric]
    using hd nmx allv nth nc W(1) by (simp add: ptr_def grown_def)
qed

lemma free_chain_fresh:
  assumes "length d = cap" "cap \<le> i" "i \<le> nc"
  shows "free_chain (d @ map (\<lambda>i. Ptr (i + 1)) [cap ..< nc]) nc i [i ..< nc]"
  using assms(2,3)
proof (induction "nc - i" arbitrary: i)
  case 0
  then show ?case by simp
next
  case (Suc k)
  then have lt: "i < nc" by simp
  have nth: "(d @ map (\<lambda>i. Ptr (i + 1)) [cap ..< nc]) ! i = Ptr (i + 1)"
    using assms(1) Suc.prems lt nth_upt[of cap "i - cap" nc] by (simp add: nth_append)
  have "free_chain (d @ map (\<lambda>i. Ptr (i + 1)) [cap ..< nc]) nc (i + 1) [i + 1 ..< nc]"
    using Suc by (intro Suc.hyps) auto
  then show ?case using lt nth by (simp add: upt_rec[of i nc])
qed

lemma free_chain_grow:
  assumes "free_chain d cap i fs" "length d = cap" "cap \<le> nc"
  shows "free_chain (d @ map (\<lambda>i. Ptr (i + 1)) [cap ..< nc]) nc i (fs @ [cap ..< nc])"
  using assms(1)
proof (induction fs arbitrary: i)
  case Nil
  then show ?case using free_chain_fresh[OF assms(2) order_refl assms(3)] by simp
next
  case (Cons x xs)
  then show ?case using assms(2,3) by (auto simp: nth_append split: Elem.splits)
qed

lemma pool_wf_grown:
  assumes wf: "pool_wf mx p fs" and nc: "capacity p < nc" "nc \<le> mx"
  shows "pool_wf mx (grown nc p) (fs @ [capacity p ..< nc])"
proof -
  note W = pool_wf_D[OF wf]
  have fl: "\<forall>x\<in>set fs. x < capacity p" using free_chain_lt[OF W(4)] .
  have "free_chain (data (grown nc p)) nc (head p) (fs @ [capacity p ..< nc])"
    using free_chain_grow[OF W(4) W(1), of nc] nc by (simp add: grown_def)
  moreover have "distinct (fs @ [capacity p ..< nc])" using W(5) fl by auto
  moreover have "list_all (\<lambda>i. i \<in> set (fs @ [capacity p ..< nc]) \<or> is_Val (data (grown nc p) ! i)) [0 ..< nc]"
    using W(1,6) nc by (auto simp: list_all_iff grown_def nth_append)
  ultimately show ?thesis using W(1,2) nc by (simp add: pool_wf_def grown_def)
qed

lemma occupied_grown:
  assumes "length (data p) = capacity p"
  shows "occupied (grown nc p) = occupied p"
proof -
  let ?nd = "data p @ map (\<lambda>i. Ptr (i + 1)) [capacity p ..< nc]"
  have hi: "\<not> is_Val (?nd ! i)" if "capacity p \<le> i" "i < length ?nd" for i
  proof -
    have "i - capacity p < length (map (\<lambda>i. Ptr (i + 1) :: 'a Elem) [capacity p ..< nc])"
      using that assms by simp
    then obtain k where "map (\<lambda>i. Ptr (i + 1) :: 'a Elem) [capacity p ..< nc] ! (i - capacity p) = Ptr k"
      by (simp del: nth_upt)
    then show ?thesis using that assms by (simp add: nth_append del: nth_map nth_upt)
  qed
  have lo: "?nd ! i = data p ! i" if "i < capacity p" for i using that assms by (simp add: nth_append)
  have "i \<in> occupied (grown nc p) \<longleftrightarrow> i \<in> occupied p" for i
  proof (cases "i < capacity p")
    case True
    then show ?thesis using lo[OF True] assms by (simp add: occupied_def grown_def)
  next
    case False
    then show ?thesis using hi[of i] assms by (auto simp: occupied_def grown_def simp del: nth_append)
  qed
  then show ?thesis by blast
qed

text \<open>\<open>allocate\<close> followed by the construction of the node.\<close>

lemma allocate_construct:
  assumes ok: "pool_ok mx (p :: 'a AVLPoolAllocator)"
  shows "(allocate mx p = Inl AllocatorExhausted \<and> head p = capacity p \<and> capacity p = mx) \<or>
         (\<exists>x p1 p2. allocate mx p = Inr (x, p1) \<and> construct p1 x v = Inr p2 \<and> pool_ok mx p2 \<and>
            x \<notin> occupied p \<and> occupied p2 = insert x (occupied p))"
proof -
  from ok obtain fs where wf: "pool_wf mx p fs" by (auto simp: pool_ok_def)
  note W = pool_wf_D[OF wf]
  show ?thesis
  proof (cases fs)
    case (Cons y ys)
    from allocate_pop[OF wf[unfolded Cons]] obtain j where j: "data p ! y = Ptr j"
      and a: "allocate mx p = Inr (y, p\<lparr>head := j\<rparr>)" by blast
    have y: "y < capacity p" "y \<notin> set ys" using W(4,5) Cons by auto
    let ?p2 = "p\<lparr>head := j, data := (data p)[y := Val v]\<rparr>"
    have c: "construct (p\<lparr>head := j\<rparr>) y v = Inr ?p2" using y W(1) by (simp add: construct_def)
    have ch: "free_chain (data p) (capacity p) j ys" using W(4) Cons j by simp
    have ch2: "free_chain ((data p)[y := Val v]) (capacity p) j ys"
      using ch by (simp add: free_chain_update[OF y(2)])
    have rest: "i \<in> set ys \<or> is_Val ((data p)[y := Val v] ! i)" if "i < capacity p" for i
      using W(6)[OF that] W(1) that Cons by (cases "i = y") auto
    have "pool_wf mx ?p2 ys"
      using W(1,2,3,5) ch2 rest Cons by (simp add: pool_wf_def list_all_iff)
    then have ok2: "pool_ok mx ?p2" by (auto simp: pool_ok_def)
    have occ: "y \<notin> occupied p" "occupied ?p2 = insert y (occupied p)"
      using j y W(1) by (auto simp: occupied_def nth_list_update)
    show ?thesis using a c ok2 occ by blast
  next
    case Nil
    have hd: "head p = capacity p" using W(4) Nil by simp
    show ?thesis
    proof (cases "capacity p = mx")
      case True
      then show ?thesis using hd by (simp add: allocate_def)
    next
      case False
      define nc where "nc = (if capacity p < mx div 2 then 2 * capacity p else mx)"
      have nc: "capacity p < nc" "nc \<le> mx" using W(2,3) False by (auto simp: nc_def)
      have a: "allocate mx p = Inr (capacity p, (grown nc p)\<lparr>head := capacity p + 1\<rparr>)"
        using allocate_grow[OF wf[unfolded Nil] False] by (simp add: nc_def)
      let ?p1 = "(grown nc p)\<lparr>head := capacity p + 1\<rparr>"
      let ?p2 = "?p1\<lparr>data := (data ?p1)[capacity p := Val v]\<rparr>"
      have c: "construct ?p1 (capacity p) v = Inr ?p2" using nc W(1) by (simp add: construct_def grown_def)
      have wg: "pool_wf mx (grown nc p) [capacity p ..< nc]" using pool_wf_grown[OF wf nc] Nil by simp
      note G = pool_wf_D[OF wg]
      have up: "[capacity p ..< nc] = capacity p # [capacity p + 1 ..< nc]" using nc by (simp add: upt_rec)
      have ch: "free_chain (data (grown nc p)) nc (capacity p + 1) [capacity p + 1 ..< nc]"
        using G(4) up nc W(1) by (auto simp: grown_def nth_append split: Elem.splits)
      have ch2: "free_chain ((data (grown nc p))[capacity p := Val v]) nc (capacity p + 1) [capacity p + 1 ..< nc]"
        using ch by (subst free_chain_update) auto
      have rest: "i \<in> set [capacity p + 1 ..< nc] \<or> is_Val ((data (grown nc p))[capacity p := Val v] ! i)"
        if "i < nc" for i
      proof (cases "i = capacity p")
        case True
        then show ?thesis using G(1) nc by (simp add: grown_def)
      next
        case False
        have "i < capacity (grown nc p)" using that by (simp add: grown_def)
        from G(6)[OF this] have "i \<in> set [capacity p ..< nc] \<or> is_Val (data (grown nc p) ! i)" by blast
        then show ?thesis using False by (cases "capacity p \<le> i") (auto simp: nth_list_update)
      qed
      have "pool_wf mx ?p2 [capacity p + 1 ..< nc]"
        using G(1,2,3) ch2 rest nc by (simp add: pool_wf_def list_all_iff grown_def)
      then have ok2: "pool_ok mx ?p2" by (auto simp: pool_ok_def)
      have "capacity p \<notin> occupied p" using W(1) by (simp add: occupied_def)
      moreover have "occupied ?p2 = insert (capacity p) (occupied p)"
      proof -
        have "occupied ?p2 = insert (capacity p) (occupied (grown nc p))"
          using nc W(1) by (auto simp: occupied_def nth_list_update grown_def)
        then show ?thesis using occupied_grown[OF W(1)] by simp
      qed
      ultimately show ?thesis using a c ok2 by blast
    qed
  qed
qed

lemma destruct_and_deallocate_ok:
  assumes ok: "pool_ok mx (p :: 'a AVLPoolAllocator)" and x: "x \<in> occupied p"
  shows "\<exists>p'. destruct_and_deallocate p x = Inr p' \<and> pool_ok mx p' \<and> occupied p' = occupied p - {x} \<and>
           head p' = x \<and> capacity p' = capacity p"
proof -
  from ok obtain fs where wf: "pool_wf mx p fs" by (auto simp: pool_ok_def)
  note W = pool_wf_D[OF wf]
  have xl: "x < capacity p" and xv: "is_Val (data p ! x)" using x W(1) by (auto simp: occupied_def)
  have xfs: "x \<notin> set fs"
  proof
    assume "x \<in> set fs"
    then obtain j where "data p ! x = Ptr j" using free_chain_Ptr[OF W(4)] by blast
    with xv show False by simp
  qed
  let ?p' = "p\<lparr>data := (data p)[x := Ptr (head p)], head := x\<rparr>"
  have d: "destruct_and_deallocate p x = Inr ?p'"
    using xl xv W(1) by (cases "data p ! x") (auto simp: destruct_and_deallocate_def elem_def)
  have ch: "free_chain ((data p)[x := Ptr (head p)]) (capacity p) (head p) fs"
    using W(4) by (simp add: free_chain_update[OF xfs])
  have rest: "i \<in> set (x # fs) \<or> is_Val ((data p)[x := Ptr (head p)] ! i)" if "i < capacity p" for i
    using W(6)[OF that] W(1) that by (cases "i = x") auto
  have "pool_wf mx ?p' (x # fs)"
    using W(1,2,3,5) xl xfs ch rest by (simp add: pool_wf_def list_all_iff)
  then have "pool_ok mx ?p'" by (auto simp: pool_ok_def)
  moreover have "occupied ?p' = occupied p - {x}"
    using xl W(1) by (auto simp: occupied_def nth_list_update)
  ultimately show ?thesis using d by auto
qed


text \<open>When \<open>allocate\<close> and \<open>reserve_for\<close> fail, and what a growth keeps.\<close>

lemma allocate_fail:
  assumes "pool_ok mx p" "allocate mx p = Inl e"
  shows "e = AllocatorExhausted \<and> pool_full mx p"
  using allocate_construct[OF assms(1), of undefined] assms(2) by (auto simp: pool_full_def)

lemma allocate_full: "pool_full mx p \<Longrightarrow> allocate mx p = Inl AllocatorExhausted"
  by (simp add: allocate_def pool_full_def)

lemma reserve_for_cases:
  assumes wf: "pool_wf mx p fs"
  shows "reserve_for mx p n =
     (if n < capacity p then Some (Inr p)
      else if capacity p = mx then Some (Inl AllocatorExhausted)
      else Some (Inr (grown (max n (if capacity p < mx div 2 then 2 * capacity p else mx)) p)))"
proof (cases "n < capacity p")
  case True
  then show ?thesis by (simp add: reserve_for_def)
next
  case False
  show ?thesis
  proof (cases "capacity p = mx")
    case True
    then show ?thesis using False by (simp add: reserve_for_def)
  next
    case nm: False
    have "capacity p \<le> n" using False by simp
    from reserve_for_grow[OF wf this nm] show ?thesis using False nm by simp
  qed
qed

lemma grown_frame:
  assumes wf: "pool_wf mx p fs" and nc: "capacity p < nc" "nc \<le> mx"
  shows "capacity (grown nc p) = nc" "head (grown nc p) = head p"
    "occupied (grown nc p) = occupied p" "pool_ok mx (grown nc p)"
proof -
  show "capacity (grown nc p) = nc" "head (grown nc p) = head p" by (simp_all add: grown_def)
  show "occupied (grown nc p) = occupied p" using pool_wf_D(1)[OF wf] by (rule occupied_grown)
  show "pool_ok mx (grown nc p)" using pool_wf_grown[OF wf nc] unfolding pool_ok_def by blast
qed


section \<open>Properties of rebalancing and of insertion\<close>

lemma c_div_2: "c_div x 2 = (if 0 \<le> x then x div 2 else - ((- x) div 2))"
  by (auto simp: c_div_def)

lemma rebalance_inorder:
  "rebalance_and_seth t = Inr t' \<Longrightarrow> inorder t' = inorder t"
  by (cases t) (auto simp: Let_def rotate_and_seth_def entry_def split: if_splits subtree.splits sum.splits)

lemma rebalance_balanced:
  assumes "h_of l \<le> h_of r + 1" "h_of r \<le> h_of l + 1"
  shows "rebalance_and_seth (node l n r) = Inr (seth (node l n r))"
  using assms by (auto simp: c_div_2 Let_def)

lemma rebalance_left_single:
  assumes "h B = h_of r + 2" "h_of lr \<noteq> h_of ll + 1"
  shows "rebalance_and_seth (node (node ll B lr) n r) = Inr (seth (node ll B (seth (node lr n r))))"
  using assms by (simp add: c_div_2 Let_def rotate_and_seth_def)

lemma rebalance_left_double:
  assumes "h B = h_of r + 2" "h C = h_of ll + 1"
  shows "rebalance_and_seth (node (node ll B (node cl C cr)) n r) =
         Inr (seth (node (seth (node ll B cl)) C (seth (node cr n r))))"
  using assms by (simp add: c_div_2 Let_def)

lemma rebalance_right_single:
  assumes "h B = h_of l + 2" "h_of rl \<noteq> h_of rr + 1"
  shows "rebalance_and_seth (node l n (node rl B rr)) = Inr (seth (node (seth (node l n rl)) B rr))"
  using assms by (simp add: c_div_2 Let_def rotate_and_seth_def)

lemma rebalance_right_double:
  assumes "h B = h_of l + 2" "h C = h_of rr + 1"
  shows "rebalance_and_seth (node l n (node (node cl C cr) B rr)) =
         Inr (seth (node (seth (node l n cl)) C (seth (node cr B rr))))"
  using assms by (simp add: c_div_2 Let_def)

lemma avl_seth:
  assumes "avl_stored l" "avl_stored r"
    "h_of l \<le> h_of r + 1 \<and> h_of r \<le> h_of l + 1 \<and> h_of l < 255 \<and> h_of r < 255"
  shows "avl_stored (seth (node l n r)) \<and> h_of (seth (node l n r)) = 1 + max (h_of l) (h_of r)"
  using assms by auto

declare rebalance_and_seth.simps(2) [simp del]

lemma seth_not_nil: "seth (node l n r) \<noteq> nil" by simp

lemma rebalance_left_heavy:
  assumes "avl_stored l" "avl_stored r" "h_of l = h_of r + 2" "h_of l < 255"
  shows "\<exists>t'. rebalance_and_seth (node l n r) = Inr t' \<and> avl_stored t' \<and> t' \<noteq> nil \<and>
           (h_of t' = h_of l \<or> h_of t' = h_of l + 1)"
proof -
  from assms obtain ll B lr where l: "l = node ll B lr" by (cases l) auto
  have hB: "h B = 1 + max (h_of ll) (h_of lr)" and bal: "h_of ll \<le> h_of lr + 1" "h_of lr \<le> h_of ll + 1"
    and sub: "avl_stored ll" "avl_stored lr"
    using assms l by auto
  have hBr: "h B = h_of r + 2" using assms(3) l by simp
  show ?thesis
  proof (cases "h_of lr = h_of ll + 1")
    case False
    define x1 where "x1 = seth (node lr n r)"
    have x1: "avl_stored x1 \<and> h_of x1 = 1 + max (h_of lr) (h_of r)"
      unfolding x1_def using sub assms(2,4) hB hBr bal False l
        by (intro avl_seth) (simp_all, linarith?)
    have res: "avl_stored (seth (node ll B x1)) \<and> h_of (seth (node ll B x1)) = 1 + max (h_of ll) (h_of x1)"
      using sub(1) x1 assms(4) hB hBr bal False l
        by (intro avl_seth) (simp_all, linarith?)
    have "rebalance_and_seth (node l n r) = Inr (seth (node ll B x1))"
      unfolding l x1_def using hBr False by (rule rebalance_left_single)
    moreover have "h_of (seth (node ll B x1)) = h_of l \<or> h_of (seth (node ll B x1)) = h_of l + 1"
      using res x1 hB hBr bal False l by auto
    ultimately show ?thesis using res seth_not_nil by blast
  next
    case True
    then obtain cl C cr where lr: "lr = node cl C cr" by (cases lr) auto
    have hC: "h C = 1 + max (h_of cl) (h_of cr)" and balC: "h_of cl \<le> h_of cr + 1" "h_of cr \<le> h_of cl + 1"
      and subC: "avl_stored cl" "avl_stored cr"
      using sub(2) lr True by auto
    have hCl: "h C = h_of ll + 1" using True lr by simp
    define x1 where "x1 = seth (node cr n r)"
    define b1 where "b1 = seth (node ll B cl)"
    have x1: "avl_stored x1 \<and> h_of x1 = 1 + max (h_of cr) (h_of r)"
      unfolding x1_def using subC assms(2,4) hB hBr hC hCl balC bal l lr
        by (intro avl_seth) (simp_all, linarith?)
    have b1: "avl_stored b1 \<and> h_of b1 = 1 + max (h_of ll) (h_of cl)"
      unfolding b1_def using subC sub assms(2,4) hB hBr hC hCl balC bal l lr
        by (intro avl_seth) (simp_all, linarith?)
    have res: "avl_stored (seth (node b1 C x1)) \<and> h_of (seth (node b1 C x1)) = 1 + max (h_of b1) (h_of x1)"
      using x1 b1 assms(4) hB hBr hC hCl balC bal l lr
        by (intro avl_seth) (simp_all, linarith?)
    have "rebalance_and_seth (node l n r) = Inr (seth (node b1 C x1))"
      unfolding l lr x1_def b1_def using hBr hCl by (rule rebalance_left_double)
    moreover have "h_of (seth (node b1 C x1)) = h_of l"
      using res x1 b1 hB hBr hC hCl balC bal l lr by simp
    ultimately show ?thesis using res seth_not_nil by blast
  qed
qed

lemma rebalance_right_heavy:
  assumes "avl_stored l" "avl_stored r" "h_of r = h_of l + 2" "h_of r < 255"
  shows "\<exists>t'. rebalance_and_seth (node l n r) = Inr t' \<and> avl_stored t' \<and> t' \<noteq> nil \<and>
           (h_of t' = h_of r \<or> h_of t' = h_of r + 1)"
proof -
  from assms obtain rl B rr where r: "r = node rl B rr" by (cases r) auto
  have hB: "h B = 1 + max (h_of rl) (h_of rr)" and bal: "h_of rl \<le> h_of rr + 1" "h_of rr \<le> h_of rl + 1"
    and sub: "avl_stored rl" "avl_stored rr"
    using assms r by auto
  have hBl: "h B = h_of l + 2" using assms(3) r by simp
  show ?thesis
  proof (cases "h_of rl = h_of rr + 1")
    case False
    define x1 where "x1 = seth (node l n rl)"
    have x1: "avl_stored x1 \<and> h_of x1 = 1 + max (h_of l) (h_of rl)"
      unfolding x1_def using sub assms(1,4) hB hBl bal False r
        by (intro avl_seth) (simp_all, linarith?)
    have res: "avl_stored (seth (node x1 B rr)) \<and> h_of (seth (node x1 B rr)) = 1 + max (h_of x1) (h_of rr)"
      using sub(2) x1 assms(4) hB hBl bal False r
        by (intro avl_seth) (simp_all, linarith?)
    have "rebalance_and_seth (node l n r) = Inr (seth (node x1 B rr))"
      unfolding r x1_def using hBl False by (rule rebalance_right_single)
    moreover have "h_of (seth (node x1 B rr)) = h_of r \<or> h_of (seth (node x1 B rr)) = h_of r + 1"
      using res x1 hB hBl bal False r by auto
    ultimately show ?thesis using res seth_not_nil by blast
  next
    case True
    then obtain cl C cr where rl: "rl = node cl C cr" by (cases rl) auto
    have hC: "h C = 1 + max (h_of cl) (h_of cr)" and balC: "h_of cl \<le> h_of cr + 1" "h_of cr \<le> h_of cl + 1"
      and subC: "avl_stored cl" "avl_stored cr"
      using sub(1) rl True by auto
    have hCr: "h C = h_of rr + 1" using True rl by simp
    define x1 where "x1 = seth (node l n cl)"
    define b1 where "b1 = seth (node cr B rr)"
    have x1: "avl_stored x1 \<and> h_of x1 = 1 + max (h_of l) (h_of cl)"
      unfolding x1_def using subC assms(1,4) hB hBl hC hCr balC bal r rl
        by (intro avl_seth) (simp_all, linarith?)
    have b1: "avl_stored b1 \<and> h_of b1 = 1 + max (h_of cr) (h_of rr)"
      unfolding b1_def using subC sub assms(1,4) hB hBl hC hCr balC bal r rl
        by (intro avl_seth) (simp_all, linarith?)
    have res: "avl_stored (seth (node x1 C b1)) \<and> h_of (seth (node x1 C b1)) = 1 + max (h_of x1) (h_of b1)"
      using x1 b1 assms(4) hB hBl hC hCr balC bal r rl
        by (intro avl_seth) (simp_all, linarith?)
    have "rebalance_and_seth (node l n r) = Inr (seth (node x1 C b1))"
      unfolding r rl x1_def b1_def using hBl hCr by (rule rebalance_right_double)
    moreover have "h_of (seth (node x1 C b1)) = h_of r"
      using res x1 b1 hB hBl hC hCr balC bal r rl by simp
    ultimately show ?thesis using res seth_not_nil by blast
  qed
qed

lemma pow_half_step:
  fixes a b :: nat
  assumes "a \<le> b" "b \<le> a + 1"
  shows "(2::nat) ^ ((1 + b) div 2) \<le> 2 ^ (a div 2) + 2 ^ (b div 2)"
proof (cases "b = 0")
  case True
  then show ?thesis using assms by simp
next
  case False
  then have e: "(1 + b) div 2 = (b - 1) div 2 + 1" by presburger
  have "(b - 1) div 2 \<le> a div 2" using assms by presburger
  then have 1: "(2::nat) ^ ((b - 1) div 2) \<le> 2 ^ (a div 2)" by (rule power_increasing) simp
  have "(b - 1) div 2 \<le> b div 2" by presburger
  then have 2: "(2::nat) ^ ((b - 1) div 2) \<le> 2 ^ (b div 2)" by (rule power_increasing) simp
  have "(2::nat) ^ ((1 + b) div 2) = 2 * 2 ^ ((b - 1) div 2)" by (simp only: e power_add power_one_right mult.commute)
  then show ?thesis using 1 2 by linarith
qed

lemma avl_stored_size:
  "avl_stored t \<Longrightarrow> 2 ^ (h_of t div 2) \<le> length (inorder t) + 1"
proof (induction t)
  case nil
  then show ?case by simp
next
  case (node l n r)
  have IH: "2 ^ (h_of l div 2) \<le> length (inorder l) + 1" "2 ^ (h_of r div 2) \<le> length (inorder r) + 1"
    using node by auto
  show ?case
  proof (cases "h n = 0")
    case True
    then show ?thesis by simp
  next
    case False
    then have hn: "h n = 1 + max (h_of l) (h_of r)" and bal: "h_of l \<le> h_of r + 1" "h_of r \<le> h_of l + 1"
      using node.prems by auto
    have "(2::nat) ^ (h n div 2) \<le> 2 ^ (h_of l div 2) + 2 ^ (h_of r div 2)"
    proof (cases "h_of l \<le> h_of r")
      case True
      then show ?thesis using pow_half_step[of "h_of l" "h_of r"] bal hn by (simp add: max_def)
    next
      case False
      then show ?thesis using pow_half_step[of "h_of r" "h_of l"] bal hn by (simp add: max_def add.commute)
    qed
    then show ?thesis using IH by simp
  qed
qed

lemma avl_stored_small:
  assumes "avl_stored t" "length (inorder t) < 2 ^ 64"
  shows "h_of t < 200"
proof (rule ccontr)
  assume "\<not> h_of t < 200"
  then have "100 \<le> h_of t div 2" by simp
  then have "(2::nat) ^ 100 \<le> 2 ^ (h_of t div 2)" by (rule power_increasing) simp
  with avl_stored_size[OF assms(1)] assms(2) show False by simp
qed

lemma rebalance_any:
  assumes "avl_stored l" "avl_stored r" "h_of l \<le> h_of r + 2" "h_of r \<le> h_of l + 2"
    "h_of l < 254" "h_of r < 254"
  shows "\<exists>t'. rebalance_and_seth (node l n r) = Inr t' \<and> avl_stored t' \<and> t' \<noteq> nil \<and>
           (if h_of l \<le> h_of r + 1 \<and> h_of r \<le> h_of l + 1 then h_of t' = 1 + max (h_of l) (h_of r)
            else (h_of t' = max (h_of l) (h_of r) \<or> h_of t' = 1 + max (h_of l) (h_of r)))"
proof -
  consider (bal) "h_of l \<le> h_of r + 1 \<and> h_of r \<le> h_of l + 1" | (lh) "h_of l = h_of r + 2" | (rh) "h_of r = h_of l + 2"
    using assms(3,4) by linarith
  then show ?thesis
  proof cases
    case bal
    then have "rebalance_and_seth (node l n r) = Inr (seth (node l n r))"
      by (simp add: rebalance_balanced)
    moreover have "avl_stored (seth (node l n r)) \<and> h_of (seth (node l n r)) = 1 + max (h_of l) (h_of r)"
      using assms bal by (intro avl_seth) simp_all
    ultimately show ?thesis using bal seth_not_nil by (metis (full_types))
  next
    case lh
    from rebalance_left_heavy[OF assms(1,2) lh, of n] assms(5) lh show ?thesis by (auto simp: max_def)
  next
    case rh
    from rebalance_right_heavy[OF assms(1,2) rh, of n] assms(6) rh show ?thesis by (auto simp: max_def)
  qed
qed

lemma rebalance_step:
  assumes A: "avl_stored (node l n r)" and K: "avl_stored k'"
    and HR: "hrel (kid (node l n r) dir) k'" and B: "h n < 250"
  shows "\<exists>t'. rebalance_and_seth (set_kid (node l m r) dir k') = Inr t' \<and> avl_stored t' \<and> t' \<noteq> nil \<and>
           hrel (node l n r) t'"
proof -
  have sub: "avl_stored l" "avl_stored r" and bal: "h_of l \<le> h_of r + 1" "h_of r \<le> h_of l + 1"
    and hn: "h n = 1 + max (h_of l) (h_of r) \<or> (l = nil \<and> r = nil \<and> h n = 0)"
    using A by auto
  show ?thesis
  proof (cases dir)
    case True
    have hr: "h_of k' \<le> h_of r + 1" "h_of r \<le> h_of k' + 1" "r = nil \<longrightarrow> h_of k' = 0"
      using HR True by (auto simp: hrel_def)
    have "\<exists>t'. rebalance_and_seth (node l m k') = Inr t' \<and> avl_stored t' \<and> t' \<noteq> nil \<and>
           (if h_of l \<le> h_of k' + 1 \<and> h_of k' \<le> h_of l + 1 then h_of t' = 1 + max (h_of l) (h_of k')
            else (h_of t' = max (h_of l) (h_of k') \<or> h_of t' = 1 + max (h_of l) (h_of k')))"
      using sub(1) K bal hr hn B by (intro rebalance_any) auto
    then obtain t' where t': "rebalance_and_seth (node l m k') = Inr t'" "avl_stored t'" "t' \<noteq> nil"
      "(if h_of l \<le> h_of k' + 1 \<and> h_of k' \<le> h_of l + 1 then h_of t' = 1 + max (h_of l) (h_of k')
            else (h_of t' = max (h_of l) (h_of k') \<or> h_of t' = 1 + max (h_of l) (h_of k')))" by blast
    have "hrel (node l n r) t'"
      using t'(4) bal hr hn unfolding hrel_def by (auto simp: max_def split: if_splits)
    then show ?thesis using t' True by auto
  next
    case False
    have hr: "h_of k' \<le> h_of l + 1" "h_of l \<le> h_of k' + 1" "l = nil \<longrightarrow> h_of k' = 0"
      using HR False by (auto simp: hrel_def)
    have "\<exists>t'. rebalance_and_seth (node k' m r) = Inr t' \<and> avl_stored t' \<and> t' \<noteq> nil \<and>
           (if h_of k' \<le> h_of r + 1 \<and> h_of r \<le> h_of k' + 1 then h_of t' = 1 + max (h_of k') (h_of r)
            else (h_of t' = max (h_of k') (h_of r) \<or> h_of t' = 1 + max (h_of k') (h_of r)))"
      using sub(2) K bal hr hn B by (intro rebalance_any) auto
    then obtain t' where t': "rebalance_and_seth (node k' m r) = Inr t'" "avl_stored t'" "t' \<noteq> nil"
      "(if h_of k' \<le> h_of r + 1 \<and> h_of r \<le> h_of k' + 1 then h_of t' = 1 + max (h_of k') (h_of r)
            else (h_of t' = max (h_of k') (h_of r) \<or> h_of t' = 1 + max (h_of k') (h_of r)))" by blast
    have "hrel (node l n r) t'"
      using t'(4) bal hr hn unfolding hrel_def by (auto simp: max_def split: if_splits)
    then show ?thesis using t' False by auto
  qed
qed

lemma small_kid:
  "length (inorder (node l n r)) < N \<Longrightarrow> length (inorder (kid (node l n r) dir)) < N"
  by auto

lemma avl_kid: "avl_stored (node l n r) \<Longrightarrow> avl_stored (kid (node l n r) dir)"
  by auto

lemma avl_stored_h_bound:
  "avl_stored (node l n r) \<Longrightarrow> length (inorder (node l n r)) < 2 ^ 64 \<Longrightarrow> h n < 250"
  using avl_stored_small[of "node l n r"] by simp

lemma insert_node_avl:
  assumes "avl_stored t" "length (inorder t) < 2 ^ 64" "h c = 0"
  shows "\<exists>t'. insert_node cmp t c = Inr t' \<and> avl_stored t' \<and> t' \<noteq> nil \<and> hrel t t'"
  using assms
proof (induction t)
  case nil
  then show ?case by (simp add: hrel_def)
next
  case (node l n r)
  let ?x = "node l n r" and ?dir = "cmp (key n) (key c)"
  have "\<exists>k. insert_node cmp (kid ?x ?dir) c = Inr k \<and> avl_stored k \<and> k \<noteq> nil \<and> hrel (kid ?x ?dir) k"
    using node by (cases ?dir) auto
  then obtain k where k: "insert_node cmp (kid ?x ?dir) c = Inr k" "avl_stored k" "hrel (kid ?x ?dir) k"
    by blast
  from rebalance_step[OF node.prems(1) k(2) k(3) avl_stored_h_bound[OF node.prems(1,2)]]
  show ?case using k(1) by (simp add: Let_def)
qed

lemma takeWhile_stop:
  "\<not> P y \<Longrightarrow> takeWhile P (xs @ y # ys) = takeWhile P xs"
  by (induction xs) auto

lemma dropWhile_stop:
  "\<not> P y \<Longrightarrow> dropWhile P (xs @ y # ys) = dropWhile P xs @ y # ys"
  by (induction xs) auto

lemma takeWhile_pass:
  "\<forall>x\<in>set xs. P x \<Longrightarrow> takeWhile P (xs @ ys) = xs @ takeWhile P ys"
  by (induction xs) auto

lemma dropWhile_pass:
  "\<forall>x\<in>set xs. P x \<Longrightarrow> dropWhile P (xs @ ys) = dropWhile P ys"
  by (induction xs) auto

lemma swo_D:
  assumes "strict_weak_order cmp"
  shows "\<not> cmp a a" "cmp a b \<Longrightarrow> cmp b c \<Longrightarrow> cmp a c" "\<not> cmp a b \<Longrightarrow> \<not> cmp b c \<Longrightarrow> \<not> cmp a c"
    "cmp a b \<Longrightarrow> \<not> cmp b a"
  using assms unfolding strict_weak_order_def by blast+

lemma ekey_entry [simp]: "ekey (entry n) = key n"
  by (simp add: ekey_def entry_def)

lemma insert_node_inorder:
  assumes "strict_weak_order cmp" "sorted_multi cmp (inorder t)" "insert_node cmp t c = Inr t'"
  shows "inorder t' = ins_list cmp (entry c) (inorder t)"
  using assms(2,3)
proof (induction t arbitrary: t')
  case nil
  then show ?case by (auto simp: ins_list_def)
next
  case (node l n r)
  note swo = swo_D[OF assms(1)]
  let ?x = "node l n r" and ?dir = "cmp (key n) (key c)"
  from node.prems(2) obtain k where k: "insert_node cmp (kid ?x ?dir) c = Inr k"
    and t': "rebalance_and_seth (set_kid ?x ?dir k) = Inr t'"
    by (auto simp: Let_def split: sum.splits)
  have sl: "sorted_multi cmp (inorder l)" and sr: "sorted_multi cmp (inorder r)"
    and ln: "\<forall>e\<in>set (inorder l). \<not> cmp (key n) (ekey e)"
    and nr: "\<forall>e\<in>set (inorder r). \<not> cmp (ekey e) (key n)"
    using node.prems(1) by (auto simp: sorted_multi_def sorted_wrt_append)
  have io: "inorder t' = inorder (set_kid ?x ?dir k)" using rebalance_inorder[OF t'] .
  show ?case
  proof (cases ?dir)
    case True
    have k': "inorder k = ins_list cmp (entry c) (inorder r)" using node.IH(2)[OF sr] k True by simp
    have "\<forall>e\<in>set (inorder l @ [entry n]). cmp (ekey e) (key c)"
      using ln True swo(3) by auto
    then show ?thesis using io True k'
      using takeWhile_pass[of "inorder l @ [entry n]" "\<lambda>x. cmp (ekey x) (key c)" "inorder r"]
        dropWhile_pass[of "inorder l @ [entry n]" "\<lambda>x. cmp (ekey x) (key c)" "inorder r"]
      by (simp add: ins_list_def)
  next
    case False
    have k': "inorder k = ins_list cmp (entry c) (inorder l)" using node.IH(1)[OF sl] k False by simp
    show ?thesis using io False k'
      using takeWhile_stop[of "\<lambda>x. cmp (ekey x) (key c)" "entry n" "inorder l" "inorder r"]
        dropWhile_stop[of "\<lambda>x. cmp (ekey x) (key c)" "entry n" "inorder l" "inorder r"]
      by (simp add: ins_list_def)
  qed
qed


lemma rebalance_noop:
  assumes "avl_stored (node l n r)" "\<not> (l = nil \<and> r = nil)" "h n < 256"
  shows "rebalance_and_seth (node l n r) = Inr (node l n r)"
proof -
  have "h n = 1 + max (h_of l) (h_of r)" and bal: "h_of l \<le> h_of r + 1" "h_of r \<le> h_of l + 1"
    using assms by auto
  then have "n\<lparr>h := (1 + max (h_of l) (h_of r)) mod 256\<rparr> = n" using assms(3) by simp
  then show ?thesis using rebalance_balanced[OF bal, of n] by simp
qed

lemma insert_if_not_exists_avl:
  assumes "avl_stored t" "length (inorder t) < 2 ^ 64" "h c = 0"
  shows "\<exists>t' x. insert_if_not_exists cmp t c = Inr (t', x) \<and> avl_stored t' \<and> t' \<noteq> nil \<and> hrel t t'"
  using assms
proof (induction t)
  case nil
  then show ?case by (simp add: hrel_def)
next
  case (node l n r)
  let ?x = "node l n r" and ?dir = "cmp (key n) (key c)"
  show ?case
  proof (cases "\<not> ?dir \<and> \<not> cmp (key c) (key n)")
    case True
    then show ?thesis using node.prems by (simp add: hrel_def)
  next
    case False
    have "\<exists>k x. insert_if_not_exists cmp (kid ?x ?dir) c = Inr (k, x) \<and> avl_stored k \<and> k \<noteq> nil \<and> hrel (kid ?x ?dir) k"
      using node by (cases ?dir) auto
    then obtain k x where k: "insert_if_not_exists cmp (kid ?x ?dir) c = Inr (k, x)" "avl_stored k" "hrel (kid ?x ?dir) k"
      by blast
    from rebalance_step[OF node.prems(1) k(2) k(3) avl_stored_h_bound[OF node.prems(1,2)], of n]
    show ?thesis using k(1) False by (auto simp: Let_def)
  qed
qed

text \<open>What insert_if_not_exists does to the traversal\<close>

lemma insert_if_not_exists_inorder:
  assumes "strict_weak_order cmp" "sorted_multi cmp (inorder t)" "insert_if_not_exists cmp t c = Inr (t', x)"
  shows "(x = idx c \<and> (\<forall>e\<in>set (inorder t). \<not> equivalent cmp (ekey e) (key c)) \<and>
            inorder t' = ins_list cmp (entry c) (inorder t)) \<or>
         (\<exists>e\<in>set (inorder t). fst e = x \<and> equivalent cmp (ekey e) (key c) \<and> inorder t' = inorder t)"
  using assms(2,3)
proof (induction t arbitrary: t' x)
  case nil
  then show ?case by (auto simp: ins_list_def)
next
  case (node l n r)
  note swo = swo_D[OF assms(1)]
  let ?x = "node l n r" and ?dir = "cmp (key n) (key c)"
  have sl: "sorted_multi cmp (inorder l)" and sr: "sorted_multi cmp (inorder r)"
    and ln: "\<forall>e\<in>set (inorder l). \<not> cmp (key n) (ekey e)"
    and nr: "\<forall>e\<in>set (inorder r). \<not> cmp (ekey e) (key n)"
    using node.prems(1) by (auto simp: sorted_multi_def sorted_wrt_append)
  show ?case
  proof (cases "\<not> ?dir \<and> \<not> cmp (key c) (key n)")
    case True
    then have "t' = ?x" "x = idx n" using node.prems(2) by auto
    moreover have "entry n \<in> set (inorder ?x)" "fst (entry n) = idx n" "equivalent cmp (ekey (entry n)) (key c)"
      using True by (auto simp: equivalent_def entry_def ekey_def)
    ultimately show ?thesis by blast
  next
    case False
    from node.prems(2) False obtain k where k: "insert_if_not_exists cmp (kid ?x ?dir) c = Inr (k, x)"
      and t': "rebalance_and_seth (set_kid ?x ?dir k) = Inr t'"
      by (auto simp: Let_def split: sum.splits)
    have io: "inorder t' = inorder (set_kid ?x ?dir k)" using rebalance_inorder[OF t'] .
    show ?thesis
    proof (cases ?dir)
      case True
      have pass: "\<forall>e\<in>set (inorder l @ [entry n]). cmp (ekey e) (key c)"
        using ln True swo(3) by auto
      then have ne: "\<forall>e\<in>set (inorder l @ [entry n]). \<not> equivalent cmp (ekey e) (key c)"
        by (auto simp: equivalent_def)
      from node.IH(2)[OF sr] k True
      consider (ins) "x = idx c" "\<forall>e\<in>set (inorder r). \<not> equivalent cmp (ekey e) (key c)"
          "inorder k = ins_list cmp (entry c) (inorder r)"
        | (found) e where "e \<in> set (inorder r)" "fst e = x" "equivalent cmp (ekey e) (key c)" "inorder k = inorder r"
        by auto
      then show ?thesis
      proof cases
        case ins
        then show ?thesis using io True ne pass
            takeWhile_pass[of "inorder l @ [entry n]" "\<lambda>x. cmp (ekey x) (key c)" "inorder r"]
            dropWhile_pass[of "inorder l @ [entry n]" "\<lambda>x. cmp (ekey x) (key c)" "inorder r"]
          by (auto simp: ins_list_def)
      next
        case found
        then show ?thesis using io True by auto
      qed
    next
      case notdir: False
      then have gt: "cmp (key c) (key n)" using False by simp
      have ne_n: "\<not> equivalent cmp (key n) (key c)" using gt by (simp add: equivalent_def)
      have ne_r: "\<forall>e\<in>set (inorder r). \<not> equivalent cmp (ekey e) (key c)"
        using nr gt swo(3) by (auto simp: equivalent_def)
      from node.IH(1)[OF sl] k notdir
      consider (ins) "x = idx c" "\<forall>e\<in>set (inorder l). \<not> equivalent cmp (ekey e) (key c)"
          "inorder k = ins_list cmp (entry c) (inorder l)"
        | (found) e where "e \<in> set (inorder l)" "fst e = x" "equivalent cmp (ekey e) (key c)" "inorder k = inorder l"
        by auto
      then show ?thesis
      proof cases
        case ins
        then show ?thesis using io notdir ne_n ne_r
            takeWhile_stop[of "\<lambda>x. cmp (ekey x) (key c)" "entry n" "inorder l" "inorder r"]
            dropWhile_stop[of "\<lambda>x. cmp (ekey x) (key c)" "entry n" "inorder l" "inorder r"]
          by (auto simp: ins_list_def)
      next
        case found
        then show ?thesis using io notdir by auto
      qed
    qed
  qed
qed

text \<open>A found duplicate leaves the tree as it is.\<close>

lemma insert_if_not_exists_found_same:
  assumes "avl_stored t" "length (inorder t) < 2 ^ 64" "insert_if_not_exists cmp t c = Inr (t', x)" "x \<noteq> idx c"
  shows "t' = t"
  using assms
proof (induction t arbitrary: t')
  case nil
  then show ?case by simp
next
  case (node l n r)
  let ?x = "node l n r" and ?dir = "cmp (key n) (key c)"
  show ?case
  proof (cases "\<not> ?dir \<and> \<not> cmp (key c) (key n)")
    case True
    then show ?thesis using node.prems by simp
  next
    case False
    from node.prems(3) False obtain k where k: "insert_if_not_exists cmp (kid ?x ?dir) c = Inr (k, x)"
      and t': "rebalance_and_seth (set_kid ?x ?dir k) = Inr t'"
      by (auto simp: Let_def split: sum.splits)
    have kk: "k = kid ?x ?dir" using node.IH node.prems k by (cases ?dir) auto
    have "kid ?x ?dir \<noteq> nil" using k node.prems(4) by (cases "kid ?x ?dir") auto
    then have nl: "\<not> (l = nil \<and> r = nil)" by auto
    have "set_kid ?x ?dir k = ?x" using kk by simp
    then show ?thesis using t' rebalance_noop[OF node.prems(1) nl] avl_stored_h_bound[OF node.prems(1,2)]
      by simp
  qed
qed

lemma pull_out_rightmost_inorder:
  "pull_out_rightmost t = Inr (t', m) \<Longrightarrow> inorder t = inorder t' @ [entry m]"
proof (induction t arbitrary: t')
  case nil
  then show ?case by simp
next
  case (node l n r)
  show ?case
  proof (cases r)
    case nil
    then show ?thesis using node.prems by simp
  next
    case (node rl rn rr)
    from node.prems node obtain r' where r': "pull_out_rightmost r = Inr (r', m)"
      and t': "rebalance_and_seth (subtree.node l n r') = Inr t'"
      by (auto split: sum.splits)
    show ?thesis using node.IH(2)[OF r'] rebalance_inorder[OF t'] by simp
  qed
qed

lemma pull_out_rightmost_avl:
  assumes "avl_stored t" "t \<noteq> nil" "length (inorder t) < 2 ^ 64"
  shows "\<exists>t' m. pull_out_rightmost t = Inr (t', m) \<and> avl_stored t' \<and> hrel t t'"
  using assms
proof (induction t)
  case nil
  then show ?case by simp
next
  case (node l n r)
  show ?case
  proof (cases r)
    case nil
    then show ?thesis using node.prems by (auto simp: hrel_def)
  next
    case rn: (node rl rn rr)
    have "\<exists>r' m. pull_out_rightmost r = Inr (r', m) \<and> avl_stored r' \<and> hrel r r'"
      using node.IH(2) node.prems rn by auto
    then obtain r' m where r': "pull_out_rightmost r = Inr (r', m)" "avl_stored r'" "hrel r r'"
      by blast
    have "hrel (kid (subtree.node l n r) True) r'" using r'(3) by simp
    from rebalance_step[OF node.prems(1) r'(2) this avl_stored_h_bound[OF node.prems(1,3)], of n]
    show ?thesis using r'(1) rn by auto
  qed
qed

lemma erase_impl_avl:
  assumes "avl_stored t" "length (inorder t) < 2 ^ 64"
  shows "\<exists>t' res. erase_impl cmp t k = Inr (t', res) \<and> avl_stored t' \<and> hrel t t'"
  using assms
proof (induction t)
  case nil
  then show ?case by (simp add: hrel_def)
next
  case (node l n r)
  let ?x = "node l n r" and ?dir = "cmp (key n) k"
  note hb = avl_stored_h_bound[OF node.prems(1,2)]
  show ?case
  proof (cases "\<not> ?dir \<and> \<not> cmp k (key n)")
    case found: True
    show ?thesis
    proof (cases l)
      case lnil: nil
      show ?thesis
      proof (cases r)
        case nil
        then show ?thesis using found lnil node.prems by (auto simp: hrel_def)
      next
        case rn: (node rl m rr)
        have ar: "avl_stored rl" "avl_stored rr" "h_of rl \<le> h_of rr + 1" "h_of rr \<le> h_of rl + 1"
          and hm: "h m = 1 + max (h_of rl) (h_of rr) \<or> (rl = nil \<and> rr = nil \<and> h m = 0)"
          and hn: "h m \<le> 1"
          using node.prems(1) rn lnil by auto
        have "\<exists>t'. rebalance_and_seth (subtree.node rl m rr) = Inr t' \<and> avl_stored t' \<and> t' \<noteq> nil \<and>
           (if h_of rl \<le> h_of rr + 1 \<and> h_of rr \<le> h_of rl + 1 then h_of t' = 1 + max (h_of rl) (h_of rr)
            else (h_of t' = max (h_of rl) (h_of rr) \<or> h_of t' = 1 + max (h_of rl) (h_of rr)))"
          using ar hm hn by (intro rebalance_any) auto
        then obtain t' where t': "rebalance_and_seth (subtree.node rl m rr) = Inr t'" "avl_stored t'"
          "h_of t' = 1 + max (h_of rl) (h_of rr)" using ar by auto
        have "hrel ?x t'" using t'(3) hm hn node.prems(1) rn lnil by (auto simp: hrel_def)
        then show ?thesis using found lnil rn t' by auto
      qed
    next
      case ln: (node ll lm lr)
      have "\<exists>x_left pulled. pull_out_rightmost l = Inr (x_left, pulled) \<and> avl_stored x_left \<and> hrel l x_left"
        using node.prems ln by (intro pull_out_rightmost_avl) auto
      then obtain x_left pulled where p: "pull_out_rightmost l = Inr (x_left, pulled)" "avl_stored x_left" "hrel l x_left"
        by blast
      have "hrel (kid ?x False) x_left" using p(3) by simp
      from rebalance_step[OF node.prems(1) p(2) this hb, of pulled]
      show ?thesis using p(1) found ln by auto
    qed
  next
    case False
    have "\<exists>k' res. erase_impl cmp (kid ?x ?dir) k = Inr (k', res) \<and> avl_stored k' \<and> hrel (kid ?x ?dir) k'"
      using node by (cases ?dir) auto
    then obtain k' res where k': "erase_impl cmp (kid ?x ?dir) k = Inr (k', res)" "avl_stored k'" "hrel (kid ?x ?dir) k'"
      by blast
    from rebalance_step[OF node.prems(1) k'(2) k'(3) hb, of n]
    show ?thesis using k'(1) False by (auto simp: Let_def)
  qed
qed

lemma erase_impl_inorder:
  assumes "strict_weak_order cmp" "sorted_multi cmp (inorder t)" "erase_impl cmp t k = Inr (t', res)"
  shows "(res = None \<and> inorder t' = inorder t \<and> (\<forall>e\<in>set (inorder t). \<not> equivalent cmp (ekey e) k)) \<or>
         (\<exists>m xs ys. res = Some m \<and> equivalent cmp (key m) k \<and> inorder t = xs @ entry m # ys \<and> inorder t' = xs @ ys)"
  using assms(2,3)
proof (induction t arbitrary: t' res)
  case nil
  then show ?case by auto
next
  case (node l n r)
  note swo = swo_D[OF assms(1)]
  let ?x = "node l n r" and ?dir = "cmp (key n) k"
  have sl: "sorted_multi cmp (inorder l)" and sr: "sorted_multi cmp (inorder r)"
    and ln: "\<forall>e\<in>set (inorder l). \<not> cmp (key n) (ekey e)"
    and nr: "\<forall>e\<in>set (inorder r). \<not> cmp (ekey e) (key n)"
    using node.prems(1) by (auto simp: sorted_multi_def sorted_wrt_append)
  show ?case
  proof (cases "\<not> ?dir \<and> \<not> cmp k (key n)")
    case found: True
    then have eq: "equivalent cmp (key n) k" by (simp add: equivalent_def)
    have "res = Some n \<and> inorder t' = inorder l @ inorder r"
    proof (cases l)
      case lnil: nil
      show ?thesis
      proof (cases r)
        case nil
        then show ?thesis using found lnil node.prems(2) by auto
      next
        case rn: (node rl m rr)
        then show ?thesis using found lnil node.prems(2) rebalance_inorder
          by (fastforce split: sum.splits)
      qed
    next
      case lnode: (node ll lm lr)
      from node.prems(2) found lnode obtain x_left pulled where
        p: "pull_out_rightmost l = Inr (x_left, pulled)"
        and t': "rebalance_and_seth (subtree.node x_left pulled r) = Inr t'" and "res = Some n"
        by (auto split: sum.splits)
      then show ?thesis using pull_out_rightmost_inorder[OF p] rebalance_inorder[OF t'] by simp
    qed
    then show ?thesis using eq by auto
  next
    case False
    from node.prems(2) False obtain k' where k': "erase_impl cmp (kid ?x ?dir) k = Inr (k', res)"
      and t': "rebalance_and_seth (set_kid ?x ?dir k') = Inr t'"
      by (auto simp: Let_def split: sum.splits)
    have io: "inorder t' = inorder (set_kid ?x ?dir k')" using rebalance_inorder[OF t'] .
    show ?thesis
    proof (cases ?dir)
      case True
      have ne: "\<forall>e\<in>set (inorder l @ [entry n]). \<not> equivalent cmp (ekey e) k"
        using ln True swo(3) by (auto simp: equivalent_def)
      from node.IH(2)[OF sr] k' True
      consider (none) "res = None" "inorder k' = inorder r" "\<forall>e\<in>set (inorder r). \<not> equivalent cmp (ekey e) k"
        | (some) m xs ys where "res = Some m" "equivalent cmp (key m) k" "inorder r = xs @ entry m # ys" "inorder k' = xs @ ys"
        by auto
      then show ?thesis
      proof cases
        case none
        then show ?thesis using io True ne by auto
      next
        case some
        have "inorder ?x = (inorder l @ entry n # xs) @ entry m # ys" "inorder t' = (inorder l @ entry n # xs) @ ys"
          using some io True by auto
        then show ?thesis using some(1,2) by blast
      qed
    next
      case notdir: False
      then have gt: "cmp k (key n)" using False by simp
      have ne: "\<forall>e\<in>set (entry n # inorder r). \<not> equivalent cmp (ekey e) k"
        using nr gt swo(3) by (auto simp: equivalent_def)
      from node.IH(1)[OF sl] k' notdir
      consider (none) "res = None" "inorder k' = inorder l" "\<forall>e\<in>set (inorder l). \<not> equivalent cmp (ekey e) k"
        | (some) m xs ys where "res = Some m" "equivalent cmp (key m) k" "inorder l = xs @ entry m # ys" "inorder k' = xs @ ys"
        by auto
      then show ?thesis
      proof cases
        case none
        then show ?thesis using io notdir ne by auto
      next
        case some
        have "inorder ?x = xs @ entry m # (ys @ entry n # inorder r)" "inorder t' = xs @ (ys @ entry n # inorder r)"
          using some io notdir by auto
        then show ?thesis using some(1,2) by blast
      qed
    qed
  qed
qed


section \<open>Sorted traversals\<close>

lemma ins_list_split:
  "\<exists>xs ys. es = xs @ ys \<and> ins_list cmp e es = xs @ e # ys \<and>
     (\<forall>x\<in>set xs. cmp (ekey x) (ekey e)) \<and> (ys \<noteq> [] \<longrightarrow> \<not> cmp (ekey (hd ys)) (ekey e))"
proof -
  let ?P = "\<lambda>x. cmp (ekey x) (ekey e)"
  have "es = takeWhile ?P es @ dropWhile ?P es" by (rule takeWhile_dropWhile_id[symmetric])
  moreover have "\<forall>x\<in>set (takeWhile ?P es). ?P x" by (auto dest: set_takeWhileD)
  moreover have "dropWhile ?P es \<noteq> [] \<longrightarrow> \<not> ?P (hd (dropWhile ?P es))"
    using hd_dropWhile[of ?P es] by blast
  ultimately show ?thesis unfolding ins_list_def by blast
qed

lemma set_ins_list [simp]: "set (ins_list cmp e es) = insert e (set es)"
proof -
  obtain xs ys where "es = xs @ ys" "ins_list cmp e es = xs @ e # ys" using ins_list_split by blast
  then show ?thesis by auto
qed

lemma length_ins_list [simp]: "length (ins_list cmp e es) = Suc (length es)"
proof -
  obtain xs ys where "es = xs @ ys" "ins_list cmp e es = xs @ e # ys" using ins_list_split by blast
  then show ?thesis by auto
qed

lemma distinct_ins_list:
  assumes "distinct (map fst es)" "fst e \<notin> fst ` set es"
  shows "distinct (map fst (ins_list cmp e es))"
proof -
  obtain xs ys where s: "es = xs @ ys" "ins_list cmp e es = xs @ e # ys" using ins_list_split by blast
  have "distinct (map fst (xs @ e # ys))" using assms unfolding s(1) by auto
  then show ?thesis by (simp only: s(2))
qed

lemma sorted_unique_multi:
  assumes "strict_weak_order cmp" "sorted_unique cmp es"
  shows "sorted_multi cmp es"
  using assms(2) swo_D(4)[OF assms(1)] unfolding sorted_unique_def sorted_multi_def
  by (rule sorted_wrt_mono_rel[rotated]) blast

lemma sorted_multi_ins_list:
  assumes swo: "strict_weak_order cmp" and s: "sorted_multi cmp es"
  shows "sorted_multi cmp (ins_list cmp e es)"
proof -
  note S = swo_D[OF swo]
  obtain xs ys where sp: "es = xs @ ys" "ins_list cmp e es = xs @ e # ys"
    "\<forall>x\<in>set xs. cmp (ekey x) (ekey e)" "ys \<noteq> [] \<longrightarrow> \<not> cmp (ekey (hd ys)) (ekey e)"
    using ins_list_split by blast
  have sy: "sorted_wrt (\<lambda>a b. \<not> cmp (ekey b) (ekey a)) ys" and sx: "sorted_wrt (\<lambda>a b. \<not> cmp (ekey b) (ekey a)) xs"
    and xy: "\<forall>x\<in>set xs. \<forall>y\<in>set ys. \<not> cmp (ekey y) (ekey x)"
    using s unfolding sp(1) sorted_multi_def by (auto simp: sorted_wrt_append)
  have ey: "\<not> cmp (ekey y) (ekey e)" if "y \<in> set ys" for y
  proof (cases ys)
    case Nil
    then show ?thesis using that by simp
  next
    case (Cons z zs)
    then have z: "\<not> cmp (ekey z) (ekey e)" using sp(4) by simp
    show ?thesis
    proof (cases "y = z")
      case True
      then show ?thesis using z by simp
    next
      case False
      then have "\<not> cmp (ekey y) (ekey z)" using sy that Cons by auto
      then show ?thesis using z S(3) by blast
    qed
  qed
  have xe: "\<not> cmp (ekey e) (ekey x)" if "x \<in> set xs" for x using sp(3) that S(4) by blast
  show ?thesis unfolding sp(2) sorted_multi_def using sx sy xy ey xe
    by (auto simp: sorted_wrt_append)
qed

lemma sorted_unique_ins_list:
  assumes swo: "strict_weak_order cmp" and s: "sorted_unique cmp es"
    and ne: "\<forall>x\<in>set es. \<not> equivalent cmp (ekey x) (ekey e)"
  shows "sorted_unique cmp (ins_list cmp e es)"
proof -
  note S = swo_D[OF swo]
  obtain xs ys where sp: "es = xs @ ys" "ins_list cmp e es = xs @ e # ys"
    "\<forall>x\<in>set xs. cmp (ekey x) (ekey e)" "ys \<noteq> [] \<longrightarrow> \<not> cmp (ekey (hd ys)) (ekey e)"
    using ins_list_split by blast
  have sy: "sorted_wrt (\<lambda>a b. cmp (ekey a) (ekey b)) ys" and sx: "sorted_wrt (\<lambda>a b. cmp (ekey a) (ekey b)) xs"
    and xy: "\<forall>x\<in>set xs. \<forall>y\<in>set ys. cmp (ekey x) (ekey y)"
    using s unfolding sp(1) sorted_unique_def by (auto simp: sorted_wrt_append)
  have ey: "cmp (ekey e) (ekey y)" if "y \<in> set ys" for y
  proof (cases ys)
    case Nil
    then show ?thesis using that by simp
  next
    case (Cons z zs)
    then have z: "\<not> cmp (ekey z) (ekey e)" using sp(4) by simp
    have "\<not> cmp (ekey y) (ekey e)"
    proof (cases "y = z")
      case True
      then show ?thesis using z by simp
    next
      case False
      then have "cmp (ekey z) (ekey y)" using sy that Cons by auto
      then have "\<not> cmp (ekey y) (ekey z)" using S(4) by blast
      then show ?thesis using z S(3) by blast
    qed
    moreover have "\<not> equivalent cmp (ekey y) (ekey e)" using ne that sp(1) by auto
    ultimately show ?thesis by (auto simp: equivalent_def)
  qed
  show ?thesis unfolding sp(2) sorted_unique_def using sx sy xy ey sp(3)
    by (auto simp: sorted_wrt_append)
qed

lemma sorted_multi_remove:
  "sorted_multi cmp (xs @ x # ys) \<Longrightarrow> sorted_multi cmp (xs @ ys)"
  by (auto simp: sorted_multi_def sorted_wrt_append)

lemma sorted_unique_remove:
  "sorted_unique cmp (xs @ x # ys) \<Longrightarrow> sorted_unique cmp (xs @ ys)"
  by (auto simp: sorted_unique_def sorted_wrt_append)

lemma sorted_multi_replace:
  fixes a b :: "nat \<times> 'a \<times> 'b"
  assumes "strict_weak_order cmp" "sorted_multi cmp (xs @ a # ys)" "equivalent cmp (ekey a) (ekey b)"
  shows "sorted_multi cmp (xs @ b # ys)"
proof -
  note S = swo_D[OF assms(1)]
  have "\<not> cmp (ekey b) (ekey x)" if "\<not> cmp (ekey a) (ekey x)" for x :: "nat \<times> 'a \<times> 'b"
    using that assms(3) S(3)[of "ekey b" "ekey a" "ekey x"] by (auto simp: equivalent_def)
  moreover have "\<not> cmp (ekey y) (ekey b)" if "\<not> cmp (ekey y) (ekey a)" for y :: "nat \<times> 'a \<times> 'b"
    using that assms(3) S(3)[of "ekey y" "ekey a" "ekey b"] by (auto simp: equivalent_def)
  ultimately show ?thesis using assms(2) by (auto simp: sorted_multi_def sorted_wrt_append)
qed

lemma sorted_unique_replace:
  fixes a b :: "nat \<times> 'a \<times> 'b"
  assumes "strict_weak_order cmp" "sorted_unique cmp (xs @ a # ys)" "equivalent cmp (ekey a) (ekey b)"
  shows "sorted_unique cmp (xs @ b # ys)"
proof -
  note S = swo_D[OF assms(1)]
  have "cmp (ekey x) (ekey b)" if "cmp (ekey x) (ekey a)" for x :: "nat \<times> 'a \<times> 'b"
    using that assms(3) S(3)[of "ekey x" "ekey b" "ekey a"] by (auto simp: equivalent_def)
  moreover have "cmp (ekey b) (ekey y)" if "cmp (ekey a) (ekey y)" for y :: "nat \<times> 'a \<times> 'b"
    using that assms(3) S(3)[of "ekey a" "ekey b" "ekey y"] by (auto simp: equivalent_def)
  ultimately show ?thesis using assms(2) by (auto simp: sorted_unique_def sorted_wrt_append)
qed

text \<open>The elements equivalent to a key: where an insert puts a new one, and that they are adjacent in a sorted traversal.\<close>

lemma filter_equivalent_ins_list:
  assumes swo: "strict_weak_order cmp"
  shows "filter (\<lambda>x. equivalent cmp (ekey x) k0) (ins_list cmp e es) =
     (if equivalent cmp (ekey e) k0 then e # filter (\<lambda>x. equivalent cmp (ekey x) k0) es
      else filter (\<lambda>x. equivalent cmp (ekey x) k0) es)"
proof -
  note s = swo_D[OF swo]
  obtain xs ys where sp: "es = xs @ ys" "ins_list cmp e es = xs @ e # ys"
    "\<forall>x\<in>set xs. cmp (ekey x) (ekey e)"
    using ins_list_split[of es cmp e] by blast
  show ?thesis
  proof (cases "equivalent cmp (ekey e) k0")
    case True
    have "\<not> equivalent cmp (ekey x) k0" if "x \<in> set xs" for x
    proof
      assume "equivalent cmp (ekey x) k0"
      then have "\<not> cmp (ekey x) k0" by (simp add: equivalent_def)
      moreover have "\<not> cmp k0 (ekey e)" using True by (simp add: equivalent_def)
      ultimately have "\<not> cmp (ekey x) (ekey e)" by (rule s(3))
      then show False using sp(3) that by blast
    qed
    then have "filter (\<lambda>x. equivalent cmp (ekey x) k0) xs = []" by (simp add: filter_empty_conv)
    then show ?thesis using True sp by simp
  next
    case False
    then show ?thesis using sp by simp
  qed
qed

lemma sorted_multi_segments:
  assumes swo: "strict_weak_order cmp"
  shows "sorted_multi cmp es \<Longrightarrow>
     es = filter (\<lambda>e. cmp (ekey e) k) es @ filter (\<lambda>e. equivalent cmp (ekey e) k) es @
          filter (\<lambda>e. cmp k (ekey e)) es"
proof (induction es)
  case Nil
  then show ?case by simp
next
  case (Cons e es)
  note s = swo_D[OF swo]
  from Cons.prems have srt: "sorted_multi cmp es" and le: "\<forall>b\<in>set es. \<not> cmp (ekey b) (ekey e)"
    by (simp_all add: sorted_multi_def)
  note IH = Cons.IH[OF srt]
  consider (lt) "cmp (ekey e) k" | (eq) "equivalent cmp (ekey e) k" | (gt) "cmp k (ekey e)"
    by (auto simp: equivalent_def)
  then show ?case
  proof cases
    case lt
    then have "\<not> equivalent cmp (ekey e) k" "\<not> cmp k (ekey e)" using s(4) by (auto simp: equivalent_def)
    then show ?thesis using lt IH by simp
  next
    case eq
    then have n: "\<not> cmp (ekey e) k" "\<not> cmp k (ekey e)" by (auto simp: equivalent_def)
    have "\<not> cmp (ekey b) k" if "b \<in> set es" for b
      using le that s(3)[of "ekey b" "ekey e" k] n s(3)[of "ekey b" k "ekey e"] s(3)[of "ekey e" "ekey b" k]
      by (metis s(2) s(3))
    then have "filter (\<lambda>e. cmp (ekey e) k) es = []" by (simp add: filter_empty_conv)
    then show ?thesis using eq n IH by simp
  next
    case gt
    then have n: "\<not> cmp (ekey e) k" "\<not> equivalent cmp (ekey e) k" using s(4) by (auto simp: equivalent_def)
    have b: "cmp k (ekey b)" if "b \<in> set es" for b
      using le that gt s(3)[of k "ekey b" "ekey e"] by (metis s(2) s(3))
    have "\<not> cmp (ekey b) k \<and> \<not> equivalent cmp (ekey b) k" if "b \<in> set es" for b
      using b[OF that] s(4) by (auto simp: equivalent_def)
    then have "filter (\<lambda>e. cmp (ekey e) k) es = []" "filter (\<lambda>e. equivalent cmp (ekey e) k) es = []"
      by (simp_all add: filter_empty_conv)
    moreover have "filter (\<lambda>e. cmp k (ekey e)) es = es" using b by (simp add: filter_id_conv)
    ultimately show ?thesis using gt n by simp
  qed
qed

text \<open>A strictly sorted traversal holds at most one element equivalent to a key.\<close>

lemma sorted_unique_equivalent_unique:
  assumes swo: "strict_weak_order cmp" and srt: "sorted_unique cmp es"
    and a: "a \<in> set es" "equivalent cmp (ekey a) k" and b: "b \<in> set es" "equivalent cmp (ekey b) k"
  shows "a = b"
proof (rule ccontr)
  assume ne: "a \<noteq> b"
  note s = swo_D[OF swo]
  have nab: "\<not> cmp (ekey a) (ekey b)"
    using a(2) b(2) s(3)[of "ekey a" k "ekey b"] by (simp add: equivalent_def)
  have nba: "\<not> cmp (ekey b) (ekey a)"
    using a(2) b(2) s(3)[of "ekey b" k "ekey a"] by (simp add: equivalent_def)
  obtain i j where ij: "i < length es" "es ! i = a" "j < length es" "es ! j = b"
    using a(1) b(1) by (auto simp: in_set_conv_nth)
  then have "i \<noteq> j" using ne by auto
  then consider "i < j" | "j < i" by linarith
  then show False
  proof cases
    case 1
    then have "cmp (ekey (es ! i)) (ekey (es ! j))"
      using srt ij(3) unfolding sorted_unique_def by (simp add: sorted_wrt_iff_nth_less)
    then show False using nab ij by simp
  next
    case 2
    then have "cmp (ekey (es ! j)) (ekey (es ! i))"
      using srt ij(1) unfolding sorted_unique_def by (simp add: sorted_wrt_iff_nth_less)
    then show False using nba ij by simp
  qed
qed

text \<open>Removing and replacing an element of a list without duplicates.\<close>

lemma filter_remove_distinct:
  assumes "distinct (xs @ a # ys)"
  shows "filter (\<lambda>e. e \<noteq> a) (xs @ a # ys) = xs @ ys"
proof -
  have "filter (\<lambda>e. e \<noteq> a) xs = xs" "filter (\<lambda>e. e \<noteq> a) ys = ys"
    using assms by (auto simp: filter_id_conv)
  then show ?thesis by simp
qed

lemma map_replace_distinct:
  assumes "distinct (xs @ a # ys)"
  shows "map (\<lambda>e. if e = a then b else e) (xs @ a # ys) = xs @ b # ys"
proof -
  have "map (\<lambda>e. if e = a then b else e) xs = xs" "map (\<lambda>e. if e = a then b else e) ys = ys"
    using assms by (auto intro!: map_idI)
  then show ?thesis by simp
qed


subsection \<open>Running the model on concrete inputs\<close>

text \<open>The defining equations that unfold when an operation is run on a concrete dictionary.\<close>

lemmas run_simps =
  AVLDictionary_new_def AVLPoolAllocator_reserve_def allocate_def construct_def ptr_def elem_def
  allocate_node_def deallocate_node_def destruct_and_deallocate_def
  Set_emplace_def Multiset_emplace_def Map_emplace_def Multimap_emplace_def Map_index_def
  Map_alter_key_def Multimap_alter_key_def emplace_if_not_exists_def erase_def pull_out_def
  run_new_def Let_def rebalance_and_seth.simps rotate_and_seth_def c_div_def
  clear_def size_of_def empty_dict_def front_def back'_def node_data_def entry_def ekey_def
  filter_dict_def processor_def upt_conv_Cons

lemma less_nat_strict_weak_order: "strict_weak_order ((<) :: nat \<Rightarrow> nat \<Rightarrow> bool)"
  by (auto simp: strict_weak_order_def)


section \<open>Properties of the dictionary operations\<close>

lemma occupied_bound: "i \<in> occupied p \<Longrightarrow> i < length (data p)"
  by (simp add: occupied_def)

lemma finite_occupied: "finite (occupied p)"
  by (rule finite_subset[of _ "{..< length (data p)}"]) (auto simp: occupied_def)

lemma pool_ok_D:
  assumes "pool_ok mx p"
  shows "length (data p) = capacity p" "0 < capacity p" "capacity p \<le> mx"
  using assms by (auto simp: pool_ok_def pool_wf_def)

lemma dict_inv_D:
  assumes "dict_inv mx d"
  shows "mx < 2 ^ 64" "pool_ok mx (pool d)" "0 \<in> occupied (pool d)" "distinct (handles (root d))"
    "set (handles (root d)) = occupied (pool d) - {0}" "size' d = length (inorder (root d))"
    "avl_stored (root d)"
  using assms by (auto simp: dict_inv_def)

lemma dict_inv_size:
  assumes "dict_inv mx d"
  shows "length (inorder (root d)) < mx" "length (inorder (root d)) < 2 ^ 64" "size' d < mx"
proof -
  note D = dict_inv_D[OF assms]
  note P = pool_ok_D[OF D(2)]
  have "length (inorder (root d)) = card (set (handles (root d)))"
    using distinct_card[OF D(4)] by (simp add: handles_def)
  also have "\<dots> = card (occupied (pool d) - {0})" using D(5) by simp
  also have "\<dots> < card (occupied (pool d))"
    using D(3) finite_occupied by (intro psubset_card_mono) auto
  also have "\<dots> \<le> card {..< capacity (pool d)}"
    using P(1) by (intro card_mono) (auto simp: occupied_def)
  finally have "length (inorder (root d)) < capacity (pool d)" by simp
  then show "length (inorder (root d)) < mx" using P(3) by simp
  then show "length (inorder (root d)) < 2 ^ 64" "size' d < mx" using D(1,6) by simp_all
qed

lemma allocate_node_cases:
  assumes "pool_ok mx (pool d)" "size' d < mx"
  shows "(allocate_node mx d = Inl AllocatorExhausted \<and> head (pool d) = capacity (pool d) \<and>
            capacity (pool d) = mx) \<or>
         (\<exists>x d'. allocate_node mx d = Inr (x, d') \<and> pool_ok mx (pool d') \<and> x \<notin> occupied (pool d) \<and>
            occupied (pool d') = insert x (occupied (pool d)) \<and> root d' = root d \<and>
            size' d' = size' d + 1)"
  using allocate_construct[OF assms(1), of "()"] assms(2)
  by (auto simp: allocate_node_def)

lemma deallocate_node_ok:
  assumes "pool_ok mx (pool d)" "x \<in> occupied (pool d)" "0 < size' d" "size' d \<le> mx"
  shows "\<exists>d'. deallocate_node mx d x = Inr d' \<and> pool_ok mx (pool d') \<and>
           occupied (pool d') = occupied (pool d) - {x} \<and> root d' = root d \<and>
           size' d' = size' d - 1 \<and> head (pool d') = x \<and> capacity (pool d') = capacity (pool d)"
proof -
  from destruct_and_deallocate_ok[OF assms(1,2)] obtain p' where
    p': "destruct_and_deallocate (pool d) x = Inr p'" "pool_ok mx p'"
      "occupied p' = occupied (pool d) - {x}" "head p' = x" "capacity p' = capacity (pool d)"
    by blast
  have "(size' d + mx) mod (mx + 1) = size' d - 1"
  proof -
    have "size' d + mx = (size' d - 1) + 1 * (mx + 1)" using assms(3) by simp
    then have "(size' d + mx) mod (mx + 1) = (size' d - 1) mod (mx + 1)"
      by (metis mod_mult_self1)
    then show ?thesis using assms(3,4) by simp
  qed
  then show ?thesis using p' by (simp add: deallocate_node_def)
qed

lemma erase_dict:
  assumes swo: "strict_weak_order cmp" and inv: "dict_inv mx d"
    and srt: "sorted_multi cmp (inorder (root d))"
  shows "\<exists>b d'. erase mx cmp d k = Inr (b, d') \<and> dict_inv mx d' \<and>
           sorted_multi cmp (inorder (root d')) \<and>
           (sorted_unique cmp (inorder (root d)) \<longrightarrow> sorted_unique cmp (inorder (root d'))) \<and>
           ((\<not> b \<and> (\<forall>e\<in>set (inorder (root d)). \<not> equivalent cmp (ekey e) k) \<and>
               inorder (root d') = inorder (root d) \<and> size' d' = size' d \<and> pool d' = pool d) \<or>
            (b \<and> (\<exists>e xs ys. equivalent cmp (ekey e) k \<and> inorder (root d) = xs @ e # ys \<and>
               inorder (root d') = xs @ ys \<and> occupied (pool d') = occupied (pool d) - {fst e} \<and>
               head (pool d') = fst e) \<and>
               size' d' + 1 = size' d))"
proof -
  note D = dict_inv_D[OF inv] and Z = dict_inv_size[OF inv]
  from erase_impl_avl[OF D(7) Z(2), of cmp k] obtain t' res where
    e: "erase_impl cmp (root d) k = Inr (t', res)" and a: "avl_stored t'" by blast
  from erase_impl_inorder[OF swo srt e]
  consider (none) "res = None" "inorder t' = inorder (root d)" "\<forall>e\<in>set (inorder (root d)). \<not> equivalent cmp (ekey e) k"
    | (some) m xs ys where "res = Some m" "equivalent cmp (key m) k" "inorder (root d) = xs @ entry m # ys"
        "inorder t' = xs @ ys"
    by blast
  then show ?thesis
  proof cases
    case none
    let ?d' = "d\<lparr>root := t'\<rparr>"
    have "erase mx cmp d k = Inr (False, ?d')" using e none(1) by (simp add: erase_def)
    moreover have "dict_inv mx ?d'" using D a none(2) by (simp add: dict_inv_def handles_def)
    ultimately show ?thesis using none srt by auto
  next
    case some
    let ?d1 = "d\<lparr>root := t'\<rparr>"
    have hm: "idx m \<in> set (handles (root d))" using some(3) by (simp add: handles_def entry_def)
    then have occ: "idx m \<in> occupied (pool d)" "idx m \<noteq> 0" using D(5) by auto
    have sz: "0 < size' d" using D(6) some(3) by simp
    from deallocate_node_ok[of mx ?d1 "idx m"] D(2) occ(1) sz Z(3)
    obtain d' where d': "deallocate_node mx ?d1 (idx m) = Inr d'" "pool_ok mx (pool d')"
      "occupied (pool d') = occupied (pool d) - {idx m}" "root d' = t'" "size' d' = size' d - 1"
      "head (pool d') = idx m"
      by auto
    have er: "erase mx cmp d k = Inr (True, d')" using e some(1) d'(1) by (simp add: erase_def)
    have dh: "distinct (map fst (xs @ entry m # ys))" using D(4) some(3) by (simp add: handles_def)
    have "dict_inv mx d'"
      unfolding dict_inv_def using D(1,3,5,6) d'(2-5) a some(3,4) dh occ
      by (auto simp: handles_def entry_def)
    moreover have "sorted_multi cmp (inorder (root d'))"
      using srt sorted_multi_remove[of cmp xs "entry m" ys] some(3,4) d'(4) by simp
    moreover have "sorted_unique cmp (inorder (root d)) \<longrightarrow> sorted_unique cmp (inorder (root d'))"
      using sorted_unique_remove[of cmp xs "entry m" ys] some(3,4) d'(4) by simp
    moreover have em: "equivalent cmp (ekey (entry m)) k" "fst (entry m) = idx m"
      using some(2) by (simp_all add: entry_def ekey_def)
    have "\<exists>e xs ys. equivalent cmp (ekey e) k \<and> inorder (root d) = xs @ e # ys \<and>
               inorder (root d') = xs @ ys \<and> occupied (pool d') = occupied (pool d) - {fst e} \<and>
               head (pool d') = fst e"
      by (rule exI[of _ "entry m"], rule exI[of _ xs], rule exI[of _ ys])
         (use em some(3,4) d'(3,4,6) in simp)
    moreover have "size' d' + 1 = size' d" using d'(5) sz by simp
    ultimately show ?thesis using er by blast
  qed
qed

lemma insert_or_replace_inorder:
  assumes "strict_weak_order cmp" "sorted_multi cmp (inorder t)"
    "insert_or_replace mx cmp d t c = Inr (d', t', b)"
  shows "(b \<and> d' = d \<and> (\<forall>e\<in>set (inorder t). \<not> equivalent cmp (ekey e) (key c)) \<and>
            inorder t' = ins_list cmp (entry c) (inorder t)) \<or>
         (\<not> b \<and> (\<exists>m xs ys. equivalent cmp (key m) (key c) \<and> inorder t = xs @ entry m # ys \<and>
            inorder t' = xs @ entry c # ys \<and> deallocate_node mx d (idx m) = Inr d'))"
  using assms(2,3)
proof (induction t arbitrary: t')
  case nil
  then show ?case by (auto simp: ins_list_def)
next
  case (node l n r)
  note swo = swo_D[OF assms(1)]
  let ?x = "node l n r" and ?dir = "cmp (key n) (key c)"
  have sl: "sorted_multi cmp (inorder l)" and sr: "sorted_multi cmp (inorder r)"
    and ln: "\<forall>e\<in>set (inorder l). \<not> cmp (key n) (ekey e)"
    and nr: "\<forall>e\<in>set (inorder r). \<not> cmp (ekey e) (key n)"
    using node.prems(1) by (auto simp: sorted_multi_def sorted_wrt_append)
  show ?case
  proof (cases "\<not> ?dir \<and> \<not> cmp (key c) (key n)")
    case True
    then have eq: "equivalent cmp (key n) (key c)" by (simp add: equivalent_def)
    from node.prems(2) True have dd: "deallocate_node mx d (idx n) = Inr d'"
      and t': "t' = subtree.node l (c\<lparr>h := h n\<rparr>) r" and b: "\<not> b"
      by (auto split: sum.splits)
    have "inorder ?x = inorder l @ entry n # inorder r" "inorder t' = inorder l @ entry c # inorder r"
      using t' by (simp_all add: entry_def)
    then show ?thesis using eq dd b by blast
  next
    case False
    from node.prems(2) False obtain k where k: "insert_or_replace mx cmp d (kid ?x ?dir) c = Inr (d', k, b)"
      and t': "rebalance_and_seth (set_kid ?x ?dir k) = Inr t'"
      by (auto simp: Let_def split: sum.splits)
    have io: "inorder t' = inorder (set_kid ?x ?dir k)" using rebalance_inorder[OF t'] .
    show ?thesis
    proof (cases ?dir)
      case True
      have pass: "\<forall>e\<in>set (inorder l @ [entry n]). cmp (ekey e) (key c)"
        using ln True swo(3) by auto
      then have ne: "\<forall>e\<in>set (inorder l @ [entry n]). \<not> equivalent cmp (ekey e) (key c)"
        by (auto simp: equivalent_def)
      from node.IH(2)[OF sr] k True
      consider (ins) "b" "d' = d" "\<forall>e\<in>set (inorder r). \<not> equivalent cmp (ekey e) (key c)"
          "inorder k = ins_list cmp (entry c) (inorder r)"
        | (rep) m xs ys where "\<not> b" "equivalent cmp (key m) (key c)" "inorder r = xs @ entry m # ys"
          "inorder k = xs @ entry c # ys" "deallocate_node mx d (idx m) = Inr d'"
        by auto
      then show ?thesis
      proof cases
        case ins
        then show ?thesis using io True ne pass
            takeWhile_pass[of "inorder l @ [entry n]" "\<lambda>x. cmp (ekey x) (key c)" "inorder r"]
            dropWhile_pass[of "inorder l @ [entry n]" "\<lambda>x. cmp (ekey x) (key c)" "inorder r"]
          by (auto simp: ins_list_def)
      next
        case rep
        have "inorder ?x = (inorder l @ entry n # xs) @ entry m # ys"
          "inorder t' = (inorder l @ entry n # xs) @ entry c # ys"
          using rep io True by auto
        then show ?thesis using rep(1,2,5) by blast
      qed
    next
      case notdir: False
      then have gt: "cmp (key c) (key n)" using False by simp
      have ne_n: "\<not> equivalent cmp (key n) (key c)" using gt by (simp add: equivalent_def)
      have ne_r: "\<forall>e\<in>set (inorder r). \<not> equivalent cmp (ekey e) (key c)"
        using nr gt swo(3) by (auto simp: equivalent_def)
      from node.IH(1)[OF sl] k notdir
      consider (ins) "b" "d' = d" "\<forall>e\<in>set (inorder l). \<not> equivalent cmp (ekey e) (key c)"
          "inorder k = ins_list cmp (entry c) (inorder l)"
        | (rep) m xs ys where "\<not> b" "equivalent cmp (key m) (key c)" "inorder l = xs @ entry m # ys"
          "inorder k = xs @ entry c # ys" "deallocate_node mx d (idx m) = Inr d'"
        by auto
      then show ?thesis
      proof cases
        case ins
        then show ?thesis using io notdir ne_n ne_r
            takeWhile_stop[of "\<lambda>x. cmp (ekey x) (key c)" "entry n" "inorder l" "inorder r"]
            dropWhile_stop[of "\<lambda>x. cmp (ekey x) (key c)" "entry n" "inorder l" "inorder r"]
          by (auto simp: ins_list_def)
      next
        case rep
        have "inorder ?x = xs @ entry m # (ys @ entry n # inorder r)"
          "inorder t' = xs @ entry c # (ys @ entry n # inorder r)"
          using rep io notdir by auto
        then show ?thesis using rep(1,2,5) by blast
      qed
    qed
  qed
qed

text \<open>\<open>insert_or_replace\<close> returns and keeps the balance, if every node of the tree can be
  deallocated and either the new node stores the height 0 or a duplicate exists.\<close>

lemma insert_or_replace_avl:
  assumes "avl_stored t" "length (inorder t) < 2 ^ 64"
    and dl: "\<forall>i\<in>set (handles t). \<exists>d'. deallocate_node mx d i = Inr d'"
    and hc: "h c = 0 \<or> (strict_weak_order cmp \<and> sorted_multi cmp (inorder t) \<and>
               (\<exists>e\<in>set (inorder t). equivalent cmp (ekey e) (key c)))"
  shows "\<exists>d' t' b. insert_or_replace mx cmp d t c = Inr (d', t', b) \<and> avl_stored t' \<and> t' \<noteq> nil \<and>
           (h c = 0 \<or> \<not> b \<longrightarrow> hrel t t')"
  using assms
proof (induction t)
  case nil
  then show ?case by (auto simp: hrel_def handles_def)
next
  case (node l n r)
  let ?x = "node l n r" and ?dir = "cmp (key n) (key c)"
  show ?case
  proof (cases "\<not> ?dir \<and> \<not> cmp (key c) (key n)")
    case True
    obtain d' where "deallocate_node mx d (idx n) = Inr d'"
      using node.prems(3) by (auto simp: handles_def entry_def)
    then show ?thesis using True node.prems(1) by (auto simp: hrel_def)
  next
    case False
    let ?kd = "kid ?x ?dir"
    have dlk: "\<forall>i\<in>set (handles ?kd). \<exists>d'. deallocate_node mx d i = Inr d'"
      using node.prems(3) by (auto simp: handles_def)
    have hck: "h c = 0 \<or> (strict_weak_order cmp \<and> sorted_multi cmp (inorder ?kd) \<and>
               (\<exists>e\<in>set (inorder ?kd). equivalent cmp (ekey e) (key c)))"
    proof (cases "h c = 0")
      case True
      then show ?thesis by simp
    next
      case hn: False
      then have swo: "strict_weak_order cmp" and srt: "sorted_multi cmp (inorder ?x)"
        and ex: "\<exists>e\<in>set (inorder ?x). equivalent cmp (ekey e) (key c)"
        using node.prems(4) by auto
      note S = swo_D[OF swo]
      have sl: "sorted_multi cmp (inorder l)" and sr: "sorted_multi cmp (inorder r)"
        and ln: "\<forall>e\<in>set (inorder l). \<not> cmp (key n) (ekey e)"
        and nr: "\<forall>e\<in>set (inorder r). \<not> cmp (ekey e) (key n)"
        using srt by (auto simp: sorted_multi_def sorted_wrt_append)
      from ex obtain e where e: "e \<in> set (inorder ?x)" "equivalent cmp (ekey e) (key c)" by blast
      have "e \<in> set (inorder ?kd)"
      proof (cases ?dir)
        case True
        have "e \<noteq> entry n" using e(2) True by (auto simp: equivalent_def)
        moreover have "e \<notin> set (inorder l)"
        proof
          assume "e \<in> set (inorder l)"
          then have "\<not> cmp (key n) (ekey e)" using ln by blast
          then show False using e(2) True S(3)[of "key n" "ekey e" "key c"] by (auto simp: equivalent_def)
        qed
        ultimately show ?thesis using e(1) True by auto
      next
        case nd: False
        then have gt: "cmp (key c) (key n)" using False by simp
        have "e \<noteq> entry n" using e(2) gt by (auto simp: equivalent_def)
        moreover have "e \<notin> set (inorder r)"
        proof
          assume "e \<in> set (inorder r)"
          then have "\<not> cmp (ekey e) (key n)" using nr by blast
          then show False using e(2) gt S(3)[of "key c" "ekey e" "key n"] by (auto simp: equivalent_def)
        qed
        ultimately show ?thesis using e(1) nd by auto
      qed
      then show ?thesis using swo sl sr e(2) by (cases ?dir) auto
    qed
    have "\<exists>d' k b. insert_or_replace mx cmp d ?kd c = Inr (d', k, b) \<and> avl_stored k \<and> k \<noteq> nil \<and>
            (h c = 0 \<or> \<not> b \<longrightarrow> hrel ?kd k)"
    proof (cases ?dir)
      case True
      then show ?thesis using node.IH(2) node.prems(1,2) dlk hck by auto
    next
      case False
      then show ?thesis using node.IH(1) node.prems(1,2) dlk hck by auto
    qed
    then obtain d' k b where k: "insert_or_replace mx cmp d ?kd c = Inr (d', k, b)" "avl_stored k"
      "h c = 0 \<or> \<not> b \<longrightarrow> hrel ?kd k" by blast
    have hr: "hrel ?kd k"
    proof (cases "h c = 0")
      case True
      then show ?thesis using k(3) by simp
    next
      case hn: False
      then have swo: "strict_weak_order cmp" and srt: "sorted_multi cmp (inorder ?kd)"
        and ex: "\<exists>e\<in>set (inorder ?kd). equivalent cmp (ekey e) (key c)"
        using hck by auto
      from insert_or_replace_inorder[OF swo srt k(1)] ex have "\<not> b" by auto
      then show ?thesis using k(3) by simp
    qed
    from rebalance_step[OF node.prems(1) k(2) hr avl_stored_h_bound[OF node.prems(1,2)], of n]
    show ?thesis using k(1) False by (auto simp: Let_def)
  qed
qed

lemma emplace_if_not_exists_impl_cases:
  assumes swo: "strict_weak_order cmp" and "sorted_multi cmp (inorder t)" "avl_stored t"
    "length (inorder t) < 2 ^ 64" and pk: "pool_ok mx (pool d)" and sz: "size' d < mx"
  shows "(emplace_if_not_exists_impl mx cmp dflt d t k = Inl AllocatorExhausted \<and>
            allocate_node mx d = Inl AllocatorExhausted \<and>
            (\<forall>e\<in>set (inorder t). \<not> equivalent cmp (ekey e) k)) \<or>
         (\<exists>d' t' x. emplace_if_not_exists_impl mx cmp dflt d t k = Inr (d', t', x) \<and>
            avl_stored t' \<and> t' \<noteq> nil \<and> hrel t t' \<and>
            ((d' = d \<and> t' = t \<and> (\<exists>e\<in>set (inorder t). fst e = x \<and> equivalent cmp (ekey e) k)) \<or>
             (allocate_node mx d = Inr (x, d') \<and> (\<forall>e\<in>set (inorder t). \<not> equivalent cmp (ekey e) k) \<and>
              inorder t' = ins_list cmp (x, k, dflt) (inorder t))))"
  using assms(2,3,4)
proof (induction t)
  case nil
  from allocate_node_cases[OF pk sz] show ?case
    by (auto simp: hrel_def ins_list_def entry_def)
next
  case (node l n r)
  note S = swo_D[OF swo]
  let ?x = "node l n r" and ?dir = "cmp (key n) k"
  have sl: "sorted_multi cmp (inorder l)" and sr: "sorted_multi cmp (inorder r)"
    and ln: "\<forall>e\<in>set (inorder l). \<not> cmp (key n) (ekey e)"
    and nr: "\<forall>e\<in>set (inorder r). \<not> cmp (ekey e) (key n)"
    using node.prems(1) by (auto simp: sorted_multi_def sorted_wrt_append)
  note hb = avl_stored_h_bound[OF node.prems(2,3)]
  show ?case
  proof (cases "\<not> ?dir \<and> \<not> cmp k (key n)")
    case True
    have "entry n \<in> set (inorder ?x)" "fst (entry n) = idx n" "equivalent cmp (ekey (entry n)) k"
      using True by (auto simp: equivalent_def entry_def ekey_def)
    moreover have "emplace_if_not_exists_impl mx cmp dflt d ?x k = Inr (d, ?x, idx n)"
      using True by simp
    moreover have "hrel ?x ?x" by (simp add: hrel_def)
    ultimately show ?thesis using node.prems(2) by blast
  next
    case False
    let ?kd = "kid ?x ?dir"
    let ?E = "\<lambda>t. \<forall>e\<in>set (inorder t). \<not> equivalent cmp (ekey e) k"
    have other: "?E ?kd \<Longrightarrow> ?E ?x"
    proof (cases ?dir)
      case True
      have "\<forall>e\<in>set (inorder l @ [entry n]). cmp (ekey e) k" using ln True S(3) by auto
      then have "\<forall>e\<in>set (inorder l @ [entry n]). \<not> equivalent cmp (ekey e) k"
        by (auto simp: equivalent_def)
      then show "?E ?kd \<Longrightarrow> ?E ?x" using True by auto
    next
      case nd: False
      then have gt: "cmp k (key n)" using False by simp
      have "\<forall>e\<in>set (entry n # inorder r). \<not> equivalent cmp (ekey e) k"
        using nr gt S(3) by (auto simp: equivalent_def)
      then show "?E ?kd \<Longrightarrow> ?E ?x" using nd by auto
    qed
    have IH: "(emplace_if_not_exists_impl mx cmp dflt d ?kd k = Inl AllocatorExhausted \<and>
            allocate_node mx d = Inl AllocatorExhausted \<and> ?E ?kd) \<or>
         (\<exists>d' t' x. emplace_if_not_exists_impl mx cmp dflt d ?kd k = Inr (d', t', x) \<and>
            avl_stored t' \<and> t' \<noteq> nil \<and> hrel ?kd t' \<and>
            ((d' = d \<and> t' = ?kd \<and> (\<exists>e\<in>set (inorder ?kd). fst e = x \<and> equivalent cmp (ekey e) k)) \<or>
             (allocate_node mx d = Inr (x, d') \<and> ?E ?kd \<and>
              inorder t' = ins_list cmp (x, k, dflt) (inorder ?kd))))"
    proof (cases ?dir)
      case True
      then show ?thesis using node.IH(2)[OF sr] node.prems(2,3) by simp
    next
      case False
      then show ?thesis using node.IH(1)[OF sl] node.prems(2,3) by simp
    qed
    then consider (fail) "emplace_if_not_exists_impl mx cmp dflt d ?kd k = Inl AllocatorExhausted"
          "allocate_node mx d = Inl AllocatorExhausted" "?E ?kd"
      | (found) x where "emplace_if_not_exists_impl mx cmp dflt d ?kd k = Inr (d, ?kd, x)"
          "avl_stored ?kd" "?kd \<noteq> nil" "\<exists>e\<in>set (inorder ?kd). fst e = x \<and> equivalent cmp (ekey e) k"
      | (new) d' t' x where "emplace_if_not_exists_impl mx cmp dflt d ?kd k = Inr (d', t', x)"
          "avl_stored t'" "hrel ?kd t'" "allocate_node mx d = Inr (x, d')" "?E ?kd"
          "inorder t' = ins_list cmp (x, k, dflt) (inorder ?kd)"
      by blast
    then show ?thesis
    proof cases
      case fail
      have "emplace_if_not_exists_impl mx cmp dflt d ?x k = Inl AllocatorExhausted"
        using fail(1) False by (cases ?dir) (auto simp: Let_def)
      then show ?thesis using fail(2,3) other by blast
    next
      case found
      have nl: "\<not> (l = nil \<and> r = nil)" using found(3) by auto
      have "set_kid ?x ?dir ?kd = ?x" by simp
      then have "rebalance_and_seth (set_kid ?x ?dir ?kd) = Inr ?x"
        using rebalance_noop[OF node.prems(2) nl] hb by simp
      then have "emplace_if_not_exists_impl mx cmp dflt d ?x k = Inr (d, ?x, x)"
        using found(1) False by (cases ?dir) (auto simp: Let_def)
      moreover have "\<exists>e\<in>set (inorder ?x). fst e = x \<and> equivalent cmp (ekey e) k"
        using found(4) by (cases ?dir) auto
      moreover have "hrel ?x ?x" by (simp add: hrel_def)
      ultimately show ?thesis using node.prems(2) by blast
    next
      case new
      from rebalance_step[OF node.prems(2) new(2) new(3) hb, of n] obtain t'' where
        t'': "rebalance_and_seth (set_kid ?x ?dir t') = Inr t''" "avl_stored t''" "t'' \<noteq> nil" "hrel ?x t''"
        by blast
      have e: "emplace_if_not_exists_impl mx cmp dflt d ?x k = Inr (d', t'', x)"
        using new(1) t''(1) False by (cases ?dir) (auto simp: Let_def)
      have io: "inorder t'' = inorder (set_kid ?x ?dir t')" using rebalance_inorder[OF t''(1)] .
      have ek: "ekey (x, k, dflt) = k" by (simp add: ekey_def)
      have "inorder t'' = ins_list cmp (x, k, dflt) (inorder ?x)"
      proof (cases ?dir)
        case True
        have pass: "\<forall>e\<in>set (inorder l @ [entry n]). cmp (ekey e) k" using ln True S(3) by auto
        show ?thesis using io True new(6) pass
            takeWhile_pass[of "inorder l @ [entry n]" "\<lambda>x. cmp (ekey x) k" "inorder r"]
            dropWhile_pass[of "inorder l @ [entry n]" "\<lambda>x. cmp (ekey x) k" "inorder r"]
          by (simp add: ins_list_def ek)
      next
        case nd: False
        show ?thesis using io nd new(6)
            takeWhile_stop[of "\<lambda>x. cmp (ekey x) k" "entry n" "inorder l" "inorder r"]
            dropWhile_stop[of "\<lambda>x. cmp (ekey x) k" "entry n" "inorder l" "inorder r"]
          by (simp add: ins_list_def ek)
      qed
      then show ?thesis using e t''(2,3,4) new(4,5) other by blast
    qed
  qed
qed

lemma allocate_node_full:
  assumes "dict_inv mx d"
  shows "(allocate_node mx d = Inl AllocatorExhausted \<and> pool_full mx (pool d)) \<or>
         (\<exists>x d'. allocate_node mx d = Inr (x, d') \<and> pool_ok mx (pool d') \<and> x \<notin> occupied (pool d) \<and>
            x \<notin> set (handles (root d)) \<and> x \<noteq> 0 \<and>
            occupied (pool d') = insert x (occupied (pool d)) \<and> root d' = root d \<and>
            size' d' = size' d + 1)"
proof -
  note D = dict_inv_D[OF assms] and Z = dict_inv_size[OF assms]
  from allocate_node_cases[OF D(2) Z(3)] D(3,5) show ?thesis
    unfolding pool_full_def by (elim disjE exE conjE) (simp, metis DiffD1)
qed

lemma dict_inv_insert:
  assumes inv: "dict_inv mx d" and "pool_ok mx (pool d1)" "x \<notin> occupied (pool d)"
    "occupied (pool d1) = insert x (occupied (pool d))" "size' d1 = size' d + 1"
    "avl_stored t'" "inorder t' = ins_list cmp (x, k, v) (inorder (root d))"
  shows "dict_inv mx (d1\<lparr>root := t'\<rparr>)"
proof -
  note D = dict_inv_D[OF inv]
  have x0: "x \<noteq> 0" using D(3) assms(3) by (cases "x = 0") auto
  have xh: "fst (x, k, v) \<notin> fst ` set (inorder (root d))"
    using D(5) assms(3) by (auto simp: handles_def)
  have "distinct (handles t')"
    using distinct_ins_list[OF _ xh, of cmp] D(4) assms(7) by (simp add: handles_def)
  moreover have "set (handles t') = occupied (pool d1) - {0}"
    using D(5) assms(4,7) x0 by (auto simp: handles_def)
  ultimately show ?thesis using D(1,3,6) assms(2,4,5,6,7) by (simp add: dict_inv_def)
qed

lemma allocate_insert_node:
  assumes swo: "strict_weak_order cmp" and inv: "dict_inv mx d"
    and srt: "sorted_multi cmp (inorder (root d))"
    and al: "allocate_node mx d = Inr (x, d1)" "pool_ok mx (pool d1)" "x \<notin> occupied (pool d)"
      "occupied (pool d1) = insert x (occupied (pool d))" "root d1 = root d" "size' d1 = size' d + 1"
  shows "\<exists>t'. insert_node cmp (root d1) \<lparr>idx = x, key = k, val = v, h = 0\<rparr> = Inr t' \<and>
           dict_inv mx (d1\<lparr>root := t'\<rparr>) \<and>
           inorder t' = ins_list cmp (x, k, v) (inorder (root d)) \<and>
           sorted_multi cmp (inorder t')"
proof -
  note D = dict_inv_D[OF inv] and Z = dict_inv_size[OF inv]
  let ?c = "\<lparr>idx = x, key = k, val = v, h = 0\<rparr>"
  from insert_node_avl[OF D(7) Z(2), of ?c cmp] obtain t' where
    t': "insert_node cmp (root d) ?c = Inr t'" "avl_stored t'" by auto
  have io: "inorder t' = ins_list cmp (x, k, v) (inorder (root d))"
    using insert_node_inorder[OF swo srt t'(1)] by (simp add: entry_def)
  have "dict_inv mx (d1\<lparr>root := t'\<rparr>)"
    using dict_inv_insert[OF inv al(2,3,4,6) t'(2) io] .
  moreover have "sorted_multi cmp (inorder t')" using sorted_multi_ins_list[OF swo srt] io by simp
  ultimately show ?thesis using t'(1) io al(5) by simp
qed

lemma Multimap_emplace_dict:
  assumes swo: "strict_weak_order cmp" and inv: "dict_inv mx d"
    and srt: "sorted_multi cmp (inorder (root d))"
  shows "(Multimap_emplace mx cmp d k v = Inl AllocatorExhausted \<and> pool_full mx (pool d)) \<or>
         (\<exists>x d'. Multimap_emplace mx cmp d k v = Inr ((k, v), d') \<and> dict_inv mx d' \<and>
            x \<notin> set (handles (root d)) \<and>
            inorder (root d') = ins_list cmp (x, k, v) (inorder (root d)) \<and>
            sorted_multi cmp (inorder (root d')) \<and> size' d' = size' d + 1)"
proof -
  from allocate_node_full[OF inv] show ?thesis
  proof (elim disjE exE conjE)
    assume "allocate_node mx d = Inl AllocatorExhausted" "pool_full mx (pool d)"
    then show ?thesis by (simp add: Multimap_emplace_def)
  next
    fix x d1
    assume al: "allocate_node mx d = Inr (x, d1)" "pool_ok mx (pool d1)" "x \<notin> occupied (pool d)"
      "occupied (pool d1) = insert x (occupied (pool d))" "root d1 = root d" "size' d1 = size' d + 1"
      and xh: "x \<notin> set (handles (root d))"
    from allocate_insert_node[OF swo inv srt al, of k v] obtain t' where
      t': "insert_node cmp (root d1) \<lparr>idx = x, key = k, val = v, h = 0\<rparr> = Inr t'"
      "dict_inv mx (d1\<lparr>root := t'\<rparr>)" "inorder t' = ins_list cmp (x, k, v) (inorder (root d))"
      "sorted_multi cmp (inorder t')" by blast
    have "Multimap_emplace mx cmp d k v = Inr ((k, v), d1\<lparr>root := t'\<rparr>)"
      using al(1) t'(1) by (simp add: Multimap_emplace_def)
    then show ?thesis using t'(2,3,4) xh al(6) by (intro disjI2 exI[of _ x] exI[of _ "d1\<lparr>root := t'\<rparr>"]) simp
  qed
qed

lemma Multiset_emplace_dict:
  assumes swo: "strict_weak_order cmp" and inv: "dict_inv mx d"
    and srt: "sorted_multi cmp (inorder (root d))"
  shows "(Multiset_emplace mx cmp d k = Inl AllocatorExhausted \<and> pool_full mx (pool d)) \<or>
         (\<exists>x d'. Multiset_emplace mx cmp d k = Inr d' \<and> dict_inv mx d' \<and>
            x \<notin> set (handles (root d)) \<and>
            inorder (root d') = ins_list cmp (x, k, ()) (inorder (root d)) \<and>
            sorted_multi cmp (inorder (root d')) \<and> size' d' = size' d + 1)"
proof -
  from allocate_node_full[OF inv] show ?thesis
  proof (elim disjE exE conjE)
    assume "allocate_node mx d = Inl AllocatorExhausted" "pool_full mx (pool d)"
    then show ?thesis by (simp add: Multiset_emplace_def)
  next
    fix x d1
    assume al: "allocate_node mx d = Inr (x, d1)" "pool_ok mx (pool d1)" "x \<notin> occupied (pool d)"
      "occupied (pool d1) = insert x (occupied (pool d))" "root d1 = root d" "size' d1 = size' d + 1"
      and xh: "x \<notin> set (handles (root d))"
    from allocate_insert_node[OF swo inv srt al, of k "()"] obtain t' where
      t': "insert_node cmp (root d1) \<lparr>idx = x, key = k, val = (), h = 0\<rparr> = Inr t'"
      "dict_inv mx (d1\<lparr>root := t'\<rparr>)" "inorder t' = ins_list cmp (x, k, ()) (inorder (root d))"
      "sorted_multi cmp (inorder t')" by blast
    have "Multiset_emplace mx cmp d k = Inr (d1\<lparr>root := t'\<rparr>)"
      using al(1) t'(1) by (simp add: Multiset_emplace_def)
    then show ?thesis using t'(2,3,4) xh al(6) by (intro disjI2 exI[of _ x] exI[of _ "d1\<lparr>root := t'\<rparr>"]) simp
  qed
qed

lemma Set_emplace_dict:
  assumes swo: "strict_weak_order cmp" and inv: "dict_inv mx d"
    and srt: "sorted_multi cmp (inorder (root d))"
  shows "(Set_emplace mx cmp d k = Inl AllocatorExhausted \<and> pool_full mx (pool d)) \<or>
         (\<exists>x d'. Set_emplace mx cmp d k = Inr (True, d') \<and> dict_inv mx d' \<and>
            x \<notin> set (handles (root d)) \<and>
            (\<forall>e\<in>set (inorder (root d)). \<not> equivalent cmp (ekey e) k) \<and>
            inorder (root d') = ins_list cmp (x, k, ()) (inorder (root d)) \<and>
            sorted_multi cmp (inorder (root d')) \<and> size' d' = size' d + 1) \<or>
         (\<exists>x d'. Set_emplace mx cmp d k = Inr (False, d') \<and> dict_inv mx d' \<and>
            (\<exists>e\<in>set (inorder (root d)). equivalent cmp (ekey e) k) \<and>
            root d' = root d \<and> size' d' = size' d \<and> occupied (pool d') = occupied (pool d) \<and>
            x \<notin> occupied (pool d) \<and> head (pool d') = x)"
proof -
  note D = dict_inv_D[OF inv] and Z = dict_inv_size[OF inv]
  from allocate_node_full[OF inv] show ?thesis
  proof (elim disjE exE conjE)
    assume "allocate_node mx d = Inl AllocatorExhausted" "pool_full mx (pool d)"
    then show ?thesis by (simp add: Set_emplace_def)
  next
    fix x d1
    assume al: "allocate_node mx d = Inr (x, d1)" "pool_ok mx (pool d1)" "x \<notin> occupied (pool d)"
      "occupied (pool d1) = insert x (occupied (pool d))" "root d1 = root d" "size' d1 = size' d + 1"
      and xh: "x \<notin> set (handles (root d))" and x0: "x \<noteq> 0"
    let ?c = "\<lparr>idx = x, key = k, val = (), h = 0\<rparr>"
    from insert_if_not_exists_avl[OF D(7) Z(2), of ?c cmp] obtain t' y where
      t': "insert_if_not_exists cmp (root d) ?c = Inr (t', y)" "avl_stored t'" by auto
    from insert_if_not_exists_inorder[OF swo srt t'(1)]
    consider (ins) "y = x" "\<forall>e\<in>set (inorder (root d)). \<not> equivalent cmp (ekey e) k"
        "inorder t' = ins_list cmp (x, k, ()) (inorder (root d))"
      | (found) e where "e \<in> set (inorder (root d))" "fst e = y" "equivalent cmp (ekey e) k"
        by (auto simp: entry_def)
    then show ?thesis
    proof cases
      case ins
      let ?d' = "d1\<lparr>root := t'\<rparr>"
      have "Set_emplace mx cmp d k = Inr (True, ?d')"
        using al(1,5) t'(1) ins(1) by (simp add: Set_emplace_def)
      moreover have "dict_inv mx ?d'" using dict_inv_insert[OF inv al(2,3,4,6) t'(2) ins(3)] .
      moreover have "sorted_multi cmp (inorder t')" using sorted_multi_ins_list[OF swo srt] ins(3) by simp
      ultimately show ?thesis using ins(2,3) xh al(6)
        by (intro disjI2 disjI1 exI[of _ x] exI[of _ ?d']) simp
    next
      case found
      have yx: "y \<noteq> x" using found(1,2) xh by (auto simp: handles_def)
      have same: "t' = root d" using insert_if_not_exists_found_same[OF D(7) Z(2) t'(1)] yx by simp
      let ?d1 = "d1\<lparr>root := t'\<rparr>"
      from deallocate_node_ok[of mx ?d1 x] al(2,4,6) Z(3)
      obtain d2 where d2: "deallocate_node mx ?d1 x = Inr d2" "pool_ok mx (pool d2)"
        "occupied (pool d2) = occupied (pool d1) - {x}" "root d2 = t'" "size' d2 = size' d1 - 1"
        "head (pool d2) = x"
        by auto
      have e: "Set_emplace mx cmp d k = Inr (False, d2)"
        using al(1,5) t'(1) yx d2(1) by (simp add: Set_emplace_def)
      have occ: "occupied (pool d2) = occupied (pool d)" using d2(3) al(3,4) by auto
      have "dict_inv mx d2" using D d2(2,4,5) occ same al(6) by (simp add: dict_inv_def)
      then show ?thesis using e found(1,3) d2(4,5,6) same occ al(3,6)
        by (intro disjI2 exI[of _ x] exI[of _ d2]) auto
    qed
  qed
qed

lemma Set_emplace_unique:
  assumes swo: "strict_weak_order cmp" and srt: "sorted_unique cmp (inorder (root d))"
    and "Set_emplace mx cmp d k = Inr (b, d')" "dict_inv mx d"
  shows "sorted_unique cmp (inorder (root d'))"
proof -
  have sm: "sorted_multi cmp (inorder (root d))" using sorted_unique_multi[OF swo srt] .
  from Set_emplace_dict[OF swo assms(4) sm, of k] assms(3)
  consider (ins) x where "\<forall>e\<in>set (inorder (root d)). \<not> equivalent cmp (ekey e) k"
      "inorder (root d') = ins_list cmp (x, k, ()) (inorder (root d))"
    | (found) "root d' = root d"
    by auto
  then show ?thesis
  proof cases
    case ins
    have "ekey (x, k, ()) = k" by (simp add: ekey_def)
    then show ?thesis using sorted_unique_ins_list[OF swo srt, of "(x, k, ())"] ins by simp
  next
    case found
    then show ?thesis using srt by simp
  qed
qed

lemma find_distinct:
  "distinct (map fst es) \<Longrightarrow> e \<in> set es \<Longrightarrow> find (\<lambda>e'. fst e' = fst e) es = Some e"
  by (induction es) (auto simp: rev_image_eqI)

lemma Map_emplace_dict:
  assumes swo: "strict_weak_order cmp" and inv: "dict_inv mx d"
    and srt: "sorted_multi cmp (inorder (root d))"
  shows "(Map_emplace mx cmp d k v = Inl AllocatorExhausted \<and> pool_full mx (pool d)) \<or>
         (\<exists>x d'. Map_emplace mx cmp d k v = Inr (((k, v), True), d') \<and> dict_inv mx d' \<and>
            x \<notin> set (handles (root d)) \<and>
            (\<forall>e\<in>set (inorder (root d)). \<not> equivalent cmp (ekey e) k) \<and>
            inorder (root d') = ins_list cmp (x, k, v) (inorder (root d)) \<and>
            size' d' = size' d + 1) \<or>
         (\<exists>x d' m xs ys. Map_emplace mx cmp d k v = Inr (((k, v), False), d') \<and> dict_inv mx d' \<and>
            x \<notin> set (handles (root d)) \<and> equivalent cmp (ekey m) k \<and>
            inorder (root d) = xs @ m # ys \<and> inorder (root d') = xs @ (x, k, v) # ys \<and>
            size' d' = size' d)"
proof -
  note D = dict_inv_D[OF inv] and Z = dict_inv_size[OF inv]
  from allocate_node_full[OF inv] show ?thesis
  proof (elim disjE exE conjE)
    assume "allocate_node mx d = Inl AllocatorExhausted" "pool_full mx (pool d)"
    then show ?thesis by (simp add: Map_emplace_def)
  next
    fix x d1
    assume al: "allocate_node mx d = Inr (x, d1)" "pool_ok mx (pool d1)" "x \<notin> occupied (pool d)"
      "occupied (pool d1) = insert x (occupied (pool d))" "root d1 = root d" "size' d1 = size' d + 1"
      and xh: "x \<notin> set (handles (root d))" and x0: "x \<noteq> 0"
    let ?c = "\<lparr>idx = x, key = k, val = v, h = 0\<rparr>"
    have ec: "entry ?c = (x, k, v)" by (simp add: entry_def)
    have dl: "\<forall>i\<in>set (handles (root d)). \<exists>d'. deallocate_node mx d1 i = Inr d'"
    proof
      fix i assume "i \<in> set (handles (root d))"
      then have "i \<in> occupied (pool d1)" using D(5) al(4) by auto
      from deallocate_node_ok[OF al(2) this] al(6) Z(3) show "\<exists>d'. deallocate_node mx d1 i = Inr d'"
        by auto
    qed
    from insert_or_replace_avl[OF D(7) Z(2) dl, of ?c cmp] obtain d2 t' b where
      r: "insert_or_replace mx cmp d1 (root d) ?c = Inr (d2, t', b)" "avl_stored t'" by auto
    have me: "Map_emplace mx cmp d k v = Inr (((k, v), b), d2\<lparr>root := t'\<rparr>)"
      using al(1,5) r(1) by (simp add: Map_emplace_def)
    from insert_or_replace_inorder[OF swo srt r(1)]
    consider (ins) "b" "d2 = d1" "\<forall>e\<in>set (inorder (root d)). \<not> equivalent cmp (ekey e) k"
        "inorder t' = ins_list cmp (x, k, v) (inorder (root d))"
      | (rep) m xs ys where "\<not> b" "equivalent cmp (key m) k" "inorder (root d) = xs @ entry m # ys"
        "inorder t' = xs @ (x, k, v) # ys" "deallocate_node mx d1 (idx m) = Inr d2"
      using ec by auto
    then show ?thesis
    proof cases
      case ins
      have "dict_inv mx (d2\<lparr>root := t'\<rparr>)"
        using dict_inv_insert[OF inv al(2,3,4,6) r(2) ins(4)] ins(2) by simp
      then show ?thesis using me ins xh al(6)
        by (intro disjI2 disjI1 exI[of _ x] exI[of _ "d2\<lparr>root := t'\<rparr>"]) simp
    next
      case rep
      have mh: "idx m \<in> set (handles (root d))" using rep(3) by (simp add: handles_def entry_def)
      then have mo: "idx m \<in> occupied (pool d1)" "idx m \<noteq> 0" "idx m \<noteq> x"
        using D(5) al(4) xh by auto
      from deallocate_node_ok[OF al(2) mo(1)] al(6) Z(3) rep(5)
      have d2: "pool_ok mx (pool d2)" "occupied (pool d2) = occupied (pool d1) - {idx m}"
        "size' d2 = size' d1 - 1" by auto
      have dh: "distinct (map fst (xs @ entry m # ys))" using D(4) rep(3) by (simp add: handles_def)
      have fm: "fst (entry m) = idx m" by (simp add: entry_def)
      have xn: "x \<notin> fst ` (set xs \<union> set ys)" using xh rep(3) by (auto simp: handles_def)
      have "distinct (handles t')" using dh xn rep(4) by (auto simp: handles_def)
      moreover have "set (handles t') = occupied (pool d2) - {0}"
      proof -
        define H where "H = fst ` (set xs \<union> set ys)"
        have 1: "set (handles (root d)) = insert (idx m) H"
          using rep(3) fm by (auto simp: handles_def H_def)
        have 2: "idx m \<notin> H" using dh fm by (auto simp: H_def)
        have 3: "set (handles t') = insert x H"
          using rep(4) by (auto simp: handles_def H_def)
        have 4: "occupied (pool d) - {0} = insert (idx m) H" using 1 D(5) by simp
        have 5: "occupied (pool d2) = insert x (occupied (pool d)) - {idx m}" using d2(2) al(4) by simp
        show ?thesis unfolding 3 5 using 2 4 al(3) x0 mo(2,3) by blast
      qed
      moreover have "size' d2 = length (inorder t')" using d2(3) al(6) D(6) rep(3,4) by simp
      moreover have "0 \<in> occupied (pool d2)" using D(3) d2(2) al(4) mo(2) by auto
      ultimately have "dict_inv mx (d2\<lparr>root := t'\<rparr>)"
        using D(1) d2(1) r(2) by (simp add: dict_inv_def)
      moreover have "equivalent cmp (ekey (entry m)) k" using rep(2) by simp
      moreover have "size' (d2\<lparr>root := t'\<rparr>) = size' d" using d2(3) al(6) by simp
      ultimately show ?thesis using me rep(1,3,4) xh
        by (intro disjI2 exI[of _ x] exI[of _ "d2\<lparr>root := t'\<rparr>"] exI[of _ "entry m"] exI[of _ xs] exI[of _ ys]) simp
    qed
  qed
qed

lemma Map_emplace_sorted:
  assumes swo: "strict_weak_order cmp" and inv: "dict_inv mx d"
    and srt: "sorted_multi cmp (inorder (root d))"
    and me: "Map_emplace mx cmp d k v = Inr (r, d')"
  shows "sorted_multi cmp (inorder (root d'))"
    "sorted_unique cmp (inorder (root d)) \<Longrightarrow> sorted_unique cmp (inorder (root d'))"
proof -
  from Map_emplace_dict[OF swo inv srt, of k v] me
  consider (ins) x where "\<forall>e\<in>set (inorder (root d)). \<not> equivalent cmp (ekey e) k"
      "inorder (root d') = ins_list cmp (x, k, v) (inorder (root d))"
    | (rep) x m xs ys where "equivalent cmp (ekey m) k" "inorder (root d) = xs @ m # ys"
      "inorder (root d') = xs @ (x, k, v) # ys"
    by auto
  then have "sorted_multi cmp (inorder (root d')) \<and>
    (sorted_unique cmp (inorder (root d)) \<longrightarrow> sorted_unique cmp (inorder (root d')))"
  proof cases
    case ins
    have ek: "ekey (x, k, v) = k" by (simp add: ekey_def)
    show ?thesis using sorted_multi_ins_list[OF swo srt, of "(x, k, v)"]
        sorted_unique_ins_list[OF swo, of "inorder (root d)" "(x, k, v)"] ins ek by simp
  next
    case rep
    have ek: "equivalent cmp (ekey m) (ekey (x, k, v))" using rep(1) by (simp add: ekey_def)
    show ?thesis using sorted_multi_replace[OF swo _ ek, of xs ys]
        sorted_unique_replace[OF swo _ ek, of xs ys] srt rep(2,3) by simp
  qed
  then show "sorted_multi cmp (inorder (root d'))"
    "sorted_unique cmp (inorder (root d)) \<Longrightarrow> sorted_unique cmp (inorder (root d'))" by simp_all
qed

lemma Map_index_dict:
  assumes swo: "strict_weak_order cmp" and inv: "dict_inv mx d"
    and srt: "sorted_multi cmp (inorder (root d))"
  shows "(Map_index mx cmp dflt d k = Inl AllocatorExhausted \<and> pool_full mx (pool d) \<and>
            (\<forall>e\<in>set (inorder (root d)). \<not> equivalent cmp (ekey e) k)) \<or>
         (\<exists>x k' v. Map_index mx cmp dflt d k = Inr ((x, v), d) \<and>
            (x, k', v) \<in> set (inorder (root d)) \<and> equivalent cmp k' k) \<or>
         (\<exists>x d'. Map_index mx cmp dflt d k = Inr ((x, dflt), d') \<and> dict_inv mx d' \<and>
            x \<notin> set (handles (root d)) \<and>
            (\<forall>e\<in>set (inorder (root d)). \<not> equivalent cmp (ekey e) k) \<and>
            inorder (root d') = ins_list cmp (x, k, dflt) (inorder (root d)) \<and>
            size' d' = size' d + 1)"
proof -
  note D = dict_inv_D[OF inv] and Z = dict_inv_size[OF inv]
  from emplace_if_not_exists_impl_cases[OF swo srt D(7) Z(2) D(2) Z(3), of dflt k]
  consider (fail) "emplace_if_not_exists_impl mx cmp dflt d (root d) k = Inl AllocatorExhausted"
      "allocate_node mx d = Inl AllocatorExhausted" "\<forall>e\<in>set (inorder (root d)). \<not> equivalent cmp (ekey e) k"
    | (found) x e where "emplace_if_not_exists_impl mx cmp dflt d (root d) k = Inr (d, root d, x)"
      "e \<in> set (inorder (root d))" "fst e = x" "equivalent cmp (ekey e) k"
    | (new) d1 t' x where "emplace_if_not_exists_impl mx cmp dflt d (root d) k = Inr (d1, t', x)"
      "avl_stored t'" "allocate_node mx d = Inr (x, d1)"
      "\<forall>e\<in>set (inorder (root d)). \<not> equivalent cmp (ekey e) k"
      "inorder t' = ins_list cmp (x, k, dflt) (inorder (root d))"
    by blast
  then show ?thesis
  proof cases
    case fail
    have "pool_full mx (pool d)" using allocate_node_full[OF inv] fail(2) by auto
    then show ?thesis using fail(1,3) by (simp add: Map_index_def emplace_if_not_exists_def)
  next
    case found
    have f: "find (\<lambda>e'. fst e' = x) (inorder (root d)) = Some e"
      using find_distinct[OF _ found(2)] D(4) found(3) by (simp add: handles_def)
    have "Map_index mx cmp dflt d k = Inr ((x, snd (snd e)), d)"
      using found(1) f by (simp add: Map_index_def emplace_if_not_exists_def)
    moreover have "(x, ekey e, snd (snd e)) \<in> set (inorder (root d))"
      using found(2,3) by (cases e) (auto simp: ekey_def)
    ultimately show ?thesis using found(4) by blast
  next
    case new
    from allocate_node_full[OF inv] new(3) have al: "pool_ok mx (pool d1)" "x \<notin> occupied (pool d)"
      "x \<notin> set (handles (root d))" "occupied (pool d1) = insert x (occupied (pool d))"
      "size' d1 = size' d + 1" by auto
    let ?d' = "d1\<lparr>root := t'\<rparr>"
    have di: "dict_inv mx ?d'" using dict_inv_insert[OF inv al(1,2,4,5) new(2,5)] .
    have "(x, k, dflt) \<in> set (inorder (root ?d'))" using new(5) by simp
    from find_distinct[OF _ this] dict_inv_D(4)[OF di]
    have f: "find (\<lambda>e'. fst e' = x) (inorder t') = Some (x, k, dflt)" by (simp add: handles_def)
    have "Map_index mx cmp dflt d k = Inr ((x, dflt), ?d')"
      using new(1) f by (simp add: Map_index_def emplace_if_not_exists_def)
    then show ?thesis using di al(3,5) new(4,5)
      by (intro disjI2 exI[of _ x] exI[of _ ?d']) simp
  qed
qed

lemma AVLDictionary_new_inv:
  assumes "0 < mx" "mx < 2 ^ 64" "reserve_n \<le> mx"
  shows "\<exists>d. AVLDictionary_new mx reserve_n = Inr (d :: ('k, 'v) AVLDictionary) \<and> dict_inv mx d \<and>
           root d = nil \<and> size' d = 0"
proof -
  define c where "c = max 1 reserve_n"
  have c: "0 < c" "c \<le> mx" using assms by (auto simp: c_def)
  define dat :: "unit Elem list" where "dat = map (\<lambda>i. Ptr (i + 1)) [0 ..< c]"
  have len: "length dat = c" by (simp add: dat_def)
  have d0: "dat ! 0 = Ptr 1" using c(1) by (simp add: dat_def nth_upt del: upt_Suc)
  have a: "allocate mx (AVLPoolAllocator_reserve reserve_n :: unit AVLPoolAllocator)
      = Inr (0, \<lparr>data = dat, capacity = c, head = 1\<rparr>)"
    using c d0 len unfolding AVLPoolAllocator_reserve_def c_def[symmetric] dat_def[symmetric]
    by (simp add: allocate_def ptr_def)
  let ?p = "\<lparr>data = dat[0 := Val ()], capacity = c, head = 1\<rparr>"
  have n: "AVLDictionary_new mx reserve_n = Inr (\<lparr>pool = ?p, root = nil, size' = 0\<rparr> :: ('k, 'v) AVLDictionary)"
    using a c len by (auto simp: AVLDictionary_new_def construct_def)
  have "free_chain ([] @ map (\<lambda>i. Ptr (i + 1)) [0 ..< c]) c 1 [1 ..< c]"
    using c by (intro free_chain_fresh) auto
  then have "free_chain (dat[0 := Val ()]) c 1 [1 ..< c]"
    by (simp add: dat_def free_chain_update)
  moreover have "list_all (\<lambda>i. i \<in> set [1 ..< c] \<or> is_Val (dat[0 := Val ()] ! i)) [0 ..< c]"
    using len by (auto simp: list_all_iff nth_list_update)
  ultimately have "pool_wf mx ?p [1 ..< c]" using c len by (simp add: pool_wf_def)
  then have ok: "pool_ok mx ?p" by (auto simp: pool_ok_def)
  have occ: "occupied ?p = {0}"
  proof -
    have "\<not> is_Val (dat ! i)" if "i < c" for i using that by (simp add: dat_def del: upt_Suc)
    then show ?thesis using c len by (auto simp: occupied_def nth_list_update)
  qed
  have "dict_inv mx (\<lparr>pool = ?p, root = nil, size' = 0\<rparr> :: ('k, 'v) AVLDictionary)"
    using ok occ assms(2) by (simp add: dict_inv_def handles_def)
  then show ?thesis using n by simp
qed

lemma run_ops_invariant:
  assumes "\<And>d x d'. P d \<Longrightarrow> step d x = Inr d' \<Longrightarrow> P d'" "P d" "run_ops step d xs = Inr d'"
  shows "P d'"
  using assms(2,3)
proof (induction xs arbitrary: d)
  case Nil
  then show ?case by simp
next
  case (Cons x xs)
  then show ?case using assms(1) by (auto split: sum.splits)
qed

lemma run_ops_error:
  assumes "\<And>d x d'. P d \<Longrightarrow> step d x = Inr d' \<Longrightarrow> P d'"
    "\<And>d x e. P d \<Longrightarrow> step d x = Inl e \<Longrightarrow> e = AllocatorExhausted"
    "P d" "run_ops step d xs = Inl e"
  shows "e = AllocatorExhausted"
  using assms(3,4)
proof (induction xs arbitrary: d)
  case Nil
  then show ?case by simp
next
  case (Cons x xs)
  show ?case
  proof (cases "step d x")
    case (Inl e')
    then show ?thesis using Cons.prems assms(2) by auto
  next
    case (Inr d1)
    then show ?thesis using Cons assms(1)[OF Cons.prems(1) Inr] by auto
  qed
qed

lemma inv_unique_multi: "strict_weak_order cmp \<Longrightarrow> inv_unique mx cmp d \<Longrightarrow> inv_multi mx cmp d"
  by (simp add: inv_unique_def inv_multi_def sorted_unique_multi)

lemma erase_step:
  assumes "strict_weak_order cmp"
  shows "inv_multi mx cmp d \<Longrightarrow> \<exists>b d'. erase mx cmp d k = Inr (b, d') \<and> inv_multi mx cmp d'"
    and "inv_unique mx cmp d \<Longrightarrow> \<exists>b d'. erase mx cmp d k = Inr (b, d') \<and> inv_unique mx cmp d'"
proof -
  show "inv_multi mx cmp d \<Longrightarrow> \<exists>b d'. erase mx cmp d k = Inr (b, d') \<and> inv_multi mx cmp d'"
    using erase_dict[OF assms, of mx d k] unfolding inv_multi_def by blast
  show "inv_unique mx cmp d \<Longrightarrow> \<exists>b d'. erase mx cmp d k = Inr (b, d') \<and> inv_unique mx cmp d'"
    using erase_dict[OF assms, of mx d k] sorted_unique_multi[OF assms] unfolding inv_unique_def by blast
qed

lemma Set_step_inv:
  assumes swo: "strict_weak_order cmp" and inv: "inv_unique mx cmp d"
  shows "Set_step mx cmp d x = Inr d' \<Longrightarrow> inv_unique mx cmp d'"
    and "Set_step mx cmp d x = Inl e \<Longrightarrow> e = AllocatorExhausted"
proof -
  have di: "dict_inv mx d" and su: "sorted_unique cmp (inorder (root d))"
    using inv by (auto simp: inv_unique_def)
  have sm: "sorted_multi cmp (inorder (root d))" using sorted_unique_multi[OF swo su] .
  show "Set_step mx cmp d x = Inr d' \<Longrightarrow> inv_unique mx cmp d'"
  proof (cases x)
    case (Emplace k)
    assume "Set_step mx cmp d x = Inr d'"
    then obtain b where e: "Set_emplace mx cmp d k = Inr (b, d')" using Emplace by (auto split: sum.splits)
    have "dict_inv mx d'" using Set_emplace_dict[OF swo di sm, of k] e by auto
    then show ?thesis using Set_emplace_unique[OF swo su e di] by (simp add: inv_unique_def)
  next
    case (Erase k)
    assume "Set_step mx cmp d x = Inr d'"
    then show ?thesis using erase_step(2)[OF swo inv, of k] Erase by (auto split: sum.splits)
  qed
  show "Set_step mx cmp d x = Inl e \<Longrightarrow> e = AllocatorExhausted"
  proof (cases x)
    case (Emplace k)
    assume "Set_step mx cmp d x = Inl e"
    then show ?thesis using Set_emplace_dict[OF swo di sm, of k] Emplace by (auto split: sum.splits)
  next
    case (Erase k)
    assume "Set_step mx cmp d x = Inl e"
    then show ?thesis using erase_step(2)[OF swo inv, of k] Erase by (auto split: sum.splits)
  qed
qed

lemma Multiset_step_inv:
  assumes swo: "strict_weak_order cmp" and inv: "inv_multi mx cmp d"
  shows "Multiset_step mx cmp d x = Inr d' \<Longrightarrow> inv_multi mx cmp d'"
    and "Multiset_step mx cmp d x = Inl e \<Longrightarrow> e = AllocatorExhausted"
proof -
  have di: "dict_inv mx d" and sm: "sorted_multi cmp (inorder (root d))"
    using inv by (auto simp: inv_multi_def)
  show "Multiset_step mx cmp d x = Inr d' \<Longrightarrow> inv_multi mx cmp d'"
  proof (cases x)
    case (Emplace k)
    assume "Multiset_step mx cmp d x = Inr d'"
    then show ?thesis using Multiset_emplace_dict[OF swo di sm, of k] Emplace by (auto simp: inv_multi_def)
  next
    case (Erase k)
    assume "Multiset_step mx cmp d x = Inr d'"
    then show ?thesis using erase_step(1)[OF swo inv, of k] Erase by (auto split: sum.splits)
  qed
  show "Multiset_step mx cmp d x = Inl e \<Longrightarrow> e = AllocatorExhausted"
  proof (cases x)
    case (Emplace k)
    assume "Multiset_step mx cmp d x = Inl e"
    then show ?thesis using Multiset_emplace_dict[OF swo di sm, of k] Emplace by auto
  next
    case (Erase k)
    assume "Multiset_step mx cmp d x = Inl e"
    then show ?thesis using erase_step(1)[OF swo inv, of k] Erase by (auto split: sum.splits)
  qed
qed

lemma Multimap_step_inv:
  assumes swo: "strict_weak_order cmp" and inv: "inv_multi mx cmp d"
  shows "Multimap_step mx cmp d x = Inr d' \<Longrightarrow> inv_multi mx cmp d'"
    and "Multimap_step mx cmp d x = Inl e \<Longrightarrow> e = AllocatorExhausted"
proof -
  have di: "dict_inv mx d" and sm: "sorted_multi cmp (inorder (root d))"
    using inv by (auto simp: inv_multi_def)
  show "Multimap_step mx cmp d x = Inr d' \<Longrightarrow> inv_multi mx cmp d'"
  proof (cases x)
    case (MultimapEmplace k v)
    assume "Multimap_step mx cmp d x = Inr d'"
    then show ?thesis using Multimap_emplace_dict[OF swo di sm, of k v] MultimapEmplace
      by (auto simp: inv_multi_def)
  next
    case (MultimapErase k)
    assume "Multimap_step mx cmp d x = Inr d'"
    then show ?thesis using erase_step(1)[OF swo inv, of k] MultimapErase by (auto split: sum.splits)
  qed
  show "Multimap_step mx cmp d x = Inl e \<Longrightarrow> e = AllocatorExhausted"
  proof (cases x)
    case (MultimapEmplace k v)
    assume "Multimap_step mx cmp d x = Inl e"
    then show ?thesis using Multimap_emplace_dict[OF swo di sm, of k v] MultimapEmplace by auto
  next
    case (MultimapErase k)
    assume "Multimap_step mx cmp d x = Inl e"
    then show ?thesis using erase_step(1)[OF swo inv, of k] MultimapErase by (auto split: sum.splits)
  qed
qed

lemma Map_step_inv:
  assumes swo: "strict_weak_order cmp" and inv: "inv_unique mx cmp d"
  shows "Map_step mx cmp dflt d x = Inr d' \<Longrightarrow> inv_unique mx cmp d'"
    and "Map_step mx cmp dflt d x = Inl e \<Longrightarrow> e = AllocatorExhausted"
proof -
  have di: "dict_inv mx d" and su: "sorted_unique cmp (inorder (root d))"
    using inv by (auto simp: inv_unique_def)
  have sm: "sorted_multi cmp (inorder (root d))" using sorted_unique_multi[OF swo su] .
  show "Map_step mx cmp dflt d x = Inr d' \<Longrightarrow> inv_unique mx cmp d'"
  proof (cases x)
    case (MapEmplace k v)
    assume "Map_step mx cmp dflt d x = Inr d'"
    then obtain r where e: "Map_emplace mx cmp d k v = Inr (r, d')" using MapEmplace by (auto split: sum.splits)
    have "dict_inv mx d'" using Map_emplace_dict[OF swo di sm, of k v] e by auto
    then show ?thesis using Map_emplace_sorted(2)[OF swo di sm e su] by (simp add: inv_unique_def)
  next
    case (MapIndex k)
    assume "Map_step mx cmp dflt d x = Inr d'"
    then obtain r where e: "Map_index mx cmp dflt d k = Inr (r, d')" using MapIndex by (auto split: sum.splits)
    from Map_index_dict[OF swo di sm, of dflt k] e
    consider "d' = d" | x where "dict_inv mx d'" "\<forall>e\<in>set (inorder (root d)). \<not> equivalent cmp (ekey e) k"
      "inorder (root d') = ins_list cmp (x, k, dflt) (inorder (root d))" by auto
    then show ?thesis
    proof cases
      case 1
      then show ?thesis using inv by simp
    next
      case 2
      have "ekey (x, k, dflt) = k" by (simp add: ekey_def)
      then show ?thesis using sorted_unique_ins_list[OF swo su, of "(x, k, dflt)"] 2 by (simp add: inv_unique_def)
    qed
  next
    case (MapErase k)
    assume "Map_step mx cmp dflt d x = Inr d'"
    then show ?thesis using erase_step(2)[OF swo inv, of k] MapErase by (auto split: sum.splits)
  qed
  show "Map_step mx cmp dflt d x = Inl e \<Longrightarrow> e = AllocatorExhausted"
  proof (cases x)
    case (MapEmplace k v)
    assume "Map_step mx cmp dflt d x = Inl e"
    then show ?thesis using Map_emplace_dict[OF swo di sm, of k v] MapEmplace by (auto split: sum.splits)
  next
    case (MapIndex k)
    assume "Map_step mx cmp dflt d x = Inl e"
    then show ?thesis using Map_index_dict[OF swo di sm, of dflt k] MapIndex by (auto split: sum.splits)
  next
    case (MapErase k)
    assume "Map_step mx cmp dflt d x = Inl e"
    then show ?thesis using erase_step(2)[OF swo inv, of k] MapErase by (auto split: sum.splits)
  qed
qed

text \<open>Every run of operations on a new dictionary keeps the invariant.\<close>

lemma run_new_cases:
  assumes new: "\<exists>d0. AVLDictionary_new mx reserve_n = Inr (d0 :: ('k, 'w) AVLDictionary) \<and> P d0"
    and keep: "\<And>d x d'. P d \<Longrightarrow> step d x = Inr d' \<Longrightarrow> P d'"
    and err: "\<And>d x e. P d \<Longrightarrow> step d x = Inl e \<Longrightarrow> e = AllocatorExhausted"
  shows "case run_new mx reserve_n step ops of Inl e \<Rightarrow> e = AllocatorExhausted | Inr d \<Rightarrow> P d"
proof -
  obtain d0 where d0: "AVLDictionary_new mx reserve_n = Inr d0" "P d0" using new by blast
  show ?thesis
  proof (cases "run_ops step d0 ops")
    case (Inl e)
    then show ?thesis using run_ops_error[of P step d0 ops e] keep err d0 by (simp add: run_new_def)
  next
    case (Inr d)
    then show ?thesis using run_ops_invariant[of P step d0 ops d] keep d0 by (simp add: run_new_def)
  qed
qed

lemma new_inv_unique:
  assumes "0 < mx" "mx < 2 ^ 64" "reserve_n \<le> mx"
  shows "\<exists>d0. AVLDictionary_new mx reserve_n = Inr (d0 :: ('k, 'w) AVLDictionary) \<and> inv_unique mx cmp d0"
  using AVLDictionary_new_inv[OF assms, where ?'k = 'k and ?'v = 'w]
  by (auto simp: inv_unique_def sorted_unique_def)

lemma new_inv_multi:
  assumes "0 < mx" "mx < 2 ^ 64" "reserve_n \<le> mx"
  shows "\<exists>d0. AVLDictionary_new mx reserve_n = Inr (d0 :: ('k, 'w) AVLDictionary) \<and> inv_multi mx cmp d0"
  using AVLDictionary_new_inv[OF assms, where ?'k = 'k and ?'v = 'w]
  by (auto simp: inv_multi_def sorted_multi_def)

lemma Set_run_inv:
  assumes swo: "strict_weak_order cmp" and mx: "0 < mx" "mx < 2 ^ 64" "reserve_n \<le> mx"
    and run: "run_new mx reserve_n (Set_step mx cmp) ops = Inr d"
  shows "inv_unique mx cmp d"
  using run_new_cases[of mx reserve_n "inv_unique mx cmp" "Set_step mx cmp" ops,
      OF new_inv_unique[OF mx] Set_step_inv(1)[OF swo] Set_step_inv(2)[OF swo]] run
  by simp

lemma Multiset_run_inv:
  assumes swo: "strict_weak_order cmp" and mx: "0 < mx" "mx < 2 ^ 64" "reserve_n \<le> mx"
    and run: "run_new mx reserve_n (Multiset_step mx cmp) ops = Inr d"
  shows "inv_multi mx cmp d"
  using run_new_cases[of mx reserve_n "inv_multi mx cmp" "Multiset_step mx cmp" ops,
      OF new_inv_multi[OF mx] Multiset_step_inv(1)[OF swo] Multiset_step_inv(2)[OF swo]] run
  by simp

lemma Map_run_inv:
  assumes swo: "strict_weak_order cmp" and mx: "0 < mx" "mx < 2 ^ 64" "reserve_n \<le> mx"
    and run: "run_new mx reserve_n (Map_step mx cmp dflt) ops = Inr d"
  shows "inv_unique mx cmp d"
  using run_new_cases[of mx reserve_n "inv_unique mx cmp" "Map_step mx cmp dflt" ops,
      OF new_inv_unique[OF mx] Map_step_inv(1)[OF swo] Map_step_inv(2)[OF swo]] run
  by simp

lemma Multimap_run_inv:
  assumes swo: "strict_weak_order cmp" and mx: "0 < mx" "mx < 2 ^ 64" "reserve_n \<le> mx"
    and run: "run_new mx reserve_n (Multimap_step mx cmp) ops = Inr d"
  shows "inv_multi mx cmp d"
  using run_new_cases[of mx reserve_n "inv_multi mx cmp" "Multimap_step mx cmp" ops,
      OF new_inv_multi[OF mx] Multimap_step_inv(1)[OF swo] Multimap_step_inv(2)[OF swo]] run
  by simp

text \<open>The order of equivalent elements after a run of unconditional inserts.\<close>

lemma Multimap_run_order:
  assumes swo: "strict_weak_order cmp"
  shows "inv_multi mx cmp d \<Longrightarrow>
     run_ops (Multimap_step mx cmp) d (map (\<lambda>(k, v). MultimapEmplace k v) kvs) = Inr d' \<Longrightarrow>
     map snd (filter (\<lambda>e. equivalent cmp (ekey e) k0) (inorder (root d'))) =
       rev (filter (\<lambda>(k, v). equivalent cmp k k0) kvs) @
       map snd (filter (\<lambda>e. equivalent cmp (ekey e) k0) (inorder (root d)))"
proof (induction kvs arbitrary: d)
  case Nil
  then show ?case by simp
next
  case (Cons kv kvs)
  obtain k v where kv: "kv = (k, v)" by (cases kv)
  from Cons.prems(2) obtain d1 where st: "Multimap_step mx cmp d (MultimapEmplace k v) = Inr d1"
    and rest: "run_ops (Multimap_step mx cmp) d1 (map (\<lambda>(k, v). MultimapEmplace k v) kvs) = Inr d'"
    by (auto simp: kv split: sum.splits)
  have inv1: "inv_multi mx cmp d1" by (rule Multimap_step_inv(1)[OF swo Cons.prems(1) st])
  from Cons.prems(1) have inv: "dict_inv mx d" "sorted_multi cmp (inorder (root d))"
    by (simp_all add: inv_multi_def)
  from Multimap_emplace_dict[OF swo inv, of k v] st
  obtain x where io: "inorder (root d1) = ins_list cmp (x, k, v) (inorder (root d))"
    by (auto split: sum.splits)
  have ek: "ekey (x, k, v) = k" by (simp add: ekey_def)
  show ?case
    using Cons.IH[OF inv1 rest] filter_equivalent_ins_list[OF swo, of k0 "(x, k, v)" "inorder (root d)"]
    by (simp add: kv io ek)
qed

lemma Multiset_run_order:
  assumes swo: "strict_weak_order cmp"
  shows "inv_multi mx cmp d \<Longrightarrow>
     run_ops (Multiset_step mx cmp) d (map Emplace ks) = Inr d' \<Longrightarrow>
     map ekey (filter (\<lambda>e. equivalent cmp (ekey e) k0) (inorder (root d'))) =
       rev (filter (\<lambda>k. equivalent cmp k k0) ks) @
       map ekey (filter (\<lambda>e. equivalent cmp (ekey e) k0) (inorder (root d)))"
proof (induction ks arbitrary: d)
  case Nil
  then show ?case by simp
next
  case (Cons k ks)
  from Cons.prems(2) obtain d1 where st: "Multiset_step mx cmp d (Emplace k) = Inr d1"
    and rest: "run_ops (Multiset_step mx cmp) d1 (map Emplace ks) = Inr d'"
    by (auto split: sum.splits)
  have inv1: "inv_multi mx cmp d1" by (rule Multiset_step_inv(1)[OF swo Cons.prems(1) st])
  from Cons.prems(1) have inv: "dict_inv mx d" "sorted_multi cmp (inorder (root d))"
    by (simp_all add: inv_multi_def)
  from Multiset_emplace_dict[OF swo inv, of k] st
  obtain x where io: "inorder (root d1) = ins_list cmp (x, k, ()) (inorder (root d))"
    by (auto split: sum.splits)
  have ek: "ekey (x, k, ()) = k" by (simp add: ekey_def)
  show ?case
    using Cons.IH[OF inv1 rest] filter_equivalent_ins_list[OF swo, of k0 "(x, k, ())" "inorder (root d)"]
    by (simp add: io ek)
qed

text \<open>Inserting a key that is present, into a set and through \<open>operator[]\<close>.\<close>

lemma Set_emplace_full:
  "pool_full mx (pool d) \<Longrightarrow> Set_emplace mx cmp d k = Inl AllocatorExhausted"
  by (simp add: Set_emplace_def allocate_node_def allocate_def pool_full_def)

lemma Set_emplace_present:
  assumes swo: "strict_weak_order cmp" and inv: "dict_inv mx d"
    and srt: "sorted_unique cmp (inorder (root d))"
    and e: "e \<in> set (inorder (root d))" "equivalent cmp (ekey e) k"
    and nf: "\<not> pool_full mx (pool d)"
  shows "\<exists>c d1 d'. allocate_node mx d = Inr (c, d1) \<and> c \<notin> occupied (pool d) \<and>
           insert_if_not_exists cmp (root d1) \<lparr>idx = c, key = k, val = (), h = 0\<rparr> = Inr (root d, fst e) \<and>
           Set_emplace mx cmp d k = Inr (False, d') \<and> dict_inv mx d' \<and>
           root d' = root d \<and> size' d' = size' d \<and> occupied (pool d') = occupied (pool d) \<and>
           head (pool d') = c"
proof -
  note D = dict_inv_D[OF inv] and S = dict_inv_size[OF inv]
  have sm: "sorted_multi cmp (inorder (root d))" by (rule sorted_unique_multi[OF swo srt])
  let ?cand = "\<lambda>c. \<lparr>idx = c, key = k, val = (), h = 0\<rparr>"
  from allocate_node_full[OF inv] nf obtain c d1 where al: "allocate_node mx d = Inr (c, d1)"
    "pool_ok mx (pool d1)" "c \<notin> occupied (pool d)" "c \<notin> set (handles (root d))"
    "occupied (pool d1) = insert c (occupied (pool d))" "root d1 = root d" "size' d1 = size' d + 1"
    by auto
  obtain t' x where ins: "insert_if_not_exists cmp (root d) (?cand c) = Inr (t', x)"
    using insert_if_not_exists_avl[OF D(7) S(2), of "?cand c" cmp] by auto
  from insert_if_not_exists_inorder[OF swo sm ins]
  obtain e' where e': "e' \<in> set (inorder (root d))" "fst e' = x" "equivalent cmp (ekey e') k"
    using e by auto
  have "e' = e" by (rule sorted_unique_equivalent_unique[OF swo srt e'(1,3) e])
  then have x: "x = fst e" using e'(2) by simp
  have "x \<in> set (handles (root d))" using e'(1,2) by (auto simp: handles_def)
  then have xc: "x \<noteq> c" using al(4) by auto
  have t': "t' = root d"
    using insert_if_not_exists_found_same[OF D(7) S(2) ins] xc by simp
  have "\<exists>d'. deallocate_node mx (d1\<lparr>root := t'\<rparr>) c = Inr d' \<and> pool_ok mx (pool d') \<and>
           occupied (pool d') = occupied (pool (d1\<lparr>root := t'\<rparr>)) - {c} \<and> root d' = root (d1\<lparr>root := t'\<rparr>) \<and>
           size' d' = size' (d1\<lparr>root := t'\<rparr>) - 1 \<and> head (pool d') = c \<and>
           capacity (pool d') = capacity (pool (d1\<lparr>root := t'\<rparr>))"
    using al S(3) by (intro deallocate_node_ok) auto
  then obtain d' where de: "deallocate_node mx (d1\<lparr>root := t'\<rparr>) c = Inr d'"
    "occupied (pool d') = occupied (pool d1) - {c}" "root d' = t'" "size' d' = size' d1 - 1"
    "head (pool d') = c"
    by auto
  have se: "Set_emplace mx cmp d k = Inr (False, d')"
    using al(1,6) ins xc de(1) by (simp add: Set_emplace_def)
  have "dict_inv mx d'" using Set_emplace_dict[OF swo inv sm, of k] se by auto
  moreover have "occupied (pool d') = occupied (pool d)" using de(2) al(3,5) by auto
  ultimately show ?thesis using al(1,3,6,7) ins x t' se de by auto
qed

lemma Map_index_present:
  assumes swo: "strict_weak_order cmp" and inv: "dict_inv mx d"
    and srt: "sorted_unique cmp (inorder (root d))"
    and e: "e \<in> set (inorder (root d))" "equivalent cmp (ekey e) k"
  shows "Map_index mx cmp dflt d k = Inr ((fst e, snd (snd e)), d)"
proof -
  have sm: "sorted_multi cmp (inorder (root d))" by (rule sorted_unique_multi[OF swo srt])
  from Map_index_dict[OF swo inv sm, of dflt k] e
  obtain x k' v where m: "Map_index mx cmp dflt d k = Inr ((x, v), d)"
    "(x, k', v) \<in> set (inorder (root d))" "equivalent cmp k' k"
    by blast
  have "equivalent cmp (ekey (x, k', v)) k" using m(3) by (simp add: ekey_def)
  then have "(x, k', v) = e" by (rule sorted_unique_equivalent_unique[OF swo srt m(2) _ e])
  then show ?thesis using m(1) by auto
qed

text \<open>\<open>front()\<close> and \<open>back()\<close> return the ends of the traversal.\<close>

lemma inorder_Nil_iff [simp]: "inorder t = [] \<longleftrightarrow> t = nil"
  by (cases t) simp_all

lemma dirmost_L:
  "t \<noteq> nil \<Longrightarrow> \<exists>n. dirmost t L = Some n \<and> entry n = hd (inorder t)"
proof (induction t)
  case nil
  then show ?case by simp
next
  case (node l n r)
  show ?case
  proof (cases l)
    case nil
    then show ?thesis by (simp add: Let_def)
  next
    case (node ll m lr)
    then have ne: "inorder l \<noteq> []" by simp
    have dm: "dirmost (subtree.node l n r) L = dirmost l L" using node by (simp add: Let_def)
    have hd: "hd (inorder (subtree.node l n r)) = hd (inorder l)" using ne by (simp add: hd_append)
    from node.IH(1) node obtain k where "dirmost l L = Some k" "entry k = hd (inorder l)" by auto
    then show ?thesis unfolding dm hd by blast
  qed
qed

lemma dirmost_R:
  "t \<noteq> nil \<Longrightarrow> \<exists>n. dirmost t R = Some n \<and> entry n = last (inorder t)"
proof (induction t)
  case nil
  then show ?case by simp
next
  case (node l n r)
  show ?case
  proof (cases r)
    case nil
    then show ?thesis by (simp add: Let_def)
  next
    case (node rl m rr)
    then have ne: "inorder r \<noteq> []" by simp
    have dm: "dirmost (subtree.node l n r) R = dirmost r R" using node by (simp add: Let_def)
    have la: "last (inorder (subtree.node l n r)) = last (inorder r)" using ne by simp
    from node.IH(2) node obtain k where "dirmost r R = Some k" "entry k = last (inorder r)" by auto
    then show ?thesis unfolding dm la by blast
  qed
qed

lemma node_data_entry: "node_data n = snd (entry n)"
  by (simp add: node_data_def entry_def)

lemma front_hd: "root d \<noteq> nil \<Longrightarrow> front d = Some (snd (hd (inorder (root d))))"
  using dirmost_L[of "root d"] by (auto simp: front_def node_data_entry)

lemma back_last: "root d \<noteq> nil \<Longrightarrow> back' d = Some (snd (last (inorder (root d))))"
  using dirmost_R[of "root d"] by (auto simp: back'_def node_data_entry)

lemma sorted_multi_hd_least:
  assumes "strict_weak_order cmp" "sorted_multi cmp es" "e \<in> set es"
  shows "\<not> cmp (ekey e) (ekey (hd es))"
  using assms(2,3) swo_D(1)[OF assms(1)] by (cases es) (auto simp: sorted_multi_def)

lemma sorted_multi_last_greatest:
  assumes "strict_weak_order cmp" "sorted_multi cmp es" "e \<in> set es"
  shows "\<not> cmp (ekey (last es)) (ekey e)"
proof -
  from assms(3) have ne: "es \<noteq> []" by auto
  then obtain xs x where es: "es = xs @ [x]" by (metis append_butlast_last_id)
  show ?thesis using assms(2,3) swo_D(1)[OF assms(1)]
    by (auto simp: es sorted_multi_def sorted_wrt_append)
qed

lemma empty_dict_root: "dict_inv mx d \<Longrightarrow> empty_dict d \<longleftrightarrow> root d = nil"
  by (simp add: empty_dict_def size_of_def dict_inv_def)

text \<open>\<open>Map.alter_key\<close> when the new key collides with another element.\<close>

lemma distinct_entries:
  "distinct (handles t) \<Longrightarrow> distinct (inorder t)"
  by (simp add: handles_def distinct_map)

lemma Map_alter_key_collision:
  fixes d :: "('k, 'v) AVLDictionary"
  assumes swo: "strict_weak_order cmp" and inv: "dict_inv mx d"
    and srt: "sorted_unique cmp (inorder (root d))"
    and eo: "eo \<in> set (inorder (root d))" "equivalent cmp (ekey eo) old"
    and en: "en \<in> set (inorder (root d))" "equivalent cmp (ekey en) new" and ne: "en \<noteq> eo"
  shows "\<exists>d'. Map_alter_key mx cmp d old new = Inr ((True, True), d') \<and>
           dict_inv mx d' \<and> sorted_unique cmp (inorder (root d')) \<and>
           size' d' + 1 = size' d \<and>
           inorder (root d') =
             map (\<lambda>e. if e = en then (fst eo, new, snd (snd eo)) else e)
               (filter (\<lambda>e. e \<noteq> eo) (inorder (root d))) \<and>
           occupied (pool d') = occupied (pool d) - {fst en}"
proof -
  note D = dict_inv_D[OF inv] and Z = dict_inv_size[OF inv]
  have sm: "sorted_multi cmp (inorder (root d))" by (rule sorted_unique_multi[OF swo srt])
  have de: "distinct (inorder (root d))" by (rule distinct_entries[OF D(4)])
  \<comment> \<open>pull_out\<close>
  obtain t1 res where er: "erase_impl cmp (root d) old = Inr (t1, res)" and a1: "avl_stored t1"
    using erase_impl_avl[OF D(7) Z(2), of cmp old] by auto
  from erase_impl_inorder[OF swo sm er] eo
  obtain m xs ys where m: "res = Some m" "equivalent cmp (key m) old"
    "inorder (root d) = xs @ entry m # ys" "inorder t1 = xs @ ys"
    by blast
  have "entry m \<in> set (inorder (root d))" "equivalent cmp (ekey (entry m)) old"
    using m(2,3) by simp_all
  then have em: "entry m = eo" using sorted_unique_equivalent_unique[OF swo srt _ _ eo] by blast
  have po: "pull_out cmp d old = Inr (Some m, d\<lparr>root := t1\<rparr>)"
    using er m(1) by (simp add: pull_out_def)
  have io1: "inorder t1 = filter (\<lambda>e. e \<noteq> eo) (inorder (root d))"
    using filter_remove_distinct[of xs eo ys] de m(3,4) em by simp
  have su1: "sorted_unique cmp (inorder t1)" using sorted_unique_remove[of cmp xs "entry m" ys] srt m(3,4) by simp
  have sm1: "sorted_multi cmp (inorder t1)" by (rule sorted_unique_multi[OF swo su1])
  have en1: "en \<in> set (inorder t1)" using en(1) ne by (simp add: io1)
  have len1: "length (inorder t1) < 2 ^ 64" using Z(2) m(3,4) by simp
  \<comment> \<open>insert_or_replace\<close>
  let ?d1 = "d\<lparr>root := t1\<rparr>" and ?c = "m\<lparr>key := new\<rparr>"
  have ec: "entry ?c = (fst eo, new, snd (snd eo))" using em by (auto simp: entry_def)
  have kc: "key ?c = new" by simp
  have h1: "set (handles t1) \<subseteq> set (handles (root d))" using m(3,4) by (auto simp: handles_def)
  have dl: "\<forall>i\<in>set (handles t1). \<exists>d'. deallocate_node mx ?d1 i = Inr d'"
  proof
    fix i assume "i \<in> set (handles t1)"
    then have "i \<in> occupied (pool ?d1)" using h1 D(5) by auto
    moreover have "0 < size' ?d1" using D(6) m(3) by simp
    ultimately show "\<exists>d'. deallocate_node mx ?d1 i = Inr d'"
      using deallocate_node_ok[of mx ?d1 i] D(2) Z(3) D(6) by auto
  qed
  have hc: "h ?c = 0 \<or> (strict_weak_order cmp \<and> sorted_multi cmp (inorder t1) \<and>
               (\<exists>e\<in>set (inorder t1). equivalent cmp (ekey e) (key ?c)))"
    using swo sm1 en1 en(2) by auto
  from insert_or_replace_avl[OF a1 len1 dl hc] obtain d2 t2 b where
    r: "insert_or_replace mx cmp ?d1 t1 ?c = Inr (d2, t2, b)" "avl_stored t2" by auto
  from insert_or_replace_inorder[OF swo sm1 r(1)] en1 en(2)
  obtain m' xs' ys' where rep: "\<not> b" "equivalent cmp (key m') new" "inorder t1 = xs' @ entry m' # ys'"
    "inorder t2 = xs' @ entry ?c # ys'" "deallocate_node mx ?d1 (idx m') = Inr d2"
    unfolding kc by blast
  have "entry m' \<in> set (inorder t1)" "equivalent cmp (ekey (entry m')) new"
    using rep(2,3) by simp_all
  then have em': "entry m' = en" using sorted_unique_equivalent_unique[OF swo su1 _ _ en1 en(2)] by blast
  then have im': "idx m' = fst en" by (auto simp: entry_def)
  have ak: "Map_alter_key mx cmp d old new = Inr ((True, True), d2\<lparr>root := t2\<rparr>)"
    using po r(1) rep(1) by (simp add: Map_alter_key_def)
  \<comment> \<open>The resulting traversal\<close>
  have d1: "distinct (inorder t1)" using de by (simp add: io1)
  have io2: "inorder t2 = map (\<lambda>e. if e = en then (fst eo, new, snd (snd eo)) else e) (inorder t1)"
    using map_replace_distinct[of xs' en ys' "(fst eo, new, snd (snd eo))"] d1 rep(3,4) em' ec by simp
  have su2: "sorted_unique cmp (inorder t2)"
  proof -
    have "equivalent cmp (ekey (entry m')) (ekey (entry ?c))"
      using rep(2) by simp
    from sorted_unique_replace[OF swo _ this, of xs' ys'] su1 rep(3,4) show ?thesis by simp
  qed
  \<comment> \<open>The pool and the invariant\<close>
  have mo: "idx m' \<in> set (handles t1)" using rep(3) by (simp add: handles_def entry_def)
  then have mo': "idx m' \<in> occupied (pool ?d1)" "idx m' \<noteq> 0" using h1 D(5) by auto
  have sz: "0 < size' ?d1" "size' ?d1 \<le> mx" using D(6) m(3) Z(3) by simp_all
  from deallocate_node_ok[OF _ mo'(1) sz] D(2) rep(5)
  have d2: "pool_ok mx (pool d2)" "occupied (pool d2) = occupied (pool d) - {idx m'}"
    "size' d2 = size' d - 1" by auto
  have fo: "fst eo = idx m" using em by (auto simp: entry_def)
  have dh: "distinct (map fst (xs @ entry m # ys))" using D(4) m(3) by (simp add: handles_def)
  have dt1: "distinct (map fst (inorder t1))" using dh m(4) by auto
  have dh1: "distinct (map fst (xs' @ entry m' # ys'))" using dt1 rep(3) by simp
  define H where "H = fst ` (set xs' \<union> set ys')"
  have s1: "set (handles t1) = insert (idx m') H" using rep(3) by (auto simp: handles_def H_def entry_def)
  have s0: "set (handles (root d)) = insert (idx m) (set (handles t1))"
    using m(3,4) by (auto simp: handles_def entry_def)
  have n0: "idx m \<notin> set (handles t1)" using dh m(4) by (auto simp: handles_def entry_def)
  have n1: "idx m' \<notin> H" using dh1 by (auto simp: H_def entry_def)
  have s2: "set (handles t2) = insert (idx m) H" using rep(4) by (auto simp: handles_def H_def entry_def)
  have ht2: "handles t2 = map fst xs' @ idx m # map fst ys'"
    using rep(4) by (simp add: handles_def entry_def)
  have "idx m \<notin> H" using n0 s1 by simp
  then have "idx m \<notin> fst ` set xs'" "idx m \<notin> fst ` set ys'" by (auto simp: H_def)
  then have "distinct (handles t2)" unfolding ht2 using dh1 by simp
  moreover have "set (handles t2) = occupied (pool d2) - {0}"
  proof -
    have 1: "occupied (pool d) - {0} = insert (idx m) (insert (idx m') H)"
      using D(5) s0 s1 by simp
    have 2: "idx m \<noteq> idx m'" using n0 s1 by auto
    have "occupied (pool d) - {idx m'} - {0} = (occupied (pool d) - {0}) - {idx m'}" by auto
    also have "\<dots> = insert (idx m) H" unfolding 1 using 2 n1 by auto
    finally show ?thesis unfolding s2 d2(2) by simp
  qed
  moreover have "size' d2 = length (inorder t2)"
  proof -
    have "length (inorder t2) = length (inorder t1)" unfolding rep(3,4) by simp
    moreover have "length (inorder (root d)) = length (inorder t1) + 1" unfolding m(3,4) by simp
    ultimately show ?thesis using d2(3) D(6) by simp
  qed
  moreover have "0 \<in> occupied (pool d2)" using D(3) d2(2) mo'(2) by auto
  ultimately have inv2: "dict_inv mx (d2\<lparr>root := t2\<rparr>)"
    using D(1) d2(1) r(2) by (simp add: dict_inv_def)
  have "size' (d2\<lparr>root := t2\<rparr>) + 1 = size' d" using d2(3) D(6) m(3) by simp
  then show ?thesis using ak inv2 su2 io2 io1 d2(2) im'
    by (intro exI[of _ "d2\<lparr>root := t2\<rparr>"]) simp
qed

text \<open>Absent keys, and the only failure of the inserting operations.\<close>

lemma find_key_absent:
  "\<forall>e\<in>set (inorder t). \<not> equivalent cmp (ekey e) k \<Longrightarrow> find_key cmp t k = None"
proof (induction t)
  case nil
  then show ?case by simp
next
  case (node l n r)
  have "\<not> equivalent cmp (key n) k" using node.prems by simp
  then have ne: "\<not> (\<not> cmp (key n) k \<and> \<not> cmp k (key n))" by (simp add: equivalent_def)
  show ?case
  proof (cases "cmp (key n) k")
    case True
    then show ?thesis using node by (simp add: Let_def)
  next
    case False
    then show ?thesis using node ne by (simp add: Let_def)
  qed
qed

lemma Map_alter_key_absent:
  assumes swo: "strict_weak_order cmp" and inv: "dict_inv mx d"
    and srt: "sorted_multi cmp (inorder (root d))"
    and ab: "\<forall>e\<in>set (inorder (root d)). \<not> equivalent cmp (ekey e) old"
  shows "\<exists>d'. Map_alter_key mx cmp d old new = Inr ((False, False), d') \<and>
           inorder (root d') = inorder (root d) \<and> size' d' = size' d \<and> pool d' = pool d"
proof -
  note D = dict_inv_D[OF inv] and Z = dict_inv_size[OF inv]
  obtain t1 res where er: "erase_impl cmp (root d) old = Inr (t1, res)"
    using erase_impl_avl[OF D(7) Z(2), of cmp old] by auto
  from erase_impl_inorder[OF swo srt er] ab
  have "res = None" "inorder t1 = inorder (root d)" by auto
  then show ?thesis using er by (simp add: Map_alter_key_def pull_out_def)
qed

lemma emplace_fail:
  assumes swo: "strict_weak_order cmp" and inv: "dict_inv mx d"
    and srt: "sorted_multi cmp (inorder (root d))"
  shows "Map_emplace mx cmp d k v = Inl e \<Longrightarrow> e = AllocatorExhausted \<and> pool_full mx (pool d)"
    "Map_index mx cmp dflt d k = Inl e \<Longrightarrow> e = AllocatorExhausted \<and> pool_full mx (pool d)"
    "Multimap_emplace mx cmp d k v = Inl e \<Longrightarrow> e = AllocatorExhausted \<and> pool_full mx (pool d)"
proof -
  show "Map_emplace mx cmp d k v = Inl e \<Longrightarrow> e = AllocatorExhausted \<and> pool_full mx (pool d)"
    using Map_emplace_dict[OF swo inv srt, of k v] by auto
  show "Map_index mx cmp dflt d k = Inl e \<Longrightarrow> e = AllocatorExhausted \<and> pool_full mx (pool d)"
    using Map_index_dict[OF swo inv srt, of dflt k] by auto
  show "Multimap_emplace mx cmp d k v = Inl e \<Longrightarrow> e = AllocatorExhausted \<and> pool_full mx (pool d)"
    using Multimap_emplace_dict[OF swo inv srt, of k v] by auto
qed

lemma set_emplace_fail:
  assumes swo: "strict_weak_order cmp" and inv: "dict_inv mx d"
    and srt: "sorted_multi cmp (inorder (root d))"
  shows "Set_emplace mx cmp d k = Inl e \<Longrightarrow> e = AllocatorExhausted \<and> pool_full mx (pool d)"
    "Multiset_emplace mx cmp d k = Inl e \<Longrightarrow> e = AllocatorExhausted \<and> pool_full mx (pool d)"
proof -
  show "Set_emplace mx cmp d k = Inl e \<Longrightarrow> e = AllocatorExhausted \<and> pool_full mx (pool d)"
    using Set_emplace_dict[OF swo inv srt, of k] by auto
  show "Multiset_emplace mx cmp d k = Inl e \<Longrightarrow> e = AllocatorExhausted \<and> pool_full mx (pool d)"
    using Multiset_emplace_dict[OF swo inv srt, of k] by auto
qed

text \<open>\<open>clear()\<close> for the two kinds of node types.\<close>

lemma handles_node [simp]: "handles (node l n r) = handles l @ idx n # handles r"
  by (simp add: handles_def entry_def)

lemma handles_nil [simp]: "handles nil = []"
  by (simp add: handles_def)

lemma delete_subtree_ok:
  "pool_ok mx (pool d) \<Longrightarrow> set (handles t) \<subseteq> occupied (pool d) \<Longrightarrow> distinct (handles t) \<Longrightarrow>
   length (handles t) \<le> size' d \<Longrightarrow> size' d \<le> mx \<Longrightarrow>
   \<exists>d'. delete_subtree False mx d t = Inr d' \<and> pool_ok mx (pool d') \<and>
      occupied (pool d') = occupied (pool d) - set (handles t) \<and>
      size' d' + length (handles t) = size' d \<and> root d' = root d"
proof (induction t arbitrary: d)
  case nil
  then show ?case by simp
next
  case (node l n r)
  let ?hl = "handles l" and ?hr = "handles r"
  from node.prems have sub: "set ?hl \<subseteq> occupied (pool d)" "set ?hr \<subseteq> occupied (pool d)"
    "idx n \<in> occupied (pool d)"
    and dis: "distinct ?hl" "distinct ?hr" "idx n \<notin> set ?hl" "idx n \<notin> set ?hr" "set ?hl \<inter> set ?hr = {}"
    and len: "length ?hl + length ?hr + 1 \<le> size' d"
    by auto
  have "length ?hl \<le> size' d" using len by simp
  from node.IH(1)[OF node.prems(1) sub(1) dis(1) this node.prems(5)]
  obtain d1 where d1: "delete_subtree False mx d l = Inr d1" "pool_ok mx (pool d1)"
    "occupied (pool d1) = occupied (pool d) - set ?hl" "size' d1 + length ?hl = size' d" "root d1 = root d"
    by blast
  have s1: "set ?hr \<subseteq> occupied (pool d1)" using sub(2) dis(5) d1(3) by auto
  have l1: "length ?hr \<le> size' d1" "size' d1 \<le> mx" using len d1(4) node.prems(5) by simp_all
  from node.IH(2)[OF d1(2) s1 dis(2) l1]
  obtain d2 where d2: "delete_subtree False mx d1 r = Inr d2" "pool_ok mx (pool d2)"
    "occupied (pool d2) = occupied (pool d1) - set ?hr" "size' d2 + length ?hr = size' d1" "root d2 = root d1"
    by blast
  have o2: "idx n \<in> occupied (pool d2)" using sub(3) dis(3,4) d1(3) d2(3) by simp
  have z2: "0 < size' d2" "size' d2 \<le> mx" using len d1(4) d2(4) node.prems(5) by simp_all
  from deallocate_node_ok[OF d2(2) o2 z2]
  obtain d3 where d3: "deallocate_node mx d2 (idx n) = Inr d3" "pool_ok mx (pool d3)"
    "occupied (pool d3) = occupied (pool d2) - {idx n}" "root d3 = root d2" "size' d3 = size' d2 - 1"
    by blast
  have "delete_subtree False mx d (node l n r) = Inr d3" using d1(1) d2(1) d3(1) by simp
  moreover have "occupied (pool d3) = occupied (pool d) - set (handles (node l n r))"
    unfolding d3(3) d2(3) d1(3) by auto
  moreover have "size' d3 + length (handles (node l n r)) = size' d"
    using d3(5) z2(1) d2(4) d1(4) by simp
  moreover have "root d3 = root d" using d3(4) d2(5) d1(5) by simp
  ultimately show ?case using d3(2) by blast
qed

lemma clear_destructs:
  assumes inv: "dict_inv mx d"
  shows "\<exists>d'. clear False mx d = Inr d' \<and> dict_inv mx d' \<and> root d' = nil \<and> size' d' = 0 \<and>
           occupied (pool d') = {0}"
proof -
  note D = dict_inv_D[OF inv] and Z = dict_inv_size[OF inv]
  have len: "length (handles (root d)) \<le> size' d" using D(6) by (simp add: handles_def)
  have sub: "set (handles (root d)) \<subseteq> occupied (pool d)" using D(5) by auto
  have mx: "size' d \<le> mx" using Z(3) by simp
  from delete_subtree_ok[OF D(2) sub D(4) len mx]
  obtain d1 where d1: "delete_subtree False mx d (root d) = Inr d1" "pool_ok mx (pool d1)"
    "occupied (pool d1) = occupied (pool d) - set (handles (root d))"
    "size' d1 + length (handles (root d)) = size' d"
    by blast
  have c: "clear False mx d = Inr (d1\<lparr>root := nil\<rparr>)" using d1(1) by (simp add: clear_def)
  have o: "occupied (pool d1) = {0}" unfolding d1(3) D(5) using D(3) by auto
  have z: "size' d1 = 0" using d1(4) D(6) by (simp add: handles_def)
  have "dict_inv mx (d1\<lparr>root := nil\<rparr>)" using D(1) d1(2) o z by (simp add: dict_inv_def)
  then show ?thesis using c o z by simp
qed

lemma clear_trivial: "clear True mx d = Inr (d\<lparr>root := nil\<rparr>)"
  by (cases "root d") (simp_all add: clear_def)


subsection \<open>Traversals and filter\<close>

text \<open>The first element that satisfies the condition, as the traversals find it.\<close>

lemma find_append_cases:
  "find P (xs @ ys) = (case find P xs of None \<Rightarrow> find P ys | Some x \<Rightarrow> Some x)"
  by (induction xs) simp_all

lemma find_Some_split:
  "find P xs = Some x \<Longrightarrow> \<exists>ys zs. xs = ys @ x # zs \<and> P x \<and> (\<forall>y\<in>set ys. \<not> P y)"
proof (induction xs)
  case Nil
  then show ?case by simp
next
  case (Cons a xs)
  show ?case
  proof (cases "P a")
    case True
    then have "x = a" using Cons.prems by simp
    then show ?thesis using True by (intro exI[of _ "[]"] exI[of _ xs]) simp
  next
    case False
    then have "find P xs = Some x" using Cons.prems by simp
    from Cons.IH[OF this] obtain ys zs where "xs = ys @ x # zs" "P x" "\<forall>y\<in>set ys. \<not> P y" by blast
    then show ?thesis using False by (intro exI[of _ "a # ys"] exI[of _ zs]) simp
  qed
qed

lemma found_key_append:
  "found_key c (xs @ ys) s =
     (case found_key c xs s of
        (stop_repeating, s1) \<Rightarrow> (stop_repeating, s1)
      | (continue_repeating, s1) \<Rightarrow> found_key c ys s1)"
  by (simp add: found_key_def find_append_cases split: option.splits)

lemma found_key_Cons:
  "found_key c (entry n # ys) s =
     (case processor c n s of
        (stop_repeating, s1) \<Rightarrow> (stop_repeating, s1)
      | (continue_repeating, s1) \<Rightarrow> found_key c ys s1)"
  by (simp add: found_key_def processor_def node_data_entry split: option.splits)

lemma for_each_processor:
  "for_each t (processor c) s = found_key c (inorder t) s"
proof (induction t arbitrary: s)
  case nil
  then show ?case by (simp add: found_key_def)
next
  case (node l n r)
  show ?case
    by (simp add: node found_key_append found_key_Cons split: prod.splits repeating.splits)
qed

lemma foreach_since_upper_bound_processor:
  assumes swo: "strict_weak_order cmp"
  shows "sorted_multi cmp (inorder t) \<Longrightarrow>
     foreach_since_upper_bound cmp t k (processor c) s =
       found_key c (filter (\<lambda>e. cmp k (ekey e)) (inorder t)) s"
proof (induction t arbitrary: s)
  case nil
  then show ?case by (simp add: found_key_def)
next
  case (node l n r)
  note S = swo_D[OF swo]
  from node.prems have sl: "sorted_multi cmp (inorder l)" and sr: "sorted_multi cmp (inorder r)"
    and ln: "\<forall>e\<in>set (inorder l). \<not> cmp (key n) (ekey e)"
    and nr: "\<forall>e\<in>set (inorder r). \<not> cmp (ekey e) (key n)"
    by (auto simp: sorted_multi_def sorted_wrt_append)
  show ?case
  proof (cases "cmp k (key n)")
    case True
    have "cmp k (ekey e)" if "e \<in> set (inorder r)" for e
      using nr that True S(3)[of k "ekey e" "key n"] by blast
    then have fr: "filter (\<lambda>e. cmp k (ekey e)) (inorder r) = inorder r" by (simp add: filter_id_conv)
    have "filter (\<lambda>e. cmp k (ekey e)) (inorder (node l n r)) =
        filter (\<lambda>e. cmp k (ekey e)) (inorder l) @ entry n # inorder r"
      using True fr by simp
    then show ?thesis
      using True node.IH(1)[OF sl]
      by (simp add: found_key_append found_key_Cons for_each_processor
          split: prod.splits repeating.splits del: inorder.simps)
  next
    case False
    have "\<not> cmp k (ekey e)" if "e \<in> set (inorder l)" for e
      using ln that False S(3)[of k "key n" "ekey e"] by blast
    then have fl: "filter (\<lambda>e. cmp k (ekey e)) (inorder l) = []" by (simp add: filter_empty_conv)
    have "filter (\<lambda>e. cmp k (ekey e)) (inorder (node l n r)) = filter (\<lambda>e. cmp k (ekey e)) (inorder r)"
      using False fl by simp
    then show ?thesis using False node.IH(2)[OF sr] by (simp del: inorder.simps)
  qed
qed

lemma found_key_None:
  "snd (found_key c es None) = None \<longleftrightarrow> (\<forall>e\<in>set es. \<not> c (snd e))"
proof (cases "find (\<lambda>e. c (snd e)) es")
  case None
  then have "\<forall>e\<in>set es. \<not> c (snd e)" unfolding find_None_iff by blast
  then show ?thesis using None by (simp add: found_key_def)
next
  case (Some e)
  from find_Some_split[OF Some] have "e \<in> set es" "c (snd e)" by auto
  then show ?thesis using Some by (auto simp: found_key_def)
qed

lemma found_key_Some:
  assumes "snd (found_key c es None) = Some k"
  shows "\<exists>e r1 r2. es = r1 @ e # r2 \<and> c (snd e) \<and> (\<forall>y\<in>set r1. \<not> c (snd y)) \<and> k = ekey e"
proof -
  from assms obtain e where e: "find (\<lambda>e. c (snd e)) es = Some e" "k = ekey e"
    by (auto simp: found_key_def split: option.splits)
  from find_Some_split[OF e(1)] e(2) show ?thesis by blast
qed

lemma filter_loop_result:
  assumes swo: "strict_weak_order cmp"
  shows "dict_inv mx d \<Longrightarrow> sorted_unique cmp (inorder (root d)) \<Longrightarrow>
     inorder (root d) = pre @ rest \<Longrightarrow> (\<forall>e\<in>set pre. \<not> c (snd e)) \<Longrightarrow>
     key_opt = snd (found_key c rest None) \<Longrightarrow>
     \<exists>d'. filter_loop mx cmp c d key_opt = Some (Inr d') \<and> dict_inv mx d' \<and>
       sorted_unique cmp (inorder (root d')) \<and>
       inorder (root d') = pre @ filter (\<lambda>e. \<not> c (snd e)) rest"
proof (induction "length rest" arbitrary: d pre rest key_opt rule: less_induct)
  case less
  note S = swo_D[OF swo]
  note inv = less.prems(1) and su = less.prems(2) and io = less.prems(3) and np = less.prems(4)
    and ko = less.prems(5)
  show ?case
  proof (cases key_opt)
    case None
    then have "\<forall>e\<in>set rest. \<not> c (snd e)" using ko found_key_None[of c rest] by simp
    then have "filter (\<lambda>e. \<not> c (snd e)) rest = rest" by (simp add: filter_id_conv)
    moreover have "filter_loop mx cmp c d key_opt = Some (Inr d)"
      using None by (subst filter_loop.simps) simp
    ultimately show ?thesis using inv su io by simp
  next
    case (Some k)
    from found_key_Some[of c rest k] Some ko
    obtain e r1 r2 where r: "rest = r1 @ e # r2" "c (snd e)" "\<forall>y\<in>set r1. \<not> c (snd y)" "k = ekey e"
      by auto
    have sm: "sorted_multi cmp (inorder (root d))" by (rule sorted_unique_multi[OF swo su])
    have de: "distinct (inorder (root d))" by (rule distinct_entries[OF dict_inv_D(4)[OF inv]])
    have ein: "e \<in> set (inorder (root d))" using io r(1) by simp
    have eeq: "equivalent cmp (ekey e) k" using r(4) S(1) by (simp add: equivalent_def)
    from erase_dict[OF swo inv sm, of k]
    obtain b d1 where er: "erase mx cmp d k = Inr (b, d1)" and inv1: "dict_inv mx d1"
      and su1: "sorted_unique cmp (inorder (root d1))"
      and cs: "(\<not> b \<and> (\<forall>e\<in>set (inorder (root d)). \<not> equivalent cmp (ekey e) k)) \<or>
               (\<exists>e' xs ys. equivalent cmp (ekey e') k \<and> inorder (root d) = xs @ e' # ys \<and>
                  inorder (root d1) = xs @ ys)"
      using su by blast
    from cs ein eeq obtain e' xs ys where e': "equivalent cmp (ekey e') k"
      "inorder (root d) = xs @ e' # ys" "inorder (root d1) = xs @ ys"
      by blast
    have "e' \<in> set (inorder (root d))" using e'(2) by simp
    then have ee: "e' = e" by (rule sorted_unique_equivalent_unique[OF swo su _ e'(1) ein eeq])
    have "inorder (root d1) = filter (\<lambda>x. x \<noteq> e) (inorder (root d))"
      using filter_remove_distinct[of xs e ys] de e'(2,3) ee by simp
    also have "\<dots> = (pre @ r1) @ r2"
      using filter_remove_distinct[of "pre @ r1" e r2] de io r(1) by simp
    finally have io1: "inorder (root d1) = (pre @ r1) @ r2" .
    have srt: "sorted_wrt (\<lambda>a b. cmp (ekey a) (ekey b)) ((pre @ r1) @ e # r2)"
      using su io r(1) by (simp add: sorted_unique_def)
    have lo: "\<forall>x\<in>set (pre @ r1). cmp (ekey x) (ekey e)" and hi: "\<forall>y\<in>set r2. cmp (ekey e) (ekey y)"
      using srt unfolding sorted_wrt_append by auto
    have "\<forall>x\<in>set (pre @ r1). \<not> cmp k (ekey x)" using lo S(4) r(4) by blast
    then have f1: "filter (\<lambda>x. cmp k (ekey x)) (pre @ r1) = []" by (simp add: filter_empty_conv)
    have f2: "filter (\<lambda>x. cmp k (ekey x)) r2 = r2" using hi r(4) by (simp add: filter_id_conv)
    have sm1: "sorted_multi cmp (inorder (root d1))" by (rule sorted_unique_multi[OF swo su1])
    have f: "filter (\<lambda>x. cmp k (ekey x)) ((pre @ r1) @ r2) = r2"
      unfolding filter_append[of _ "pre @ r1" r2] f1 f2 by simp
    have fs: "foreach_since_upper_bound cmp (root d1) k (processor c) None = found_key c r2 None"
      unfolding foreach_since_upper_bound_processor[OF swo sm1] io1 f by (rule refl)
    have np1: "\<forall>e\<in>set (pre @ r1). \<not> c (snd e)" using np r(3) by auto
    have len: "length r2 < length rest" using r(1) by simp
    from less.hyps[OF len inv1 su1 io1 np1 refl]
    obtain d' where d': "filter_loop mx cmp c d1 (snd (found_key c r2 None)) = Some (Inr d')"
      "dict_inv mx d'" "sorted_unique cmp (inorder (root d'))"
      "inorder (root d') = (pre @ r1) @ filter (\<lambda>e. \<not> c (snd e)) r2"
      by blast
    have "filter_loop mx cmp c d key_opt = Some (Inr d')"
      using Some er fs d'(1) by (subst filter_loop.simps) simp
    moreover have "filter (\<lambda>e. \<not> c (snd e)) rest = r1 @ filter (\<lambda>e. \<not> c (snd e)) r2"
      using r(1,2,3) by (simp add: filter_id_conv)
    ultimately show ?thesis using d'(2,3,4) by simp
  qed
qed

lemma filter_dict_result:
  assumes swo: "strict_weak_order cmp" and inv: "dict_inv mx d"
    and su: "sorted_unique cmp (inorder (root d))"
  shows "\<exists>d'. filter_dict mx cmp c d = Some (Inr d') \<and> dict_inv mx d' \<and>
       sorted_unique cmp (inorder (root d')) \<and>
       inorder (root d') = filter (\<lambda>e. \<not> c (snd e)) (inorder (root d))"
  using filter_loop_result[OF swo inv su, of "[]" "inorder (root d)" c
      "snd (found_key c (inorder (root d)) None)"]
  by (simp add: filter_dict_def for_each_processor)

lemma filter_dict_noop:
  assumes "\<forall>e\<in>set (inorder (root d)). \<not> c (snd e)"
  shows "filter_dict mx cmp c d = Some (Inr d)"
proof -
  have "snd (found_key c (inorder (root d)) None) = None" using assms found_key_None by blast
  then show ?thesis unfolding filter_dict_def for_each_processor
    by (subst filter_loop.simps) simp
qed


subsection \<open>Where \<open>AllocatorExhausted\<close> comes from\<close>

text \<open>For every dictionary, with or without the invariant: the functions on trees never
  raise \<open>AllocatorExhausted\<close>, and an allocation raises it exactly on an exhausted pool.\<close>

lemma rotate_not_exhausted: "rotate t dir \<noteq> Inl AllocatorExhausted"
  by (cases t) (auto simp: Let_def split: subtree.splits)

lemma rebalance_not_exhausted: "rebalance_and_seth t \<noteq> Inl AllocatorExhausted"
proof (cases t)
  case nil
  then show ?thesis by simp
next
  case (node l n r)
  have "rotate_and_seth t dir \<noteq> Inl AllocatorExhausted" for dir
    using rotate_not_exhausted[of t dir] by (auto simp: rotate_and_seth_def split: sum.splits)
  then show ?thesis unfolding node
    by (auto simp: rebalance_and_seth.simps Let_def split: subtree.splits prod.splits)
qed

lemma rebalance_case_not_exhausted:
  "(case rebalance_and_seth t of Inl e \<Rightarrow> Inl e | Inr x \<Rightarrow> Inr (f x)) \<noteq> Inl AllocatorExhausted"
  using rebalance_not_exhausted[of t] by (auto split: sum.splits)

lemma pull_out_rightmost_not_exhausted: "pull_out_rightmost t \<noteq> Inl AllocatorExhausted"
proof (induction t)
  case nil
  then show ?case by simp
next
  case (node l n r)
  show ?case
  proof (cases r)
    case nil
    then show ?thesis by simp
  next
    case (node rl m rr)
    then show ?thesis using node.IH(2)
      by (auto simp: rebalance_not_exhausted split: sum.splits)
  qed
qed

lemma erase_impl_not_exhausted: "erase_impl cmp t k \<noteq> Inl AllocatorExhausted"
proof (induction t)
  case nil
  then show ?case by simp
next
  case (node l n r)
  show ?case
  proof (cases "\<not> cmp (key n) k \<and> \<not> cmp k (key n)")
    case True
    then show ?thesis
      by (cases l; cases r)
        (auto simp: Let_def rebalance_not_exhausted pull_out_rightmost_not_exhausted
          simp del: pull_out_rightmost.simps split: sum.splits)
  next
    case False
    then show ?thesis
      using node
      by (cases "cmp (key n) k") (auto simp: Let_def rebalance_not_exhausted split: sum.splits)
  qed
qed

lemma insert_node_not_exhausted: "insert_node cmp t c \<noteq> Inl AllocatorExhausted"
proof (induction t)
  case nil
  then show ?case by simp
next
  case (node l n r)
  then show ?case
    by (cases "cmp (key n) (key c)") (auto simp: Let_def rebalance_not_exhausted split: sum.splits)
qed

lemma insert_if_not_exists_not_exhausted: "insert_if_not_exists cmp t c \<noteq> Inl AllocatorExhausted"
proof (induction t)
  case nil
  then show ?case by simp
next
  case (node l n r)
  then show ?case
    by (cases "cmp (key n) (key c)") (auto simp: Let_def rebalance_not_exhausted split: sum.splits)
qed

lemma deallocate_node_not_exhausted: "deallocate_node mx d x \<noteq> Inl AllocatorExhausted"
  by (auto simp: deallocate_node_def destruct_and_deallocate_def elem_def split: sum.splits Elem.splits)

lemma insert_or_replace_not_exhausted: "insert_or_replace mx cmp d t c \<noteq> Inl AllocatorExhausted"
proof (induction t)
  case nil
  then show ?case by simp
next
  case (node l n r)
  show ?case
  proof (cases "\<not> cmp (key n) (key c) \<and> \<not> cmp (key c) (key n)")
    case True
    then show ?thesis using deallocate_node_not_exhausted[of mx d "idx n"]
      by (auto simp: Let_def split: sum.splits)
  next
    case False
    then show ?thesis using node
      by (cases "cmp (key n) (key c)") (auto simp: Let_def rebalance_not_exhausted split: sum.splits)
  qed
qed

lemma allocate_exhausted_iff: "allocate mx p = Inl AllocatorExhausted \<longleftrightarrow> pool_full mx p"
  by (auto simp: allocate_def pool_full_def ptr_def Let_def split: sum.splits if_splits Elem.splits)

lemma allocate_node_exhausted_iff:
  "allocate_node mx d = Inl AllocatorExhausted \<longleftrightarrow> pool_full mx (pool d)"
  using allocate_exhausted_iff[of mx "pool d"]
  by (auto simp: allocate_node_def construct_def split: sum.splits if_splits)

lemma emplace_if_not_exists_impl_exhausted:
  "emplace_if_not_exists_impl mx cmp dflt d t k = Inl AllocatorExhausted \<Longrightarrow> pool_full mx (pool d)"
proof (induction t)
  case nil
  then show ?case using allocate_node_exhausted_iff[of mx d] by (auto split: sum.splits)
next
  case (node l n r)
  show ?case
  proof (cases "\<not> cmp (key n) k \<and> \<not> cmp k (key n)")
    case True
    then show ?thesis using node.prems by (simp add: Let_def)
  next
    case False
    then show ?thesis using node
      by (cases "cmp (key n) k") (auto simp: Let_def rebalance_not_exhausted split: sum.splits)
  qed
qed

lemma erase_not_exhausted: "erase mx cmp d k \<noteq> Inl AllocatorExhausted"
  by (auto simp: erase_def erase_impl_not_exhausted deallocate_node_not_exhausted
      split: sum.splits option.splits)

lemma Map_alter_key_not_exhausted: "Map_alter_key mx cmp d old new \<noteq> Inl AllocatorExhausted"
  by (auto simp: Map_alter_key_def pull_out_def erase_impl_not_exhausted
      insert_or_replace_not_exhausted split: sum.splits option.splits)

lemma Multimap_alter_key_not_exhausted: "Multimap_alter_key cmp d old new \<noteq> Inl AllocatorExhausted"
  by (auto simp: Multimap_alter_key_def pull_out_def erase_impl_not_exhausted
      insert_node_not_exhausted split: sum.splits option.splits)

lemma Set_emplace_exhausted_iff:
  "Set_emplace mx cmp d k = Inl AllocatorExhausted \<longleftrightarrow> pool_full mx (pool d)"
  using allocate_node_exhausted_iff[of mx d]
  by (auto simp: Set_emplace_def insert_if_not_exists_not_exhausted
      deallocate_node_not_exhausted split: sum.splits if_splits)

lemma Multiset_emplace_exhausted_iff:
  "Multiset_emplace mx cmp d k = Inl AllocatorExhausted \<longleftrightarrow> pool_full mx (pool d)"
  using allocate_node_exhausted_iff[of mx d]
  by (auto simp: Multiset_emplace_def insert_node_not_exhausted split: sum.splits)

lemma Multimap_emplace_exhausted_iff:
  "Multimap_emplace mx cmp d k v = Inl AllocatorExhausted \<longleftrightarrow> pool_full mx (pool d)"
  using allocate_node_exhausted_iff[of mx d]
  by (auto simp: Multimap_emplace_def insert_node_not_exhausted split: sum.splits)

lemma Map_emplace_exhausted_iff:
  "Map_emplace mx cmp d k v = Inl AllocatorExhausted \<longleftrightarrow> pool_full mx (pool d)"
  using allocate_node_exhausted_iff[of mx d]
  by (auto simp: Map_emplace_def insert_or_replace_not_exhausted split: sum.splits)

lemma Map_index_exhausted:
  "Map_index mx cmp dflt d k = Inl AllocatorExhausted \<Longrightarrow> pool_full mx (pool d)"
  using emplace_if_not_exists_impl_exhausted[of mx cmp dflt d "root d" k]
  by (auto simp: Map_index_def emplace_if_not_exists_def split: sum.splits option.splits)


subsection \<open>A map that \<open>alter_key\<close> leaves outside the invariant\<close>

text \<open>
  \<open>pull_out\<close> resets the kids of the node it detaches, not its stored height, and
  \<open>alter_key\<close> reinserts the node as it is. After \<open>emplace\<close> of 22, 11, 10, 3, 15, 9,
  13, 4, 5 into a new map, \<open>alter_key(9, 0)\<close> returns (true, false) and leaves a root
  whose kids store the heights 0 and 4: the invariant is lost, and every later call of
  \<open>rebalance_and_seth\<close> on the root computes \<open>b = -2\<close>.
\<close>

lemma map_after_alter_key:
  "run_new 18446744073709551615 1 (Map_step 18446744073709551615 (<) ''z'')
      (map (\<lambda>k. MapEmplace k ''v'') [22, 11, 10, 3, 15, 9, 13, 4, 5::nat]) =
     Inr \<lparr>pool = \<lparr>data = [Val (), Val (), Val (), Val (), Val (), Val (), Val (), Val (), Val (), Val (),
                     Ptr 11, Ptr 12, Ptr 13, Ptr 14, Ptr 15, Ptr 16],
             capacity = 16, head = 10\<rparr>,
          root = node (node (node nil \<lparr>idx = 4, key = 3::nat, val = ''v'', h = 2\<rparr>
                          (node nil \<lparr>idx = 8, key = 4, val = ''v'', h = 1\<rparr>
                             (node nil \<lparr>idx = 9, key = 5, val = ''v'', h = 0\<rparr> nil)))
                    \<lparr>idx = 6, key = 9, val = ''v'', h = 3\<rparr>
                    (node nil \<lparr>idx = 3, key = 10, val = ''v'', h = 1\<rparr> nil))
               \<lparr>idx = 2, key = 11, val = ''v'', h = 4\<rparr>
               (node (node (node nil \<lparr>idx = 7, key = 13, val = ''v'', h = 0\<rparr> nil)
                        \<lparr>idx = 5, key = 15, val = ''v'', h = 1\<rparr> nil)
                  \<lparr>idx = 1, key = 22, val = ''v'', h = 2\<rparr> nil),
          size' = 9\<rparr>"
  "Map_alter_key 18446744073709551615 (<)
       \<lparr>pool = \<lparr>data = [Val (), Val (), Val (), Val (), Val (), Val (), Val (), Val (), Val (), Val (),
                     Ptr 11, Ptr 12, Ptr 13, Ptr 14, Ptr 15, Ptr 16],
             capacity = 16, head = 10\<rparr>,
          root = node (node (node nil \<lparr>idx = 4, key = 3::nat, val = ''v'', h = 2\<rparr>
                          (node nil \<lparr>idx = 8, key = 4, val = ''v'', h = 1\<rparr>
                             (node nil \<lparr>idx = 9, key = 5, val = ''v'', h = 0\<rparr> nil)))
                    \<lparr>idx = 6, key = 9, val = ''v'', h = 3\<rparr>
                    (node nil \<lparr>idx = 3, key = 10, val = ''v'', h = 1\<rparr> nil))
               \<lparr>idx = 2, key = 11, val = ''v'', h = 4\<rparr>
               (node (node (node nil \<lparr>idx = 7, key = 13, val = ''v'', h = 0\<rparr> nil)
                        \<lparr>idx = 5, key = 15, val = ''v'', h = 1\<rparr> nil)
                  \<lparr>idx = 1, key = 22, val = ''v'', h = 2\<rparr> nil),
          size' = 9\<rparr> 9 0 =
     Inr ((True, False),
       \<lparr>pool = \<lparr>data = [Val (), Val (), Val (), Val (), Val (), Val (), Val (), Val (), Val (), Val (),
                     Ptr 11, Ptr 12, Ptr 13, Ptr 14, Ptr 15, Ptr 16],
             capacity = 16, head = 10\<rparr>,
          root = node nil \<lparr>idx = 6, key = 0::nat, val = ''v'', h = 5\<rparr>
               (node (node (node nil \<lparr>idx = 4, key = 3, val = ''v'', h = 2\<rparr>
                              (node nil \<lparr>idx = 8, key = 4, val = ''v'', h = 1\<rparr> nil))
                        \<lparr>idx = 9, key = 5, val = ''v'', h = 3\<rparr>
                        (node nil \<lparr>idx = 3, key = 10, val = ''v'', h = 1\<rparr> nil))
                  \<lparr>idx = 2, key = 11, val = ''v'', h = 4\<rparr>
                  (node (node (node nil \<lparr>idx = 7, key = 13, val = ''v'', h = 0\<rparr> nil)
                           \<lparr>idx = 5, key = 15, val = ''v'', h = 1\<rparr> nil)
                     \<lparr>idx = 1, key = 22, val = ''v'', h = 2\<rparr> nil)),
          size' = 9\<rparr>)"
  "\<not> dict_inv 18446744073709551615
       \<lparr>pool = \<lparr>data = [Val (), Val (), Val (), Val (), Val (), Val (), Val (), Val (), Val (), Val (),
                     Ptr 11, Ptr 12, Ptr 13, Ptr 14, Ptr 15, Ptr 16],
             capacity = 16, head = 10\<rparr>,
          root = node nil \<lparr>idx = 6, key = 0::nat, val = ''v'', h = 5\<rparr>
               (node (node (node nil \<lparr>idx = 4, key = 3, val = ''v'', h = 2\<rparr>
                              (node nil \<lparr>idx = 8, key = 4, val = ''v'', h = 1\<rparr> nil))
                        \<lparr>idx = 9, key = 5, val = ''v'', h = 3\<rparr>
                        (node nil \<lparr>idx = 3, key = 10, val = ''v'', h = 1\<rparr> nil))
                  \<lparr>idx = 2, key = 11, val = ''v'', h = 4\<rparr>
                  (node (node (node nil \<lparr>idx = 7, key = 13, val = ''v'', h = 0\<rparr> nil)
                           \<lparr>idx = 5, key = 15, val = ''v'', h = 1\<rparr> nil)
                     \<lparr>idx = 1, key = 22, val = ''v'', h = 2\<rparr> nil)),
          size' = 9\<rparr>"
  by (simp_all add: run_simps dict_inv_def)


section \<open>Claim C9: index stability across arena growth\<close>

text \<open>
  C9. For a well-formed pool, a capacity growth triggered by \<open>allocate()\<close> or
  \<open>reserve_for(n)\<close> leaves every slot of the old arena as it was, at the same index: an
  occupied slot keeps its node, a free slot keeps its free-list successor. The capacity
  does not shrink, the slots of the newly added region are free and threaded in index
  order, \<open>reserve_for\<close> returns (it does not run forever) and leaves \<open>head\<close> alone.
\<close>

theorem pool_growth_index_stable:
  assumes wf: "pool_wf mx p fs"
  shows "(\<forall>x p'. allocate mx p = Inr (x, p') \<longrightarrow>
            capacity p \<le> capacity p' \<and> length (data p') = capacity p' \<and>
            (\<forall>i < capacity p. data p' ! i = data p ! i) \<and>
            (\<forall>i. capacity p \<le> i \<and> i < capacity p' \<longrightarrow> data p' ! i = Ptr (i + 1)))
       \<and> (\<exists>r. reserve_for mx p n = Some r \<and>
            (\<forall>p'. r = Inr p' \<longrightarrow>
               capacity p \<le> capacity p' \<and> length (data p') = capacity p' \<and> head p' = head p \<and>
               (\<forall>i < capacity p. data p' ! i = data p ! i) \<and>
               (\<forall>i. capacity p \<le> i \<and> i < capacity p' \<longrightarrow> data p' ! i = Ptr (i + 1))))"
proof (intro conjI allI impI)
  note W = pool_wf_D[OF wf]
  have grown_ok: "capacity p \<le> capacity (grown nc p) \<and> length (data (grown nc p)) = capacity (grown nc p) \<and>
      (\<forall>i < capacity p. data (grown nc p) ! i = data p ! i) \<and>
      (\<forall>i. capacity p \<le> i \<and> i < capacity (grown nc p) \<longrightarrow> data (grown nc p) ! i = Ptr (i + 1))"
    if "capacity p < nc" for nc
    using that W(1) nth_upt[of "capacity p" _ nc] by (auto simp: grown_def nth_append)
  { fix x p' assume a: "allocate mx p = Inr (x, p')"
    have "capacity p \<le> capacity p' \<and> length (data p') = capacity p' \<and>
            (\<forall>i < capacity p. data p' ! i = data p ! i) \<and>
            (\<forall>i. capacity p \<le> i \<and> i < capacity p' \<longrightarrow> data p' ! i = Ptr (i + 1))"
    proof (cases fs)
      case Nil
      have nmx: "capacity p \<noteq> mx" using a W(4) Nil by (auto simp: allocate_def)
      let ?nc = "if capacity p < mx div 2 then 2 * capacity p else mx"
      have "capacity p < ?nc" using W(2,3) nmx by auto
      from grown_ok[OF this] allocate_grow[OF wf[unfolded Nil] nmx] a show ?thesis by auto
    next
      case (Cons y ys)
      from allocate_pop[OF wf[unfolded Cons]] a W(1) show ?thesis by auto
    qed }
  then show "\<And>x p'. allocate mx p = Inr (x, p') \<Longrightarrow> capacity p \<le> capacity p'"
    "\<And>x p'. allocate mx p = Inr (x, p') \<Longrightarrow> length (data p') = capacity p'"
    "\<And>x p' i. allocate mx p = Inr (x, p') \<Longrightarrow> i < capacity p \<Longrightarrow> data p' ! i = data p ! i"
    "\<And>x p' i. allocate mx p = Inr (x, p') \<Longrightarrow> capacity p \<le> i \<and> i < capacity p' \<Longrightarrow> data p' ! i = Ptr (i + 1)"
    by blast+
  show "\<exists>r. reserve_for mx p n = Some r \<and>
            (\<forall>p'. r = Inr p' \<longrightarrow>
               capacity p \<le> capacity p' \<and> length (data p') = capacity p' \<and> head p' = head p \<and>
               (\<forall>i < capacity p. data p' ! i = data p ! i) \<and>
               (\<forall>i. capacity p \<le> i \<and> i < capacity p' \<longrightarrow> data p' ! i = Ptr (i + 1)))"
  proof (cases "n < capacity p")
    case True
    then show ?thesis using W(1) by (auto simp: reserve_for_def)
  next
    case False
    show ?thesis
    proof (cases "capacity p = mx")
      case True
      then show ?thesis using False by (simp add: reserve_for_def)
    next
      case nmx: False
      let ?nc = "max n (if capacity p < mx div 2 then 2 * capacity p else mx)"
      have "capacity p < ?nc" using W(2,3) nmx False by (auto simp: max_def)
      from grown_ok[OF this] reserve_for_grow[OF wf _ nmx, of n] False
      show ?thesis by (simp add: grown_def)
    qed
  qed
qed

theorem pool_growth_index_stable_witness:
  "pool_wf 255 \<lparr>data = [Val ()], capacity = 1, head = 1\<rparr> [] \<and>
   (\<exists>p'. allocate 255 \<lparr>data = [Val ()], capacity = 1, head = 1\<rparr> = Inr (1, p') \<and>
      capacity p' = 2 \<and> data p' ! 0 = Val ()) \<and>
   (\<exists>p'. reserve_for 255 \<lparr>data = [Val ()], capacity = 1, head = 1\<rparr> 5 = Some (Inr p') \<and>
      capacity p' = 5 \<and> head p' = 1 \<and> data p' ! 0 = Val ())"
proof -
  let ?P = "\<lparr>data = [Val ()], capacity = 1, head = 1\<rparr> :: unit AVLPoolAllocator"
  have wf: "pool_wf 255 ?P []" by (simp add: pool_wf_def)
  have a: "allocate 255 ?P = Inr (1, \<lparr>data = [Val (), Ptr 2], capacity = 2, head = 2\<rparr>)"
    by (simp add: allocate_def ptr_def upt_rec)
  have r: "reserve_for 255 ?P 5 = Some (Inr (grown 5 ?P))"
    using reserve_for_grow[OF wf, of 5] by simp
  from pool_growth_index_stable[OF wf, of 5] a r wf show ?thesis
    by (simp add: grown_def)
qed


section \<open>Claim C1: balance and order after every operation\<close>

text \<open>
  C1 does not hold of the code. \<open>seth\<close> gives a node without kids the height 1, but
  every node is allocated with the stored height 0, the height of the sentinel, and
  \<open>insert\<close> links it without calling \<open>seth\<close>: a set holding one key has a root that
  stores 0, not 1 + max(0, 0). The heights that \<open>rebalance_and_seth\<close> compares are the
  stored ones, so after the keys 1, 2, 3 the tree is a chain to the right, whose subtrees
  differ by 2 in real height.
\<close>

theorem stored_height_of_fresh_leaf_is_zero:
  "run_new 18446744073709551615 1 (Set_step 18446744073709551615 (<)) [Emplace (1::nat)] =
     Inr \<lparr>pool = \<lparr>data = [Val (), Val ()], capacity = 2, head = 2\<rparr>,
          root = node nil \<lparr>idx = 1, key = 1, val = (), h = 0\<rparr> nil, size' = 1\<rparr>
   \<and> \<not> avl_spec (node nil \<lparr>idx = 1, key = 1::nat, val = (), h = 0\<rparr> nil)
   \<and> run_new 18446744073709551615 1 (Set_step 18446744073709551615 (<))
        [Emplace (1::nat), Emplace 2, Emplace 3] =
     Inr \<lparr>pool = \<lparr>data = [Val (), Val (), Val (), Val ()], capacity = 4, head = 4\<rparr>,
          root = node nil \<lparr>idx = 1, key = 1, val = (), h = 2\<rparr>
                   (node nil \<lparr>idx = 2, key = 2, val = (), h = 1\<rparr>
                      (node nil \<lparr>idx = 3, key = 3, val = (), h = 0\<rparr> nil)), size' = 3\<rparr>
   \<and> \<not> height_balanced (node nil \<lparr>idx = 1, key = 1::nat, val = (), h = 2\<rparr>
                   (node nil \<lparr>idx = 2, key = 2, val = (), h = 1\<rparr>
                      (node nil \<lparr>idx = 3, key = 3, val = (), h = 0\<rparr> nil)))"
  by (simp add: run_simps)

text \<open>
  C1, what the code guarantees. For a strict weak order, an index type with maximum \<open>mx\<close> below \<open>2^64\<close>
  and every sequence of emplace/insert, \<open>operator[]\<close> and erase operations on a new Set,
  Multiset, Map or Multimap: if the sequence returns, the dictionary satisfies
  \<open>dict_inv\<close> (the handles of the tree are exactly the occupied slots, \<open>size'\<close> is
  the number of nodes) and the balance invariant on stored heights \<open>avl_stored\<close>: at
  every node the stored heights of the two kids differ by at most 1, and the stored height
  is 1 + their maximum, or it is 0 at a node without kids. The in-order traversal is
  strictly increasing for Set and Map and non-decreasing for Multiset and Multimap. A
  sequence that does not return failed with \<open>AllocatorExhausted\<close>; no assertion of
  \<open>rebalance_and_seth\<close> fails and no stored height wraps around.
\<close>

theorem stored_balance_and_order_after_every_operation:
  assumes swo: "strict_weak_order cmp" and mx: "0 < mx" "mx < 2 ^ 64" "reserve_n \<le> mx"
  shows "(\<forall>ops. case run_new mx reserve_n (Set_step mx cmp) ops of
             Inl e \<Rightarrow> e = AllocatorExhausted
           | Inr d \<Rightarrow> dict_inv mx d \<and> avl_stored (root d) \<and> sorted_unique cmp (inorder (root d)))
       \<and> (\<forall>ops. case run_new mx reserve_n (Multiset_step mx cmp) ops of
             Inl e \<Rightarrow> e = AllocatorExhausted
           | Inr d \<Rightarrow> dict_inv mx d \<and> avl_stored (root d) \<and> sorted_multi cmp (inorder (root d)))
       \<and> (\<forall>ops. case run_new mx reserve_n (Map_step mx cmp (dflt :: 'v)) ops of
             Inl e \<Rightarrow> e = AllocatorExhausted
           | Inr d \<Rightarrow> dict_inv mx d \<and> avl_stored (root d) \<and> sorted_unique cmp (inorder (root d)))
       \<and> (\<forall>ops. case run_new mx reserve_n (Multimap_step mx cmp) ops of
             Inl e \<Rightarrow> e = AllocatorExhausted
           | Inr (d :: ('k, 'v) AVLDictionary) \<Rightarrow>
               dict_inv mx d \<and> avl_stored (root d) \<and> sorted_multi cmp (inorder (root d)))"
proof -
  have new_u: "\<exists>d0. AVLDictionary_new mx reserve_n = Inr (d0 :: ('k, 'w) AVLDictionary) \<and> inv_unique mx cmp d0"
    using AVLDictionary_new_inv[OF mx, where ?'k = 'k and ?'v = 'w]
    by (auto simp: inv_unique_def sorted_unique_def)
  have new_m: "\<exists>d0. AVLDictionary_new mx reserve_n = Inr (d0 :: ('k, 'w) AVLDictionary) \<and> inv_multi mx cmp d0"
    using AVLDictionary_new_inv[OF mx, where ?'k = 'k and ?'v = 'w]
    by (auto simp: inv_multi_def sorted_multi_def)
  have gen: "case run_new mx reserve_n step ops of
               Inl e \<Rightarrow> e = AllocatorExhausted | Inr d \<Rightarrow> P d"
    if new: "\<exists>d0. AVLDictionary_new mx reserve_n = Inr (d0 :: ('k, 'w) AVLDictionary) \<and> P d0"
      and keep: "\<And>d x d'. P d \<Longrightarrow> step d x = Inr d' \<Longrightarrow> P d'"
      and err: "\<And>d x e. P d \<Longrightarrow> step d x = Inl e \<Longrightarrow> e = AllocatorExhausted"
    for step :: "('k, 'w) AVLDictionary \<Rightarrow> 'o \<Rightarrow> error + ('k, 'w) AVLDictionary" and P ops
  proof -
    obtain d0 where d0: "AVLDictionary_new mx reserve_n = Inr d0" "P d0" using new by blast
    show ?thesis
    proof (cases "run_ops step d0 ops")
      case (Inl e)
      then show ?thesis using run_ops_error[of P step d0 ops e] keep err d0 by (simp add: run_new_def)
    next
      case (Inr d)
      then show ?thesis using run_ops_invariant[of P step d0 ops d] keep d0 by (simp add: run_new_def)
    qed
  qed
  have u: "inv_unique mx cmp d \<Longrightarrow>
      dict_inv mx d \<and> avl_stored (root d) \<and> sorted_unique cmp (inorder (root d))"
    for d :: "('k, 'w) AVLDictionary"
    by (simp add: inv_unique_def dict_inv_def)
  have m: "inv_multi mx cmp d \<Longrightarrow>
      dict_inv mx d \<and> avl_stored (root d) \<and> sorted_multi cmp (inorder (root d))"
    for d :: "('k, 'w) AVLDictionary"
    by (simp add: inv_multi_def dict_inv_def)
  have s1: "case run_new mx reserve_n (Set_step mx cmp) ops of
             Inl e \<Rightarrow> e = AllocatorExhausted | Inr d \<Rightarrow> inv_unique mx cmp d" for ops
    by (rule gen[OF new_u]) (erule (1) Set_step_inv(1)[OF swo], erule (1) Set_step_inv(2)[OF swo])
  have s2: "case run_new mx reserve_n (Multiset_step mx cmp) ops of
             Inl e \<Rightarrow> e = AllocatorExhausted | Inr d \<Rightarrow> inv_multi mx cmp d" for ops
    by (rule gen[OF new_m]) (erule (1) Multiset_step_inv(1)[OF swo], erule (1) Multiset_step_inv(2)[OF swo])
  have s3: "case run_new mx reserve_n (Map_step mx cmp dflt) ops of
             Inl e \<Rightarrow> e = AllocatorExhausted | Inr d \<Rightarrow> inv_unique mx cmp d" for ops
    by (rule gen[OF new_u]) (erule (1) Map_step_inv(1)[OF swo], erule (1) Map_step_inv(2)[OF swo])
  have s4: "case run_new mx reserve_n (Multimap_step mx cmp) ops of
             Inl e \<Rightarrow> e = AllocatorExhausted
           | Inr (d :: ('k, 'v) AVLDictionary) \<Rightarrow> inv_multi mx cmp d" for ops
    by (rule gen[OF new_m]) (erule (1) Multimap_step_inv(1)[OF swo], erule (1) Multimap_step_inv(2)[OF swo])
  show ?thesis
  proof (intro conjI allI)
    fix ops show "case run_new mx reserve_n (Set_step mx cmp) ops of
             Inl e \<Rightarrow> e = AllocatorExhausted
           | Inr d \<Rightarrow> dict_inv mx d \<and> avl_stored (root d) \<and> sorted_unique cmp (inorder (root d))"
      using s1[of ops] u by (auto split: sum.splits)
  next
    fix ops show "case run_new mx reserve_n (Multiset_step mx cmp) ops of
             Inl e \<Rightarrow> e = AllocatorExhausted
           | Inr d \<Rightarrow> dict_inv mx d \<and> avl_stored (root d) \<and> sorted_multi cmp (inorder (root d))"
      using s2[of ops] m by (auto split: sum.splits)
  next
    fix ops show "case run_new mx reserve_n (Map_step mx cmp dflt) ops of
             Inl e \<Rightarrow> e = AllocatorExhausted
           | Inr d \<Rightarrow> dict_inv mx d \<and> avl_stored (root d) \<and> sorted_unique cmp (inorder (root d))"
      using s3[of ops] u by (auto split: sum.splits)
  next
    fix ops show "case run_new mx reserve_n (Multimap_step mx cmp) ops of
             Inl e \<Rightarrow> e = AllocatorExhausted
           | Inr (d :: ('k, 'v) AVLDictionary) \<Rightarrow>
               dict_inv mx d \<and> avl_stored (root d) \<and> sorted_multi cmp (inorder (root d))"
      using s4[of ops] m by (auto split: sum.splits)
  qed
qed

theorem stored_balance_and_order_after_every_operation_witness:
  "strict_weak_order ((<) :: nat \<Rightarrow> nat \<Rightarrow> bool)
   \<and> (0::nat) < 18446744073709551615 \<and> (18446744073709551615::nat) < 2 ^ 64
   \<and> (1::nat) \<le> 18446744073709551615
   \<and> run_new 18446744073709551615 1 (Set_step 18446744073709551615 (<))
        [Emplace (1::nat), Emplace 2, Emplace 3, Erase 4] =
     Inr \<lparr>pool = \<lparr>data = [Val (), Val (), Val (), Val ()], capacity = 4, head = 4\<rparr>,
          root = node (node nil \<lparr>idx = 1, key = 1, val = (), h = 1\<rparr> nil)
                   \<lparr>idx = 2, key = 2, val = (), h = 2\<rparr>
                   (node nil \<lparr>idx = 3, key = 3, val = (), h = 1\<rparr> nil), size' = 3\<rparr>
   \<and> dict_inv 18446744073709551615
       \<lparr>pool = \<lparr>data = [Val (), Val (), Val (), Val ()], capacity = 4, head = 4\<rparr>,
          root = node (node nil \<lparr>idx = 1, key = 1::nat, val = (), h = 1\<rparr> nil)
                   \<lparr>idx = 2, key = 2, val = (), h = 2\<rparr>
                   (node nil \<lparr>idx = 3, key = 3, val = (), h = 1\<rparr> nil), size' = 3\<rparr>
   \<and> sorted_unique (<) (inorder (node (node nil \<lparr>idx = 1, key = 1::nat, val = (), h = 1\<rparr> nil)
                   \<lparr>idx = 2, key = 2, val = (), h = 2\<rparr>
                   (node nil \<lparr>idx = 3, key = 3, val = (), h = 1\<rparr> nil)))"
proof -
  have run: "run_new 18446744073709551615 1 (Set_step 18446744073709551615 (<))
        [Emplace (1::nat), Emplace 2, Emplace 3, Erase 4] =
     Inr \<lparr>pool = \<lparr>data = [Val (), Val (), Val (), Val ()], capacity = 4, head = 4\<rparr>,
          root = node (node nil \<lparr>idx = 1, key = 1, val = (), h = 1\<rparr> nil)
                   \<lparr>idx = 2, key = 2, val = (), h = 2\<rparr>
                   (node nil \<lparr>idx = 3, key = 3, val = (), h = 1\<rparr> nil), size' = 3\<rparr>"
    by (simp add: run_simps)
  have "\<forall>ops. case run_new 18446744073709551615 1 (Set_step 18446744073709551615 ((<) :: nat \<Rightarrow> nat \<Rightarrow> bool)) ops of
             Inl e \<Rightarrow> e = AllocatorExhausted
           | Inr d \<Rightarrow> dict_inv 18446744073709551615 d \<and> avl_stored (root d) \<and> sorted_unique (<) (inorder (root d))"
    using stored_balance_and_order_after_every_operation
      [OF less_nat_strict_weak_order, where mx = 18446744073709551615 and reserve_n = 1 and dflt = "()"]
    by simp
  from this[rule_format, of "[Emplace 1, Emplace 2, Emplace 3, Erase 4]"] run
  show ?thesis by (simp add: less_nat_strict_weak_order)
qed


section \<open>Claim C2: erase\<close>

text \<open>
  C2 does not hold of the code, at two kinds of inputs.

  \<^item> \<open>erase\<close> of a key that is not present returns false and keeps size and traversal,
    but it does not leave the tree structure unchanged: \<open>erase_impl\<close> calls
    \<open>rebalance_and_seth\<close> on every node of the search path also when nothing was found,
    and a leaf that still stores the height 0 of its allocation then gets the height 1,
    which can start a rotation. In the set built from 1, 2, 3 (a chain to the right with
    root 1), erasing the absent key 4 makes 2 the root.
  \<^item> In the map that \<open>alter_key(9, 0)\<close> leaves after \<open>emplace\<close> of 22, 11, 10, 3, 15,
    9, 13, 4, 5, \<open>erase(50)\<close> of an absent key and \<open>erase(13)\<close> of a present key
    fail the assertion of \<open>rebalance_and_seth\<close> instead of returning false and true.
\<close>

theorem erase_absent_key_rotates:
  "run_new 18446744073709551615 1 (Set_step 18446744073709551615 (<))
        [Emplace (1::nat), Emplace 2, Emplace 3] =
     Inr \<lparr>pool = \<lparr>data = [Val (), Val (), Val (), Val ()], capacity = 4, head = 4\<rparr>,
          root = node nil \<lparr>idx = 1, key = 1, val = (), h = 2\<rparr>
                   (node nil \<lparr>idx = 2, key = 2, val = (), h = 1\<rparr>
                      (node nil \<lparr>idx = 3, key = 3, val = (), h = 0\<rparr> nil)), size' = 3\<rparr>
   \<and> find_key (<) (node nil \<lparr>idx = 1, key = 1::nat, val = (), h = 2\<rparr>
                   (node nil \<lparr>idx = 2, key = 2, val = (), h = 1\<rparr>
                      (node nil \<lparr>idx = 3, key = 3, val = (), h = 0\<rparr> nil))) 4 = None
   \<and> erase 18446744073709551615 (<)
       \<lparr>pool = \<lparr>data = [Val (), Val (), Val (), Val ()], capacity = 4, head = 4\<rparr>,
          root = node nil \<lparr>idx = 1, key = 1::nat, val = (), h = 2\<rparr>
                   (node nil \<lparr>idx = 2, key = 2, val = (), h = 1\<rparr>
                      (node nil \<lparr>idx = 3, key = 3, val = (), h = 0\<rparr> nil)), size' = 3\<rparr> 4 =
     Inr (False,
       \<lparr>pool = \<lparr>data = [Val (), Val (), Val (), Val ()], capacity = 4, head = 4\<rparr>,
          root = node (node nil \<lparr>idx = 1, key = 1, val = (), h = 1\<rparr> nil)
                   \<lparr>idx = 2, key = 2, val = (), h = 2\<rparr>
                   (node nil \<lparr>idx = 3, key = 3, val = (), h = 1\<rparr> nil), size' = 3\<rparr>)
   \<and> node (node nil \<lparr>idx = 1, key = 1::nat, val = (), h = 1\<rparr> nil)
                   \<lparr>idx = 2, key = 2, val = (), h = 2\<rparr>
                   (node nil \<lparr>idx = 3, key = 3, val = (), h = 1\<rparr> nil)
       \<noteq> node nil \<lparr>idx = 1, key = 1, val = (), h = 2\<rparr>
                   (node nil \<lparr>idx = 2, key = 2, val = (), h = 1\<rparr>
                      (node nil \<lparr>idx = 3, key = 3, val = (), h = 0\<rparr> nil))
   \<and> run_new 18446744073709551615 1 (Map_step 18446744073709551615 (<) ''z'')
      (map (\<lambda>k. MapEmplace k ''v'') [22, 11, 10, 3, 15, 9, 13, 4, 5::nat]) =
     Inr \<lparr>pool = \<lparr>data = [Val (), Val (), Val (), Val (), Val (), Val (), Val (), Val (), Val (), Val (),
                     Ptr 11, Ptr 12, Ptr 13, Ptr 14, Ptr 15, Ptr 16],
             capacity = 16, head = 10\<rparr>,
          root = node (node (node nil \<lparr>idx = 4, key = 3::nat, val = ''v'', h = 2\<rparr>
                          (node nil \<lparr>idx = 8, key = 4, val = ''v'', h = 1\<rparr>
                             (node nil \<lparr>idx = 9, key = 5, val = ''v'', h = 0\<rparr> nil)))
                    \<lparr>idx = 6, key = 9, val = ''v'', h = 3\<rparr>
                    (node nil \<lparr>idx = 3, key = 10, val = ''v'', h = 1\<rparr> nil))
               \<lparr>idx = 2, key = 11, val = ''v'', h = 4\<rparr>
               (node (node (node nil \<lparr>idx = 7, key = 13, val = ''v'', h = 0\<rparr> nil)
                        \<lparr>idx = 5, key = 15, val = ''v'', h = 1\<rparr> nil)
                  \<lparr>idx = 1, key = 22, val = ''v'', h = 2\<rparr> nil),
          size' = 9\<rparr>
   \<and> Map_alter_key 18446744073709551615 (<)
       \<lparr>pool = \<lparr>data = [Val (), Val (), Val (), Val (), Val (), Val (), Val (), Val (), Val (), Val (),
                     Ptr 11, Ptr 12, Ptr 13, Ptr 14, Ptr 15, Ptr 16],
             capacity = 16, head = 10\<rparr>,
          root = node (node (node nil \<lparr>idx = 4, key = 3::nat, val = ''v'', h = 2\<rparr>
                          (node nil \<lparr>idx = 8, key = 4, val = ''v'', h = 1\<rparr>
                             (node nil \<lparr>idx = 9, key = 5, val = ''v'', h = 0\<rparr> nil)))
                    \<lparr>idx = 6, key = 9, val = ''v'', h = 3\<rparr>
                    (node nil \<lparr>idx = 3, key = 10, val = ''v'', h = 1\<rparr> nil))
               \<lparr>idx = 2, key = 11, val = ''v'', h = 4\<rparr>
               (node (node (node nil \<lparr>idx = 7, key = 13, val = ''v'', h = 0\<rparr> nil)
                        \<lparr>idx = 5, key = 15, val = ''v'', h = 1\<rparr> nil)
                  \<lparr>idx = 1, key = 22, val = ''v'', h = 2\<rparr> nil),
          size' = 9\<rparr> 9 0 =
     Inr ((True, False),
       \<lparr>pool = \<lparr>data = [Val (), Val (), Val (), Val (), Val (), Val (), Val (), Val (), Val (), Val (),
                     Ptr 11, Ptr 12, Ptr 13, Ptr 14, Ptr 15, Ptr 16],
             capacity = 16, head = 10\<rparr>,
          root = node nil \<lparr>idx = 6, key = 0::nat, val = ''v'', h = 5\<rparr>
               (node (node (node nil \<lparr>idx = 4, key = 3, val = ''v'', h = 2\<rparr>
                              (node nil \<lparr>idx = 8, key = 4, val = ''v'', h = 1\<rparr> nil))
                        \<lparr>idx = 9, key = 5, val = ''v'', h = 3\<rparr>
                        (node nil \<lparr>idx = 3, key = 10, val = ''v'', h = 1\<rparr> nil))
                  \<lparr>idx = 2, key = 11, val = ''v'', h = 4\<rparr>
                  (node (node (node nil \<lparr>idx = 7, key = 13, val = ''v'', h = 0\<rparr> nil)
                           \<lparr>idx = 5, key = 15, val = ''v'', h = 1\<rparr> nil)
                     \<lparr>idx = 1, key = 22, val = ''v'', h = 2\<rparr> nil)),
          size' = 9\<rparr>)
   \<and> \<not> dict_inv 18446744073709551615
       \<lparr>pool = \<lparr>data = [Val (), Val (), Val (), Val (), Val (), Val (), Val (), Val (), Val (), Val (),
                     Ptr 11, Ptr 12, Ptr 13, Ptr 14, Ptr 15, Ptr 16],
             capacity = 16, head = 10\<rparr>,
          root = node nil \<lparr>idx = 6, key = 0::nat, val = ''v'', h = 5\<rparr>
               (node (node (node nil \<lparr>idx = 4, key = 3, val = ''v'', h = 2\<rparr>
                              (node nil \<lparr>idx = 8, key = 4, val = ''v'', h = 1\<rparr> nil))
                        \<lparr>idx = 9, key = 5, val = ''v'', h = 3\<rparr>
                        (node nil \<lparr>idx = 3, key = 10, val = ''v'', h = 1\<rparr> nil))
                  \<lparr>idx = 2, key = 11, val = ''v'', h = 4\<rparr>
                  (node (node (node nil \<lparr>idx = 7, key = 13, val = ''v'', h = 0\<rparr> nil)
                           \<lparr>idx = 5, key = 15, val = ''v'', h = 1\<rparr> nil)
                     \<lparr>idx = 1, key = 22, val = ''v'', h = 2\<rparr> nil)),
          size' = 9\<rparr>
   \<and> find_key (<) (node nil \<lparr>idx = 6, key = 0::nat, val = ''v'', h = 5\<rparr>
               (node (node (node nil \<lparr>idx = 4, key = 3, val = ''v'', h = 2\<rparr>
                              (node nil \<lparr>idx = 8, key = 4, val = ''v'', h = 1\<rparr> nil))
                        \<lparr>idx = 9, key = 5, val = ''v'', h = 3\<rparr>
                        (node nil \<lparr>idx = 3, key = 10, val = ''v'', h = 1\<rparr> nil))
                  \<lparr>idx = 2, key = 11, val = ''v'', h = 4\<rparr>
                  (node (node (node nil \<lparr>idx = 7, key = 13, val = ''v'', h = 0\<rparr> nil)
                           \<lparr>idx = 5, key = 15, val = ''v'', h = 1\<rparr> nil)
                     \<lparr>idx = 1, key = 22, val = ''v'', h = 2\<rparr> nil))) 50 = None
   \<and> erase 18446744073709551615 (<)
       \<lparr>pool = \<lparr>data = [Val (), Val (), Val (), Val (), Val (), Val (), Val (), Val (), Val (), Val (),
                     Ptr 11, Ptr 12, Ptr 13, Ptr 14, Ptr 15, Ptr 16],
             capacity = 16, head = 10\<rparr>,
          root = node nil \<lparr>idx = 6, key = 0::nat, val = ''v'', h = 5\<rparr>
               (node (node (node nil \<lparr>idx = 4, key = 3, val = ''v'', h = 2\<rparr>
                              (node nil \<lparr>idx = 8, key = 4, val = ''v'', h = 1\<rparr> nil))
                        \<lparr>idx = 9, key = 5, val = ''v'', h = 3\<rparr>
                        (node nil \<lparr>idx = 3, key = 10, val = ''v'', h = 1\<rparr> nil))
                  \<lparr>idx = 2, key = 11, val = ''v'', h = 4\<rparr>
                  (node (node (node nil \<lparr>idx = 7, key = 13, val = ''v'', h = 0\<rparr> nil)
                           \<lparr>idx = 5, key = 15, val = ''v'', h = 1\<rparr> nil)
                     \<lparr>idx = 1, key = 22, val = ''v'', h = 2\<rparr> nil)),
          size' = 9\<rparr> 50 = Inl AssertionFailed
   \<and> erase 18446744073709551615 (<)
       \<lparr>pool = \<lparr>data = [Val (), Val (), Val (), Val (), Val (), Val (), Val (), Val (), Val (), Val (),
                     Ptr 11, Ptr 12, Ptr 13, Ptr 14, Ptr 15, Ptr 16],
             capacity = 16, head = 10\<rparr>,
          root = node nil \<lparr>idx = 6, key = 0::nat, val = ''v'', h = 5\<rparr>
               (node (node (node nil \<lparr>idx = 4, key = 3, val = ''v'', h = 2\<rparr>
                              (node nil \<lparr>idx = 8, key = 4, val = ''v'', h = 1\<rparr> nil))
                        \<lparr>idx = 9, key = 5, val = ''v'', h = 3\<rparr>
                        (node nil \<lparr>idx = 3, key = 10, val = ''v'', h = 1\<rparr> nil))
                  \<lparr>idx = 2, key = 11, val = ''v'', h = 4\<rparr>
                  (node (node (node nil \<lparr>idx = 7, key = 13, val = ''v'', h = 0\<rparr> nil)
                           \<lparr>idx = 5, key = 15, val = ''v'', h = 1\<rparr> nil)
                     \<lparr>idx = 1, key = 22, val = ''v'', h = 2\<rparr> nil)),
          size' = 9\<rparr> 13 = Inl AssertionFailed"
proof -
  have a: "run_new 18446744073709551615 1 (Set_step 18446744073709551615 (<))
        [Emplace (1::nat), Emplace 2, Emplace 3] =
     Inr \<lparr>pool = \<lparr>data = [Val (), Val (), Val (), Val ()], capacity = 4, head = 4\<rparr>,
          root = node nil \<lparr>idx = 1, key = 1, val = (), h = 2\<rparr>
                   (node nil \<lparr>idx = 2, key = 2, val = (), h = 1\<rparr>
                      (node nil \<lparr>idx = 3, key = 3, val = (), h = 0\<rparr> nil)), size' = 3\<rparr>
   \<and> find_key (<) (node nil \<lparr>idx = 1, key = 1::nat, val = (), h = 2\<rparr>
                   (node nil \<lparr>idx = 2, key = 2, val = (), h = 1\<rparr>
                      (node nil \<lparr>idx = 3, key = 3, val = (), h = 0\<rparr> nil))) 4 = None
   \<and> erase 18446744073709551615 (<)
       \<lparr>pool = \<lparr>data = [Val (), Val (), Val (), Val ()], capacity = 4, head = 4\<rparr>,
          root = node nil \<lparr>idx = 1, key = 1::nat, val = (), h = 2\<rparr>
                   (node nil \<lparr>idx = 2, key = 2, val = (), h = 1\<rparr>
                      (node nil \<lparr>idx = 3, key = 3, val = (), h = 0\<rparr> nil)), size' = 3\<rparr> 4 =
     Inr (False,
       \<lparr>pool = \<lparr>data = [Val (), Val (), Val (), Val ()], capacity = 4, head = 4\<rparr>,
          root = node (node nil \<lparr>idx = 1, key = 1, val = (), h = 1\<rparr> nil)
                   \<lparr>idx = 2, key = 2, val = (), h = 2\<rparr>
                   (node nil \<lparr>idx = 3, key = 3, val = (), h = 1\<rparr> nil), size' = 3\<rparr>)
   \<and> node (node nil \<lparr>idx = 1, key = 1::nat, val = (), h = 1\<rparr> nil)
                   \<lparr>idx = 2, key = 2, val = (), h = 2\<rparr>
                   (node nil \<lparr>idx = 3, key = 3, val = (), h = 1\<rparr> nil)
       \<noteq> node nil \<lparr>idx = 1, key = 1, val = (), h = 2\<rparr>
                   (node nil \<lparr>idx = 2, key = 2, val = (), h = 1\<rparr>
                      (node nil \<lparr>idx = 3, key = 3, val = (), h = 0\<rparr> nil))"
    by (simp add: run_simps)
  have b: "find_key (<) (node nil \<lparr>idx = 6, key = 0::nat, val = ''v'', h = 5\<rparr>
               (node (node (node nil \<lparr>idx = 4, key = 3, val = ''v'', h = 2\<rparr>
                              (node nil \<lparr>idx = 8, key = 4, val = ''v'', h = 1\<rparr> nil))
                        \<lparr>idx = 9, key = 5, val = ''v'', h = 3\<rparr>
                        (node nil \<lparr>idx = 3, key = 10, val = ''v'', h = 1\<rparr> nil))
                  \<lparr>idx = 2, key = 11, val = ''v'', h = 4\<rparr>
                  (node (node (node nil \<lparr>idx = 7, key = 13, val = ''v'', h = 0\<rparr> nil)
                           \<lparr>idx = 5, key = 15, val = ''v'', h = 1\<rparr> nil)
                     \<lparr>idx = 1, key = 22, val = ''v'', h = 2\<rparr> nil))) 50 = None"
    "erase 18446744073709551615 (<)
       \<lparr>pool = \<lparr>data = [Val (), Val (), Val (), Val (), Val (), Val (), Val (), Val (), Val (), Val (),
                     Ptr 11, Ptr 12, Ptr 13, Ptr 14, Ptr 15, Ptr 16],
             capacity = 16, head = 10\<rparr>,
          root = node nil \<lparr>idx = 6, key = 0::nat, val = ''v'', h = 5\<rparr>
               (node (node (node nil \<lparr>idx = 4, key = 3, val = ''v'', h = 2\<rparr>
                              (node nil \<lparr>idx = 8, key = 4, val = ''v'', h = 1\<rparr> nil))
                        \<lparr>idx = 9, key = 5, val = ''v'', h = 3\<rparr>
                        (node nil \<lparr>idx = 3, key = 10, val = ''v'', h = 1\<rparr> nil))
                  \<lparr>idx = 2, key = 11, val = ''v'', h = 4\<rparr>
                  (node (node (node nil \<lparr>idx = 7, key = 13, val = ''v'', h = 0\<rparr> nil)
                           \<lparr>idx = 5, key = 15, val = ''v'', h = 1\<rparr> nil)
                     \<lparr>idx = 1, key = 22, val = ''v'', h = 2\<rparr> nil)),
          size' = 9\<rparr> 50 = Inl AssertionFailed"
    "erase 18446744073709551615 (<)
       \<lparr>pool = \<lparr>data = [Val (), Val (), Val (), Val (), Val (), Val (), Val (), Val (), Val (), Val (),
                     Ptr 11, Ptr 12, Ptr 13, Ptr 14, Ptr 15, Ptr 16],
             capacity = 16, head = 10\<rparr>,
          root = node nil \<lparr>idx = 6, key = 0::nat, val = ''v'', h = 5\<rparr>
               (node (node (node nil \<lparr>idx = 4, key = 3, val = ''v'', h = 2\<rparr>
                              (node nil \<lparr>idx = 8, key = 4, val = ''v'', h = 1\<rparr> nil))
                        \<lparr>idx = 9, key = 5, val = ''v'', h = 3\<rparr>
                        (node nil \<lparr>idx = 3, key = 10, val = ''v'', h = 1\<rparr> nil))
                  \<lparr>idx = 2, key = 11, val = ''v'', h = 4\<rparr>
                  (node (node (node nil \<lparr>idx = 7, key = 13, val = ''v'', h = 0\<rparr> nil)
                           \<lparr>idx = 5, key = 15, val = ''v'', h = 1\<rparr> nil)
                     \<lparr>idx = 1, key = 22, val = ''v'', h = 2\<rparr> nil)),
          size' = 9\<rparr> 13 = Inl AssertionFailed"
    by (simp_all add: run_simps)
  show ?thesis using a map_after_alter_key b by (intro conjI) simp_all
qed

text \<open>
  C2, what the code guarantees. The invariant \<open>dict_inv\<close> holds after every sequence
  of emplace, insert, \<open>operator[]\<close> and erase operations on a new dictionary (not after
  every \<open>alter_key\<close>). For a strict weak order and a dictionary that satisfies it and
  whose traversal is sorted, \<open>erase(key)\<close> returns, and it returns true exactly when an
  element equivalent to the key is present. If none is, size, in-order traversal (with
  the handle of every element) and pool are unchanged; the shape of the tree and the stored
  heights may change. If one is, \<open>size()\<close> decreases by exactly 1, exactly one element
  equivalent to the key leaves the traversal, all other elements keep their place, handle
  and payload, and the slot of the erased node is returned to the head of the free list. In
  both cases the invariant (with the balance of the stored heights) and the order of the
  traversal are preserved.

  At the node that holds the key, of any tree: when the left kid is \<open>nil\<close>,
  \<open>erase_impl\<close> puts the right kid in its place (rebalanced, when it is not \<open>nil\<close>);
  otherwise \<open>pull_out_rightmost\<close> detaches the last node of the left subtree's traversal,
  the in-order predecessor, and this node takes the place of the erased one, with what is
  left of the left subtree and the right subtree as its kids.
\<close>

theorem erase_effect:
  assumes swo: "strict_weak_order cmp" and inv: "dict_inv mx d"
    and srt: "sorted_multi cmp (inorder (root d))"
  shows "(\<exists>b d'. erase mx cmp d k = Inr (b, d') \<and>
           dict_inv mx d' \<and> avl_stored (root d') \<and> sorted_multi cmp (inorder (root d')) \<and>
           (sorted_unique cmp (inorder (root d)) \<longrightarrow> sorted_unique cmp (inorder (root d'))) \<and>
           (b \<longleftrightarrow> (\<exists>e \<in> set (inorder (root d)). equivalent cmp (ekey e) k)) \<and>
           (\<not> b \<longrightarrow> inorder (root d') = inorder (root d) \<and> size_of d' = size_of d \<and>
                   pool d' = pool d) \<and>
           (b \<longrightarrow> size_of d' + 1 = size_of d \<and>
                 (\<exists>e xs ys. equivalent cmp (ekey e) k \<and> inorder (root d) = xs @ e # ys \<and>
                    inorder (root d') = xs @ ys \<and>
                    occupied (pool d') = occupied (pool d) - {fst e} \<and> head (pool d') = fst e)))
       \<and> (\<forall>n (r :: ('k, 'v) subtree). equivalent cmp (key n) k \<longrightarrow>
              erase_impl cmp (node nil n r) k =
                (case r of nil \<Rightarrow> Inr (nil, Some n)
                 | node _ _ _ \<Rightarrow>
                     (case rebalance_and_seth r of Inl e \<Rightarrow> Inl e | Inr x' \<Rightarrow> Inr (x', Some n))))
       \<and> (\<forall>(l :: ('k, 'v) subtree) n r x_left pulled.
              equivalent cmp (key n) k \<and> l \<noteq> nil \<and> pull_out_rightmost l = Inr (x_left, pulled) \<longrightarrow>
              inorder l = inorder x_left @ [entry pulled] \<and>
              erase_impl cmp (node l n r) k =
                (case rebalance_and_seth (node x_left pulled r) of
                   Inl e \<Rightarrow> Inl e | Inr x' \<Rightarrow> Inr (x', Some n)))"
proof -
  obtain b d' where e: "erase mx cmp d k = Inr (b, d')" "dict_inv mx d'"
    "sorted_multi cmp (inorder (root d'))"
    "sorted_unique cmp (inorder (root d)) \<longrightarrow> sorted_unique cmp (inorder (root d'))"
    and c: "(\<not> b \<and> (\<forall>e\<in>set (inorder (root d)). \<not> equivalent cmp (ekey e) k) \<and>
               inorder (root d') = inorder (root d) \<and> size' d' = size' d \<and> pool d' = pool d) \<or>
            (b \<and> (\<exists>e xs ys. equivalent cmp (ekey e) k \<and> inorder (root d) = xs @ e # ys \<and>
               inorder (root d') = xs @ ys \<and> occupied (pool d') = occupied (pool d) - {fst e} \<and>
               head (pool d') = fst e) \<and>
               size' d' + 1 = size' d)"
    using erase_dict[OF swo inv srt, of k] by blast
  have avl: "avl_stored (root d')" using e(2) by (simp add: dict_inv_def)
  from c have iff: "b \<longleftrightarrow> (\<exists>e \<in> set (inorder (root d)). equivalent cmp (ekey e) k)"
  proof
    assume "\<not> b \<and> (\<forall>e\<in>set (inorder (root d)). \<not> equivalent cmp (ekey e) k) \<and>
               inorder (root d') = inorder (root d) \<and> size' d' = size' d \<and> pool d' = pool d"
    then show ?thesis by blast
  next
    assume p: "b \<and> (\<exists>e xs ys. equivalent cmp (ekey e) k \<and> inorder (root d) = xs @ e # ys \<and>
               inorder (root d') = xs @ ys \<and> occupied (pool d') = occupied (pool d) - {fst e} \<and>
               head (pool d') = fst e) \<and>
               size' d' + 1 = size' d"
    then obtain e xs ys where "equivalent cmp (ekey e) k" "inorder (root d) = xs @ e # ys" by blast
    then have "e \<in> set (inorder (root d))" "equivalent cmp (ekey e) k" by simp_all
    then show ?thesis using p by blast
  qed
  have absent: "\<not> b \<longrightarrow> inorder (root d') = inorder (root d) \<and> size_of d' = size_of d \<and> pool d' = pool d"
    using c by (auto simp: size_of_def)
  have present: "b \<longrightarrow> size_of d' + 1 = size_of d \<and>
                 (\<exists>e xs ys. equivalent cmp (ekey e) k \<and> inorder (root d) = xs @ e # ys \<and>
                    inorder (root d') = xs @ ys \<and>
                    occupied (pool d') = occupied (pool d) - {fst e} \<and> head (pool d') = fst e)"
    using c unfolding size_of_def by blast
  have main: "\<exists>b d'. erase mx cmp d k = Inr (b, d') \<and>
           dict_inv mx d' \<and> avl_stored (root d') \<and> sorted_multi cmp (inorder (root d')) \<and>
           (sorted_unique cmp (inorder (root d)) \<longrightarrow> sorted_unique cmp (inorder (root d'))) \<and>
           (b \<longleftrightarrow> (\<exists>e \<in> set (inorder (root d)). equivalent cmp (ekey e) k)) \<and>
           (\<not> b \<longrightarrow> inorder (root d') = inorder (root d) \<and> size_of d' = size_of d \<and>
                   pool d' = pool d) \<and>
           (b \<longrightarrow> size_of d' + 1 = size_of d \<and>
                 (\<exists>e xs ys. equivalent cmp (ekey e) k \<and> inorder (root d) = xs @ e # ys \<and>
                    inorder (root d') = xs @ ys \<and>
                    occupied (pool d') = occupied (pool d) - {fst e} \<and> head (pool d') = fst e))"
    using e avl iff absent present by blast
  have splice: "\<forall>n (r :: ('k, 'v) subtree). equivalent cmp (key n) k \<longrightarrow>
              erase_impl cmp (node nil n r) k =
                (case r of nil \<Rightarrow> Inr (nil, Some n)
                 | node _ _ _ \<Rightarrow>
                     (case rebalance_and_seth r of Inl e \<Rightarrow> Inl e | Inr x' \<Rightarrow> Inr (x', Some n)))"
    by (simp add: equivalent_def Let_def split: subtree.splits)
  have pred: "\<forall>(l :: ('k, 'v) subtree) n r x_left pulled.
              equivalent cmp (key n) k \<and> l \<noteq> nil \<and> pull_out_rightmost l = Inr (x_left, pulled) \<longrightarrow>
              inorder l = inorder x_left @ [entry pulled] \<and>
              erase_impl cmp (node l n r) k =
                (case rebalance_and_seth (node x_left pulled r) of
                   Inl e \<Rightarrow> Inl e | Inr x' \<Rightarrow> Inr (x', Some n))"
  proof (intro allI impI)
    fix l r x_left :: "('k, 'v) subtree" and n pulled :: "('k, 'v) AVLNode"
    assume a: "equivalent cmp (key n) k \<and> l \<noteq> nil \<and> pull_out_rightmost l = Inr (x_left, pulled)"
    then obtain ll m lr where l: "l = node ll m lr" by (cases l) auto
    have "erase_impl cmp (node l n r) k =
                (case rebalance_and_seth (node x_left pulled r) of
                   Inl e \<Rightarrow> Inl e | Inr x' \<Rightarrow> Inr (x', Some n))"
      using a unfolding l by (simp add: equivalent_def Let_def del: pull_out_rightmost.simps)
    then show "inorder l = inorder x_left @ [entry pulled] \<and>
              erase_impl cmp (node l n r) k =
                (case rebalance_and_seth (node x_left pulled r) of
                   Inl e \<Rightarrow> Inl e | Inr x' \<Rightarrow> Inr (x', Some n))"
      using pull_out_rightmost_inorder[of l x_left pulled] a by simp
  qed
  show ?thesis using main splice pred by (intro conjI)
qed

theorem erase_effect_witness:
  "strict_weak_order ((<) :: nat \<Rightarrow> nat \<Rightarrow> bool)
   \<and> dict_inv 18446744073709551615
       \<lparr>pool = \<lparr>data = [Val (), Val (), Val (), Val ()], capacity = 4, head = 4\<rparr>,
          root = node nil \<lparr>idx = 1, key = 1::nat, val = (), h = 2\<rparr>
                   (node nil \<lparr>idx = 2, key = 2, val = (), h = 1\<rparr>
                      (node nil \<lparr>idx = 3, key = 3, val = (), h = 0\<rparr> nil)), size' = 3\<rparr>
   \<and> sorted_multi (<) (inorder (node nil \<lparr>idx = 1, key = 1::nat, val = (), h = 2\<rparr>
                   (node nil \<lparr>idx = 2, key = 2, val = (), h = 1\<rparr>
                      (node nil \<lparr>idx = 3, key = 3, val = (), h = 0\<rparr> nil))))
   \<and> erase 18446744073709551615 (<)
       \<lparr>pool = \<lparr>data = [Val (), Val (), Val (), Val ()], capacity = 4, head = 4\<rparr>,
          root = node nil \<lparr>idx = 1, key = 1::nat, val = (), h = 2\<rparr>
                   (node nil \<lparr>idx = 2, key = 2, val = (), h = 1\<rparr>
                      (node nil \<lparr>idx = 3, key = 3, val = (), h = 0\<rparr> nil)), size' = 3\<rparr> 2 =
     Inr (True,
       \<lparr>pool = \<lparr>data = [Val (), Val (), Ptr 4, Val ()], capacity = 4, head = 2\<rparr>,
          root = node nil \<lparr>idx = 1, key = 1, val = (), h = 2\<rparr>
                   (node nil \<lparr>idx = 3, key = 3, val = (), h = 1\<rparr> nil), size' = 2\<rparr>)
   \<and> dict_inv 18446744073709551615
       \<lparr>pool = \<lparr>data = [Val (), Val (), Ptr 4, Val ()], capacity = 4, head = 2\<rparr>,
          root = node nil \<lparr>idx = 1, key = 1::nat, val = (), h = 2\<rparr>
                   (node nil \<lparr>idx = 3, key = 3, val = (), h = 1\<rparr> nil), size' = 2\<rparr>
   \<and> sorted_multi (<) (inorder (node nil \<lparr>idx = 1, key = 1::nat, val = (), h = 2\<rparr>
                   (node nil \<lparr>idx = 3, key = 3, val = (), h = 1\<rparr> nil)))"
proof -
  let ?d = "\<lparr>pool = \<lparr>data = [Val (), Val (), Val (), Val ()], capacity = 4, head = 4\<rparr>,
          root = node nil \<lparr>idx = 1, key = 1::nat, val = (), h = 2\<rparr>
                   (node nil \<lparr>idx = 2, key = 2, val = (), h = 1\<rparr>
                      (node nil \<lparr>idx = 3, key = 3, val = (), h = 0\<rparr> nil)), size' = 3\<rparr>"
  have run: "run_new 18446744073709551615 1 (Set_step 18446744073709551615 (<))
        [Emplace (1::nat), Emplace 2, Emplace 3] = Inr ?d"
    by (simp add: run_simps)
  have "inv_unique 18446744073709551615 (<) ?d"
    by (rule Set_run_inv[OF less_nat_strict_weak_order _ _ _ run]) simp_all
  then have inv: "dict_inv 18446744073709551615 ?d" and srt: "sorted_multi (<) (inorder (root ?d))"
    using inv_unique_multi[OF less_nat_strict_weak_order, of 18446744073709551615 ?d]
    by (simp_all add: inv_unique_def inv_multi_def)
  have er: "erase 18446744073709551615 (<) ?d 2 =
     Inr (True,
       \<lparr>pool = \<lparr>data = [Val (), Val (), Ptr 4, Val ()], capacity = 4, head = 2\<rparr>,
          root = node nil \<lparr>idx = 1, key = 1, val = (), h = 2\<rparr>
                   (node nil \<lparr>idx = 3, key = 3, val = (), h = 1\<rparr> nil), size' = 2\<rparr>)"
    by (simp add: run_simps)
  let ?d' = "\<lparr>pool = \<lparr>data = [Val (), Val (), Ptr 4, Val ()], capacity = 4, head = 2\<rparr>,
          root = node nil \<lparr>idx = 1, key = 1::nat, val = (), h = 2\<rparr>
                   (node nil \<lparr>idx = 3, key = 3, val = (), h = 1\<rparr> nil), size' = 2\<rparr>"
  from erase_effect[OF less_nat_strict_weak_order inv srt, of 2]
  obtain b d' where r: "erase 18446744073709551615 (<) ?d 2 = Inr (b, d')"
    "dict_inv 18446744073709551615 d'" "sorted_multi (<) (inorder (root d'))"
    by blast
  have "d' = ?d'" using r(1) unfolding er by simp
  then have "dict_inv 18446744073709551615 ?d'" "sorted_multi (<) (inorder (root ?d'))"
    using r(2,3) by simp_all
  then show ?thesis using er inv srt by (simp add: less_nat_strict_weak_order)
qed


section \<open>Claim C8: the order of duplicates in the multi-containers\<close>

text \<open>
  C8, as the specification states it, fails: among equal keys the traversal does not follow
  the insertion order. \<open>insert\<close> computes \<open>dir = compare(pool[x].key(), pool[inserted].key())\<close>
  and descends to \<open>kid[dir]\<close>; at a node with an equivalent key \<open>dir\<close> is false, so the
  new node goes to the left of every equivalent node. A multimap that received (1, a)
  and then (1, b) is traversed as (1, b), (1, a).
\<close>

theorem multimap_later_duplicate_comes_first:
  "run_new 18446744073709551615 1 (Multimap_step 18446744073709551615 (<))
      [MultimapEmplace (1::nat) ''a'', MultimapEmplace 1 ''b''] =
     Inr \<lparr>pool = \<lparr>data = [Val (), Val (), Val (), Ptr 4], capacity = 4, head = 3\<rparr>,
          root = node (node nil \<lparr>idx = 2, key = 1, val = ''b'', h = 0\<rparr> nil)
                   \<lparr>idx = 1, key = 1, val = ''a'', h = 1\<rparr> nil, size' = 2\<rparr>
   \<and> map snd (inorder (node (node nil \<lparr>idx = 2, key = 1::nat, val = ''b'', h = 0\<rparr> nil)
                   \<lparr>idx = 1, key = 1, val = ''a'', h = 1\<rparr> nil)) = [(1, ''b''), (1, ''a'')]
   \<and> map snd (inorder (node (node nil \<lparr>idx = 2, key = 1::nat, val = ''b'', h = 0\<rparr> nil)
                   \<lparr>idx = 1, key = 1, val = ''a'', h = 1\<rparr> nil)) \<noteq> [(1, ''a''), (1, ''b'')]"
  by (simp add: run_simps)

text \<open>
  C8, amended. For a strict weak order and every sequence of unconditional inserts into a
  new Multimap (\<open>kvs\<close>) or Multiset (\<open>ks\<close>) that returns: the in-order traversal is
  non-decreasing; for every key \<open>k\<close> it consists of the elements less than \<open>k\<close>, then
  those equivalent to \<open>k\<close>, then those greater (equivalent elements are adjacent); and the
  elements equivalent to \<open>k\<close> appear in the reverse of their insertion order, the latest
  insert first.
\<close>

theorem duplicates_in_reverse_insertion_order:
  assumes swo: "strict_weak_order cmp" and mx: "0 < mx" "mx < 2 ^ 64" "reserve_n \<le> mx"
  shows "(\<forall>kvs d. run_new mx reserve_n (Multimap_step mx cmp)
                     (map (\<lambda>(k, v). MultimapEmplace k v) kvs) = Inr (d :: ('k, 'v) AVLDictionary) \<longrightarrow>
            sorted_multi cmp (inorder (root d)) \<and>
            (\<forall>k. inorder (root d) =
                   filter (\<lambda>e. cmp (ekey e) k) (inorder (root d)) @
                   filter (\<lambda>e. equivalent cmp (ekey e) k) (inorder (root d)) @
                   filter (\<lambda>e. cmp k (ekey e)) (inorder (root d))) \<and>
            (\<forall>k. map snd (filter (\<lambda>e. equivalent cmp (ekey e) k) (inorder (root d))) =
                   rev (filter (\<lambda>(k', v). equivalent cmp k' k) kvs)))
       \<and> (\<forall>ks d. run_new mx reserve_n (Multiset_step mx cmp) (map Emplace ks) = Inr d \<longrightarrow>
            sorted_multi cmp (inorder (root d)) \<and>
            (\<forall>k. inorder (root d) =
                   filter (\<lambda>e. cmp (ekey e) k) (inorder (root d)) @
                   filter (\<lambda>e. equivalent cmp (ekey e) k) (inorder (root d)) @
                   filter (\<lambda>e. cmp k (ekey e)) (inorder (root d))) \<and>
            (\<forall>k. map ekey (filter (\<lambda>e. equivalent cmp (ekey e) k) (inorder (root d))) =
                   rev (filter (\<lambda>k'. equivalent cmp k' k) ks)))"
proof (intro conjI allI impI)
  fix kvs :: "('k \<times> 'v) list" and d :: "('k, 'v) AVLDictionary"
  assume run: "run_new mx reserve_n (Multimap_step mx cmp) (map (\<lambda>(k, v). MultimapEmplace k v) kvs) = Inr d"
  have inv: "inv_multi mx cmp d" by (rule Multimap_run_inv[OF swo mx run])
  then show srt: "sorted_multi cmp (inorder (root d))" by (simp add: inv_multi_def)
  fix k
  show "inorder (root d) =
          filter (\<lambda>e. cmp (ekey e) k) (inorder (root d)) @
          filter (\<lambda>e. equivalent cmp (ekey e) k) (inorder (root d)) @
          filter (\<lambda>e. cmp k (ekey e)) (inorder (root d))"
    by (rule sorted_multi_segments[OF swo srt])
  obtain d0 :: "('k, 'v) AVLDictionary" where d0: "AVLDictionary_new mx reserve_n = Inr d0"
    "dict_inv mx d0" "root d0 = nil"
    using AVLDictionary_new_inv[OF mx, where ?'k = 'k and ?'v = 'v] by blast
  then have i0: "inv_multi mx cmp d0" by (simp add: inv_multi_def sorted_multi_def)
  have r: "run_ops (Multimap_step mx cmp) d0 (map (\<lambda>(k, v). MultimapEmplace k v) kvs) = Inr d"
    using run d0(1) by (simp add: run_new_def)
  show "map snd (filter (\<lambda>e. equivalent cmp (ekey e) k) (inorder (root d))) =
          rev (filter (\<lambda>(k', v). equivalent cmp k' k) kvs)"
    using Multimap_run_order[OF swo i0 r, of k] d0(3) by simp
next
  fix ks :: "'k list" and d :: "('k, unit) AVLDictionary"
  assume run: "run_new mx reserve_n (Multiset_step mx cmp) (map Emplace ks) = Inr d"
  have inv: "inv_multi mx cmp d" by (rule Multiset_run_inv[OF swo mx run])
  then show srt: "sorted_multi cmp (inorder (root d))" by (simp add: inv_multi_def)
  fix k
  show "inorder (root d) =
          filter (\<lambda>e. cmp (ekey e) k) (inorder (root d)) @
          filter (\<lambda>e. equivalent cmp (ekey e) k) (inorder (root d)) @
          filter (\<lambda>e. cmp k (ekey e)) (inorder (root d))"
    by (rule sorted_multi_segments[OF swo srt])
  obtain d0 :: "('k, unit) AVLDictionary" where d0: "AVLDictionary_new mx reserve_n = Inr d0"
    "dict_inv mx d0" "root d0 = nil"
    using AVLDictionary_new_inv[OF mx, where ?'k = 'k and ?'v = unit] by blast
  then have i0: "inv_multi mx cmp d0" by (simp add: inv_multi_def sorted_multi_def)
  have r: "run_ops (Multiset_step mx cmp) d0 (map Emplace ks) = Inr d"
    using run d0(1) by (simp add: run_new_def)
  show "map ekey (filter (\<lambda>e. equivalent cmp (ekey e) k) (inorder (root d))) =
          rev (filter (\<lambda>k'. equivalent cmp k' k) ks)"
    using Multiset_run_order[OF swo i0 r, of k] d0(3) by simp
qed

theorem duplicates_in_reverse_insertion_order_witness:
  "strict_weak_order ((<) :: nat \<Rightarrow> nat \<Rightarrow> bool)
   \<and> (0::nat) < 18446744073709551615 \<and> (18446744073709551615::nat) < 2 ^ 64
   \<and> (1::nat) \<le> 18446744073709551615
   \<and> run_new 18446744073709551615 1 (Multimap_step 18446744073709551615 (<))
      (map (\<lambda>(k, v). MultimapEmplace k v) [(1::nat, ''a''), (1, ''b''), (0, ''c''), (1, ''d'')]) =
     Inr \<lparr>pool = \<lparr>data = [Val (), Val (), Val (), Val (), Val (), Ptr 6, Ptr 7, Ptr 8],
                  capacity = 8, head = 5\<rparr>,
          root = node (node nil \<lparr>idx = 3, key = 0, val = ''c'', h = 1\<rparr>
                         (node nil \<lparr>idx = 4, key = 1, val = ''d'', h = 0\<rparr> nil))
                   \<lparr>idx = 2, key = 1, val = ''b'', h = 2\<rparr>
                   (node nil \<lparr>idx = 1, key = 1, val = ''a'', h = 1\<rparr> nil), size' = 4\<rparr>
   \<and> map snd (filter (\<lambda>e. equivalent (<) (ekey e) 1)
        (inorder (node (node nil \<lparr>idx = 3, key = 0::nat, val = ''c'', h = 1\<rparr>
                         (node nil \<lparr>idx = 4, key = 1, val = ''d'', h = 0\<rparr> nil))
                   \<lparr>idx = 2, key = 1, val = ''b'', h = 2\<rparr>
                   (node nil \<lparr>idx = 1, key = 1, val = ''a'', h = 1\<rparr> nil)))) =
     rev (filter (\<lambda>(k', v). equivalent (<) k' 1) [(1::nat, ''a''), (1, ''b''), (0, ''c''), (1, ''d'')])
   \<and> rev (filter (\<lambda>(k', v). equivalent (<) k' 1) [(1::nat, ''a''), (1, ''b''), (0, ''c''), (1, ''d'')])
     = [(1, ''d''), (1, ''b''), (1, ''a'')]"
proof -
  let ?kvs = "[(1::nat, ''a''), (1, ''b''), (0, ''c''), (1, ''d'')]"
  let ?d = "\<lparr>pool = \<lparr>data = [Val (), Val (), Val (), Val (), Val (), Ptr 6, Ptr 7, Ptr 8],
                  capacity = 8, head = 5\<rparr>,
          root = node (node nil \<lparr>idx = 3, key = 0::nat, val = ''c'', h = 1\<rparr>
                         (node nil \<lparr>idx = 4, key = 1, val = ''d'', h = 0\<rparr> nil))
                   \<lparr>idx = 2, key = 1, val = ''b'', h = 2\<rparr>
                   (node nil \<lparr>idx = 1, key = 1, val = ''a'', h = 1\<rparr> nil), size' = 4\<rparr>"
  have run: "run_new 18446744073709551615 1 (Multimap_step 18446744073709551615 (<))
      (map (\<lambda>(k, v). MultimapEmplace k v) ?kvs) = Inr ?d"
    by (simp add: run_simps)
  have "\<forall>kvs d. run_new 18446744073709551615 1 (Multimap_step 18446744073709551615 (<))
                     (map (\<lambda>(k, v). MultimapEmplace k v) kvs) = Inr (d :: (nat, string) AVLDictionary) \<longrightarrow>
            (\<forall>k. map snd (filter (\<lambda>e. equivalent (<) (ekey e) k) (inorder (root d))) =
                   rev (filter (\<lambda>(k', v). equivalent (<) k' k) kvs))"
    using duplicates_in_reverse_insertion_order
      [OF less_nat_strict_weak_order, where mx = 18446744073709551615 and reserve_n = 1
        and ?'v = string]
    by simp
  from this[rule_format, OF run, of 1] run
  show ?thesis by (simp add: less_nat_strict_weak_order equivalent_def)
qed


section \<open>Claim C5: inserting a key that is already present\<close>

text \<open>
  C5 does not hold of the code for every Set or Map.

  \<^item> In the map that \<open>alter_key(9, 0)\<close> leaves after \<open>emplace\<close> of 22, 11, 10, 3, 15,
    9, 13, 4, 5, the key 3 is present, and \<open>operator[](3)\<close> and \<open>emplace(3, w)\<close> fail
    the assertion of \<open>rebalance_and_seth\<close> on the way back to the root.
  \<^item> \<open>Set.emplace\<close> allocates its candidate node before it searches, so on a pool that
    is exhausted at its maximal capacity it fails with \<open>AllocatorExhausted\<close> also for
    a key that is present (the first branch of the theorem below).
\<close>

theorem insert_of_present_key_aborts:
  "run_new 18446744073709551615 1 (Map_step 18446744073709551615 (<) ''z'')
      (map (\<lambda>k. MapEmplace k ''v'') [22, 11, 10, 3, 15, 9, 13, 4, 5::nat]) =
     Inr \<lparr>pool = \<lparr>data = [Val (), Val (), Val (), Val (), Val (), Val (), Val (), Val (), Val (), Val (),
                     Ptr 11, Ptr 12, Ptr 13, Ptr 14, Ptr 15, Ptr 16],
             capacity = 16, head = 10\<rparr>,
          root = node (node (node nil \<lparr>idx = 4, key = 3::nat, val = ''v'', h = 2\<rparr>
                          (node nil \<lparr>idx = 8, key = 4, val = ''v'', h = 1\<rparr>
                             (node nil \<lparr>idx = 9, key = 5, val = ''v'', h = 0\<rparr> nil)))
                    \<lparr>idx = 6, key = 9, val = ''v'', h = 3\<rparr>
                    (node nil \<lparr>idx = 3, key = 10, val = ''v'', h = 1\<rparr> nil))
               \<lparr>idx = 2, key = 11, val = ''v'', h = 4\<rparr>
               (node (node (node nil \<lparr>idx = 7, key = 13, val = ''v'', h = 0\<rparr> nil)
                        \<lparr>idx = 5, key = 15, val = ''v'', h = 1\<rparr> nil)
                  \<lparr>idx = 1, key = 22, val = ''v'', h = 2\<rparr> nil),
          size' = 9\<rparr>
   \<and> Map_alter_key 18446744073709551615 (<)
       \<lparr>pool = \<lparr>data = [Val (), Val (), Val (), Val (), Val (), Val (), Val (), Val (), Val (), Val (),
                     Ptr 11, Ptr 12, Ptr 13, Ptr 14, Ptr 15, Ptr 16],
             capacity = 16, head = 10\<rparr>,
          root = node (node (node nil \<lparr>idx = 4, key = 3::nat, val = ''v'', h = 2\<rparr>
                          (node nil \<lparr>idx = 8, key = 4, val = ''v'', h = 1\<rparr>
                             (node nil \<lparr>idx = 9, key = 5, val = ''v'', h = 0\<rparr> nil)))
                    \<lparr>idx = 6, key = 9, val = ''v'', h = 3\<rparr>
                    (node nil \<lparr>idx = 3, key = 10, val = ''v'', h = 1\<rparr> nil))
               \<lparr>idx = 2, key = 11, val = ''v'', h = 4\<rparr>
               (node (node (node nil \<lparr>idx = 7, key = 13, val = ''v'', h = 0\<rparr> nil)
                        \<lparr>idx = 5, key = 15, val = ''v'', h = 1\<rparr> nil)
                  \<lparr>idx = 1, key = 22, val = ''v'', h = 2\<rparr> nil),
          size' = 9\<rparr> 9 0 =
     Inr ((True, False),
       \<lparr>pool = \<lparr>data = [Val (), Val (), Val (), Val (), Val (), Val (), Val (), Val (), Val (), Val (),
                     Ptr 11, Ptr 12, Ptr 13, Ptr 14, Ptr 15, Ptr 16],
             capacity = 16, head = 10\<rparr>,
          root = node nil \<lparr>idx = 6, key = 0::nat, val = ''v'', h = 5\<rparr>
               (node (node (node nil \<lparr>idx = 4, key = 3, val = ''v'', h = 2\<rparr>
                              (node nil \<lparr>idx = 8, key = 4, val = ''v'', h = 1\<rparr> nil))
                        \<lparr>idx = 9, key = 5, val = ''v'', h = 3\<rparr>
                        (node nil \<lparr>idx = 3, key = 10, val = ''v'', h = 1\<rparr> nil))
                  \<lparr>idx = 2, key = 11, val = ''v'', h = 4\<rparr>
                  (node (node (node nil \<lparr>idx = 7, key = 13, val = ''v'', h = 0\<rparr> nil)
                           \<lparr>idx = 5, key = 15, val = ''v'', h = 1\<rparr> nil)
                     \<lparr>idx = 1, key = 22, val = ''v'', h = 2\<rparr> nil)),
          size' = 9\<rparr>)
   \<and> \<not> dict_inv 18446744073709551615
       \<lparr>pool = \<lparr>data = [Val (), Val (), Val (), Val (), Val (), Val (), Val (), Val (), Val (), Val (),
                     Ptr 11, Ptr 12, Ptr 13, Ptr 14, Ptr 15, Ptr 16],
             capacity = 16, head = 10\<rparr>,
          root = node nil \<lparr>idx = 6, key = 0::nat, val = ''v'', h = 5\<rparr>
               (node (node (node nil \<lparr>idx = 4, key = 3, val = ''v'', h = 2\<rparr>
                              (node nil \<lparr>idx = 8, key = 4, val = ''v'', h = 1\<rparr> nil))
                        \<lparr>idx = 9, key = 5, val = ''v'', h = 3\<rparr>
                        (node nil \<lparr>idx = 3, key = 10, val = ''v'', h = 1\<rparr> nil))
                  \<lparr>idx = 2, key = 11, val = ''v'', h = 4\<rparr>
                  (node (node (node nil \<lparr>idx = 7, key = 13, val = ''v'', h = 0\<rparr> nil)
                           \<lparr>idx = 5, key = 15, val = ''v'', h = 1\<rparr> nil)
                     \<lparr>idx = 1, key = 22, val = ''v'', h = 2\<rparr> nil)),
          size' = 9\<rparr>
   \<and> find_key (<) (node nil \<lparr>idx = 6, key = 0::nat, val = ''v'', h = 5\<rparr>
               (node (node (node nil \<lparr>idx = 4, key = 3, val = ''v'', h = 2\<rparr>
                              (node nil \<lparr>idx = 8, key = 4, val = ''v'', h = 1\<rparr> nil))
                        \<lparr>idx = 9, key = 5, val = ''v'', h = 3\<rparr>
                        (node nil \<lparr>idx = 3, key = 10, val = ''v'', h = 1\<rparr> nil))
                  \<lparr>idx = 2, key = 11, val = ''v'', h = 4\<rparr>
                  (node (node (node nil \<lparr>idx = 7, key = 13, val = ''v'', h = 0\<rparr> nil)
                           \<lparr>idx = 5, key = 15, val = ''v'', h = 1\<rparr> nil)
                     \<lparr>idx = 1, key = 22, val = ''v'', h = 2\<rparr> nil))) 3 =
       Some \<lparr>idx = 4, key = 3, val = ''v'', h = 2\<rparr>
   \<and> Map_index 18446744073709551615 (<) ''z''
       \<lparr>pool = \<lparr>data = [Val (), Val (), Val (), Val (), Val (), Val (), Val (), Val (), Val (), Val (),
                     Ptr 11, Ptr 12, Ptr 13, Ptr 14, Ptr 15, Ptr 16],
             capacity = 16, head = 10\<rparr>,
          root = node nil \<lparr>idx = 6, key = 0::nat, val = ''v'', h = 5\<rparr>
               (node (node (node nil \<lparr>idx = 4, key = 3, val = ''v'', h = 2\<rparr>
                              (node nil \<lparr>idx = 8, key = 4, val = ''v'', h = 1\<rparr> nil))
                        \<lparr>idx = 9, key = 5, val = ''v'', h = 3\<rparr>
                        (node nil \<lparr>idx = 3, key = 10, val = ''v'', h = 1\<rparr> nil))
                  \<lparr>idx = 2, key = 11, val = ''v'', h = 4\<rparr>
                  (node (node (node nil \<lparr>idx = 7, key = 13, val = ''v'', h = 0\<rparr> nil)
                           \<lparr>idx = 5, key = 15, val = ''v'', h = 1\<rparr> nil)
                     \<lparr>idx = 1, key = 22, val = ''v'', h = 2\<rparr> nil)),
          size' = 9\<rparr> 3 =
     Inl AssertionFailed
   \<and> Map_emplace 18446744073709551615 (<)
       \<lparr>pool = \<lparr>data = [Val (), Val (), Val (), Val (), Val (), Val (), Val (), Val (), Val (), Val (),
                     Ptr 11, Ptr 12, Ptr 13, Ptr 14, Ptr 15, Ptr 16],
             capacity = 16, head = 10\<rparr>,
          root = node nil \<lparr>idx = 6, key = 0::nat, val = ''v'', h = 5\<rparr>
               (node (node (node nil \<lparr>idx = 4, key = 3, val = ''v'', h = 2\<rparr>
                              (node nil \<lparr>idx = 8, key = 4, val = ''v'', h = 1\<rparr> nil))
                        \<lparr>idx = 9, key = 5, val = ''v'', h = 3\<rparr>
                        (node nil \<lparr>idx = 3, key = 10, val = ''v'', h = 1\<rparr> nil))
                  \<lparr>idx = 2, key = 11, val = ''v'', h = 4\<rparr>
                  (node (node (node nil \<lparr>idx = 7, key = 13, val = ''v'', h = 0\<rparr> nil)
                           \<lparr>idx = 5, key = 15, val = ''v'', h = 1\<rparr> nil)
                     \<lparr>idx = 1, key = 22, val = ''v'', h = 2\<rparr> nil)),
          size' = 9\<rparr> 3 ''w'' =
     Inl AssertionFailed"
proof -
  have b:
    "find_key (<) (node nil \<lparr>idx = 6, key = 0::nat, val = ''v'', h = 5\<rparr>
               (node (node (node nil \<lparr>idx = 4, key = 3, val = ''v'', h = 2\<rparr>
                              (node nil \<lparr>idx = 8, key = 4, val = ''v'', h = 1\<rparr> nil))
                        \<lparr>idx = 9, key = 5, val = ''v'', h = 3\<rparr>
                        (node nil \<lparr>idx = 3, key = 10, val = ''v'', h = 1\<rparr> nil))
                  \<lparr>idx = 2, key = 11, val = ''v'', h = 4\<rparr>
                  (node (node (node nil \<lparr>idx = 7, key = 13, val = ''v'', h = 0\<rparr> nil)
                           \<lparr>idx = 5, key = 15, val = ''v'', h = 1\<rparr> nil)
                     \<lparr>idx = 1, key = 22, val = ''v'', h = 2\<rparr> nil))) 3 =
       Some \<lparr>idx = 4, key = 3, val = ''v'', h = 2\<rparr>"
    "Map_index 18446744073709551615 (<) ''z''
       \<lparr>pool = \<lparr>data = [Val (), Val (), Val (), Val (), Val (), Val (), Val (), Val (), Val (), Val (),
                     Ptr 11, Ptr 12, Ptr 13, Ptr 14, Ptr 15, Ptr 16],
             capacity = 16, head = 10\<rparr>,
          root = node nil \<lparr>idx = 6, key = 0::nat, val = ''v'', h = 5\<rparr>
               (node (node (node nil \<lparr>idx = 4, key = 3, val = ''v'', h = 2\<rparr>
                              (node nil \<lparr>idx = 8, key = 4, val = ''v'', h = 1\<rparr> nil))
                        \<lparr>idx = 9, key = 5, val = ''v'', h = 3\<rparr>
                        (node nil \<lparr>idx = 3, key = 10, val = ''v'', h = 1\<rparr> nil))
                  \<lparr>idx = 2, key = 11, val = ''v'', h = 4\<rparr>
                  (node (node (node nil \<lparr>idx = 7, key = 13, val = ''v'', h = 0\<rparr> nil)
                           \<lparr>idx = 5, key = 15, val = ''v'', h = 1\<rparr> nil)
                     \<lparr>idx = 1, key = 22, val = ''v'', h = 2\<rparr> nil)),
          size' = 9\<rparr> 3 =
     Inl AssertionFailed"
    "Map_emplace 18446744073709551615 (<)
       \<lparr>pool = \<lparr>data = [Val (), Val (), Val (), Val (), Val (), Val (), Val (), Val (), Val (), Val (),
                     Ptr 11, Ptr 12, Ptr 13, Ptr 14, Ptr 15, Ptr 16],
             capacity = 16, head = 10\<rparr>,
          root = node nil \<lparr>idx = 6, key = 0::nat, val = ''v'', h = 5\<rparr>
               (node (node (node nil \<lparr>idx = 4, key = 3, val = ''v'', h = 2\<rparr>
                              (node nil \<lparr>idx = 8, key = 4, val = ''v'', h = 1\<rparr> nil))
                        \<lparr>idx = 9, key = 5, val = ''v'', h = 3\<rparr>
                        (node nil \<lparr>idx = 3, key = 10, val = ''v'', h = 1\<rparr> nil))
                  \<lparr>idx = 2, key = 11, val = ''v'', h = 4\<rparr>
                  (node (node (node nil \<lparr>idx = 7, key = 13, val = ''v'', h = 0\<rparr> nil)
                           \<lparr>idx = 5, key = 15, val = ''v'', h = 1\<rparr> nil)
                     \<lparr>idx = 1, key = 22, val = ''v'', h = 2\<rparr> nil)),
          size' = 9\<rparr> 3 ''w'' =
     Inl AssertionFailed"
    by (simp_all add: run_simps)
  show ?thesis using map_after_alter_key b by (intro conjI) simp_all
qed

text \<open>
  C5, what the code guarantees. The invariant \<open>dict_inv\<close> holds after every sequence
  of emplace, insert, \<open>operator[]\<close> and erase operations on a new dictionary (not after
  every \<open>alter_key\<close>). Let a Set \<open>ds\<close> and a Map \<open>dm\<close> satisfy it with a strictly
  sorted traversal, and let each hold an element equivalent to \<open>k\<close> (\<open>es\<close>, \<open>em\<close>).

  \<^item> \<open>Set.emplace(k)\<close> allocates the candidate node first. Unless the pool is exhausted
    (then this allocation fails with \<open>AllocatorExhausted\<close>), \<open>insert_if_not_exists\<close>
    leaves the tree as it is and returns the handle of the stored element \<open>es\<close>;
    \<open>emplace\<close> returns false, \<open>size()\<close> and the set of occupied slots are unchanged,
    and the candidate's slot is back at the head of the free list.
  \<^item> \<open>Map.operator[](k)\<close> returns the handle and the value of the stored element
    \<open>em\<close> and leaves the whole dictionary unchanged: \<open>emplace_if_not_exists\<close>
    allocates nothing.
\<close>

theorem insert_of_present_key:
  assumes swo: "strict_weak_order cmp"
    and set_inv: "dict_inv mx ds" "sorted_unique cmp (inorder (root ds))"
    and set_has: "es \<in> set (inorder (root ds))" "equivalent cmp (ekey es) k"
    and map_inv: "dict_inv mx dm" "sorted_unique cmp (inorder (root dm))"
    and map_has: "em \<in> set (inorder (root dm))" "equivalent cmp (ekey em) k"
  shows "(if pool_full mx (pool ds) then Set_emplace mx cmp ds k = Inl AllocatorExhausted
          else \<exists>c d1 ds'. allocate_node mx ds = Inr (c, d1) \<and> c \<notin> occupied (pool ds) \<and>
                 insert_if_not_exists cmp (root d1) \<lparr>idx = c, key = k, val = (), h = 0\<rparr> =
                   Inr (root ds, fst es) \<and>
                 Set_emplace mx cmp ds k = Inr (False, ds') \<and> dict_inv mx ds' \<and>
                 root ds' = root ds \<and> size_of ds' = size_of ds \<and>
                 occupied (pool ds') = occupied (pool ds) \<and> head (pool ds') = c)
       \<and> Map_index mx cmp dflt dm k = Inr ((fst em, snd (snd em)), dm)"
proof (intro conjI)
  show "if pool_full mx (pool ds) then Set_emplace mx cmp ds k = Inl AllocatorExhausted
          else \<exists>c d1 ds'. allocate_node mx ds = Inr (c, d1) \<and> c \<notin> occupied (pool ds) \<and>
                 insert_if_not_exists cmp (root d1) \<lparr>idx = c, key = k, val = (), h = 0\<rparr> =
                   Inr (root ds, fst es) \<and>
                 Set_emplace mx cmp ds k = Inr (False, ds') \<and> dict_inv mx ds' \<and>
                 root ds' = root ds \<and> size_of ds' = size_of ds \<and>
                 occupied (pool ds') = occupied (pool ds) \<and> head (pool ds') = c"
  proof (cases "pool_full mx (pool ds)")
    case True
    then show ?thesis using Set_emplace_full[of mx ds cmp k] by simp
  next
    case False
    then show ?thesis
      using Set_emplace_present[OF swo set_inv set_has False] by (simp add: size_of_def)
  qed
  show "Map_index mx cmp dflt dm k = Inr ((fst em, snd (snd em)), dm)"
    by (rule Map_index_present[OF swo map_inv map_has])
qed

theorem insert_of_present_key_witness:
  "strict_weak_order ((<) :: nat \<Rightarrow> nat \<Rightarrow> bool)
   \<and> run_new 18446744073709551615 1 (Set_step 18446744073709551615 (<)) [Emplace (1::nat), Emplace 2] =
     Inr \<lparr>pool = \<lparr>data = [Val (), Val (), Val (), Ptr 4], capacity = 4, head = 3\<rparr>,
          root = node nil \<lparr>idx = 1, key = 1, val = (), h = 1\<rparr>
                   (node nil \<lparr>idx = 2, key = 2, val = (), h = 0\<rparr> nil), size' = 2\<rparr>
   \<and> (2, 2::nat, ()) \<in> set (inorder (node nil \<lparr>idx = 1, key = 1, val = (), h = 1\<rparr>
                   (node nil \<lparr>idx = 2, key = 2, val = (), h = 0\<rparr> nil)))
   \<and> \<not> pool_full 18446744073709551615 \<lparr>data = [Val (), Val (), Val (), Ptr 4], capacity = 4, head = 3\<rparr>
   \<and> Set_emplace 18446744073709551615 (<)
       \<lparr>pool = \<lparr>data = [Val (), Val (), Val (), Ptr 4], capacity = 4, head = 3\<rparr>,
          root = node nil \<lparr>idx = 1, key = 1::nat, val = (), h = 1\<rparr>
                   (node nil \<lparr>idx = 2, key = 2, val = (), h = 0\<rparr> nil), size' = 2\<rparr> 2 =
     Inr (False,
       \<lparr>pool = \<lparr>data = [Val (), Val (), Val (), Ptr 4], capacity = 4, head = 3\<rparr>,
          root = node nil \<lparr>idx = 1, key = 1, val = (), h = 1\<rparr>
                   (node nil \<lparr>idx = 2, key = 2, val = (), h = 0\<rparr> nil), size' = 2\<rparr>)
   \<and> run_new 18446744073709551615 1 (Map_step 18446744073709551615 (<) ''z'')
        [MapEmplace (1::nat) ''a'', MapEmplace 2 ''b''] =
     Inr \<lparr>pool = \<lparr>data = [Val (), Val (), Val (), Ptr 4], capacity = 4, head = 3\<rparr>,
          root = node nil \<lparr>idx = 1, key = 1, val = ''a'', h = 1\<rparr>
                   (node nil \<lparr>idx = 2, key = 2, val = ''b'', h = 0\<rparr> nil), size' = 2\<rparr>
   \<and> (2, 2::nat, ''b'') \<in> set (inorder (node nil \<lparr>idx = 1, key = 1, val = ''a'', h = 1\<rparr>
                   (node nil \<lparr>idx = 2, key = 2, val = ''b'', h = 0\<rparr> nil)))
   \<and> Map_index 18446744073709551615 (<) ''z''
       \<lparr>pool = \<lparr>data = [Val (), Val (), Val (), Ptr 4], capacity = 4, head = 3\<rparr>,
          root = node nil \<lparr>idx = 1, key = 1::nat, val = ''a'', h = 1\<rparr>
                   (node nil \<lparr>idx = 2, key = 2, val = ''b'', h = 0\<rparr> nil), size' = 2\<rparr> 2 =
     Inr ((2, ''b''),
       \<lparr>pool = \<lparr>data = [Val (), Val (), Val (), Ptr 4], capacity = 4, head = 3\<rparr>,
          root = node nil \<lparr>idx = 1, key = 1, val = ''a'', h = 1\<rparr>
                   (node nil \<lparr>idx = 2, key = 2, val = ''b'', h = 0\<rparr> nil), size' = 2\<rparr>)"
proof -
  let ?ds = "\<lparr>pool = \<lparr>data = [Val (), Val (), Val (), Ptr 4], capacity = 4, head = 3\<rparr>,
          root = node nil \<lparr>idx = 1, key = 1::nat, val = (), h = 1\<rparr>
                   (node nil \<lparr>idx = 2, key = 2, val = (), h = 0\<rparr> nil), size' = 2\<rparr>"
  let ?dm = "\<lparr>pool = \<lparr>data = [Val (), Val (), Val (), Ptr 4], capacity = 4, head = 3\<rparr>,
          root = node nil \<lparr>idx = 1, key = 1::nat, val = ''a'', h = 1\<rparr>
                   (node nil \<lparr>idx = 2, key = 2, val = ''b'', h = 0\<rparr> nil), size' = 2\<rparr>"
  note swo = less_nat_strict_weak_order
  have rs: "run_new 18446744073709551615 1 (Set_step 18446744073709551615 (<))
      [Emplace (1::nat), Emplace 2] = Inr ?ds"
    by (simp add: run_simps)
  have rm: "run_new 18446744073709551615 1 (Map_step 18446744073709551615 (<) ''z'')
        [MapEmplace (1::nat) ''a'', MapEmplace 2 ''b''] = Inr ?dm"
    by (simp add: run_simps)
  have "inv_unique 18446744073709551615 (<) ?ds"
    by (rule Set_run_inv[OF swo _ _ _ rs]) simp_all
  then have iset: "dict_inv 18446744073709551615 ?ds" "sorted_unique (<) (inorder (root ?ds))"
    by (simp_all add: inv_unique_def)
  have "inv_unique 18446744073709551615 (<) ?dm"
    by (rule Map_run_inv[OF swo _ _ _ rm]) simp_all
  then have im: "dict_inv 18446744073709551615 ?dm" "sorted_unique (<) (inorder (root ?dm))"
    by (simp_all add: inv_unique_def)
  have hs: "(2, 2, ()) \<in> set (inorder (root ?ds))" "equivalent (<) (ekey (2::nat, 2::nat, ())) 2"
    by (simp_all add: entry_def ekey_def equivalent_def)
  have hm: "(2, 2, ''b'') \<in> set (inorder (root ?dm))" "equivalent (<) (ekey (2::nat, 2::nat, ''b'')) 2"
    by (simp_all add: entry_def ekey_def equivalent_def)
  have nf: "\<not> pool_full 18446744073709551615 (pool ?ds)" by (simp add: pool_full_def)
  have se: "Set_emplace 18446744073709551615 (<) ?ds 2 = Inr (False, ?ds)"
    by (simp add: run_simps)
  from insert_of_present_key[OF swo iset hs im hm, of "''z''"] rs rm hs(1) hm(1) nf se
  show ?thesis by (simp add: swo)
qed


section \<open>Claim C10: front and back\<close>

text \<open>
  C10 does not hold of the code for every dictionary. For a node type that is trivially
  destructible, \<open>clear()\<close> resets \<open>root\<close> and leaves \<open>size_\<close> as it is (claim C7).
  After \<open>emplace(1); clear()\<close> on an \<open>AVLDictSet<int>\<close>, \<open>size()\<close> is 1 and
  \<open>empty()\<close> is false, yet \<open>front()\<close> and \<open>back()\<close> return nothing.
\<close>

theorem front_of_cleared_set_is_null:
  "run_new 18446744073709551615 1 (Set_step 18446744073709551615 (<)) [Emplace (1::nat)] =
     Inr \<lparr>pool = \<lparr>data = [Val (), Val ()], capacity = 2, head = 2\<rparr>,
          root = node nil \<lparr>idx = 1, key = 1::nat, val = (), h = 0\<rparr> nil, size' = 1\<rparr>
   \<and> clear True 18446744073709551615
        \<lparr>pool = \<lparr>data = [Val (), Val ()], capacity = 2, head = 2\<rparr>,
          root = node nil \<lparr>idx = 1, key = 1::nat, val = (), h = 0\<rparr> nil, size' = 1\<rparr> =
     Inr (\<lparr>pool = \<lparr>data = [Val (), Val ()], capacity = 2, head = 2\<rparr>, root = nil, size' = 1\<rparr>
        :: (nat, unit) AVLDictionary)
   \<and> size_of (\<lparr>pool = \<lparr>data = [Val (), Val ()], capacity = 2, head = 2\<rparr>, root = nil, size' = 1\<rparr>
        :: (nat, unit) AVLDictionary) = 1
   \<and> \<not> empty_dict (\<lparr>pool = \<lparr>data = [Val (), Val ()], capacity = 2, head = 2\<rparr>, root = nil, size' = 1\<rparr>
        :: (nat, unit) AVLDictionary)
   \<and> front (\<lparr>pool = \<lparr>data = [Val (), Val ()], capacity = 2, head = 2\<rparr>, root = nil, size' = 1\<rparr>
        :: (nat, unit) AVLDictionary) = None
   \<and> back' (\<lparr>pool = \<lparr>data = [Val (), Val ()], capacity = 2, head = 2\<rparr>, root = nil, size' = 1\<rparr>
        :: (nat, unit) AVLDictionary) = None"
  by (simp add: run_simps)

text \<open>
  C10, what the code guarantees. For every dictionary, with or without the invariant:
  \<open>front()\<close> and \<open>back()\<close> return nothing exactly when the tree has no node; otherwise
  \<open>front()\<close> returns the payload of the first element of the in-order traversal and
  \<open>back()\<close> that of the last one; for a strict weak order and a sorted traversal, no
  element's key compares less than the key \<open>front()\<close> returns, and the key \<open>back()\<close>
  returns compares less than no element's key. The tree has no node exactly when the
  dictionary is empty (\<open>size() == 0\<close>) provided that \<open>size_\<close> is the number of nodes,
  which the invariant \<open>dict_inv\<close> includes and \<open>clear()\<close> can break. Both functions
  only read the dictionary: their result is a function of the tree and there is no state
  they hand back.
\<close>

theorem front_back_are_extremes:
  assumes swo: "strict_weak_order cmp" and srt: "sorted_multi cmp (inorder (root d))"
  shows "(root d = nil \<longrightarrow> front d = None \<and> back' d = None)
       \<and> (root d \<noteq> nil \<longrightarrow>
            (\<exists>f b. f \<in> set (inorder (root d)) \<and> b \<in> set (inorder (root d)) \<and>
               front d = Some (snd f) \<and> back' d = Some (snd b) \<and>
               f = hd (inorder (root d)) \<and> b = last (inorder (root d)) \<and>
               (\<forall>e \<in> set (inorder (root d)).
                  \<not> cmp (ekey e) (fst (snd f)) \<and> \<not> cmp (fst (snd b)) (ekey e))))
       \<and> (size_of d = length (inorder (root d)) \<longrightarrow> (empty_dict d \<longleftrightarrow> root d = nil))
       \<and> (dict_inv mx d \<longrightarrow> size_of d = length (inorder (root d)))"
proof (intro conjI impI)
  assume "root d = nil"
  then show "front d = None" "back' d = None" by (simp_all add: front_def back'_def)
next
  assume ne: "root d \<noteq> nil"
  then have io: "inorder (root d) \<noteq> []" by simp
  let ?f = "hd (inorder (root d))" and ?b = "last (inorder (root d))"
  have "?f \<in> set (inorder (root d))" "?b \<in> set (inorder (root d))" using io by simp_all
  moreover have "front d = Some (snd ?f)" "back' d = Some (snd ?b)"
    using front_hd[OF ne] back_last[OF ne] by simp_all
  moreover have "\<forall>e \<in> set (inorder (root d)).
      \<not> cmp (ekey e) (fst (snd ?f)) \<and> \<not> cmp (fst (snd ?b)) (ekey e)"
    using sorted_multi_hd_least[OF swo srt] sorted_multi_last_greatest[OF swo srt]
    by (simp add: ekey_def)
  ultimately show "\<exists>f b. f \<in> set (inorder (root d)) \<and> b \<in> set (inorder (root d)) \<and>
               front d = Some (snd f) \<and> back' d = Some (snd b) \<and>
               f = hd (inorder (root d)) \<and> b = last (inorder (root d)) \<and>
               (\<forall>e \<in> set (inorder (root d)).
                  \<not> cmp (ekey e) (fst (snd f)) \<and> \<not> cmp (fst (snd b)) (ekey e))"
    by blast
next
  assume "size_of d = length (inorder (root d))"
  then show "empty_dict d \<longleftrightarrow> root d = nil" by (simp add: empty_dict_def)
next
  assume "dict_inv mx d"
  then show "size_of d = length (inorder (root d))" by (simp add: dict_inv_def size_of_def)
qed

theorem front_back_are_extremes_witness:
  "strict_weak_order ((<) :: nat \<Rightarrow> nat \<Rightarrow> bool)
   \<and> run_new 18446744073709551615 1 (Map_step 18446744073709551615 (<) ''z'')
        [MapEmplace (2::nat) ''b'', MapEmplace 1 ''a'', MapEmplace 3 ''c''] =
     Inr \<lparr>pool = \<lparr>data = [Val (), Val (), Val (), Val ()], capacity = 4, head = 4\<rparr>,
          root = node (node nil \<lparr>idx = 2, key = 1, val = ''a'', h = 0\<rparr> nil)
                   \<lparr>idx = 1, key = 2, val = ''b'', h = 1\<rparr>
                   (node nil \<lparr>idx = 3, key = 3, val = ''c'', h = 0\<rparr> nil), size' = 3\<rparr>
   \<and> \<not> empty_dict
       \<lparr>pool = \<lparr>data = [Val (), Val (), Val (), Val ()], capacity = 4, head = 4\<rparr>,
          root = node (node nil \<lparr>idx = 2, key = 1::nat, val = ''a'', h = 0\<rparr> nil)
                   \<lparr>idx = 1, key = 2, val = ''b'', h = 1\<rparr>
                   (node nil \<lparr>idx = 3, key = 3, val = ''c'', h = 0\<rparr> nil), size' = 3\<rparr>
   \<and> front
       \<lparr>pool = \<lparr>data = [Val (), Val (), Val (), Val ()], capacity = 4, head = 4\<rparr>,
          root = node (node nil \<lparr>idx = 2, key = 1::nat, val = ''a'', h = 0\<rparr> nil)
                   \<lparr>idx = 1, key = 2, val = ''b'', h = 1\<rparr>
                   (node nil \<lparr>idx = 3, key = 3, val = ''c'', h = 0\<rparr> nil), size' = 3\<rparr>
     = Some (1, ''a'')
   \<and> back'
       \<lparr>pool = \<lparr>data = [Val (), Val (), Val (), Val ()], capacity = 4, head = 4\<rparr>,
          root = node (node nil \<lparr>idx = 2, key = 1::nat, val = ''a'', h = 0\<rparr> nil)
                   \<lparr>idx = 1, key = 2, val = ''b'', h = 1\<rparr>
                   (node nil \<lparr>idx = 3, key = 3, val = ''c'', h = 0\<rparr> nil), size' = 3\<rparr>
     = Some (3, ''c'')"
proof -
  let ?d = "\<lparr>pool = \<lparr>data = [Val (), Val (), Val (), Val ()], capacity = 4, head = 4\<rparr>,
          root = node (node nil \<lparr>idx = 2, key = 1::nat, val = ''a'', h = 0\<rparr> nil)
                   \<lparr>idx = 1, key = 2, val = ''b'', h = 1\<rparr>
                   (node nil \<lparr>idx = 3, key = 3, val = ''c'', h = 0\<rparr> nil), size' = 3\<rparr>"
  note swo = less_nat_strict_weak_order
  have run: "run_new 18446744073709551615 1 (Map_step 18446744073709551615 (<) ''z'')
        [MapEmplace (2::nat) ''b'', MapEmplace 1 ''a'', MapEmplace 3 ''c''] = Inr ?d"
    by (simp add: run_simps)
  have "inv_unique 18446744073709551615 (<) ?d"
    by (rule Map_run_inv[OF swo _ _ _ run]) simp_all
  then have inv: "dict_inv 18446744073709551615 ?d" and srt: "sorted_multi (<) (inorder (root ?d))"
    using inv_unique_multi[OF swo, of 18446744073709551615 ?d]
    by (simp_all add: inv_unique_def inv_multi_def)
  have ne: "\<not> empty_dict ?d" by (simp add: empty_dict_def size_of_def)
  have nn: "root ?d \<noteq> nil" by simp
  from front_back_are_extremes[OF swo srt, of 18446744073709551615] nn
  obtain f b where fb: "front ?d = Some (snd f)" "back' ?d = Some (snd b)"
    "f = hd (inorder (root ?d))" "b = last (inorder (root ?d))"
    by blast
  have "f = (2, 1, ''a'')" "b = (3, 3, ''c'')" using fb(3,4) by (simp_all add: entry_def)
  then show ?thesis using fb(1,2) run ne by (simp add: swo)
qed


section \<open>Claim C4: Map.alter_key onto an existing key\<close>

text \<open>
  C4 does not hold of the code for every map. \<open>pull_out\<close> resets the kids of the node
  it detaches, not its stored height, and a node that \<open>alter_key\<close> reinserts under a
  new key keeps the height of its old position. In the map that \<open>alter_key(9, 0)\<close>
  leaves after \<open>emplace\<close> of 22, 11, 10, 3, 15, 9, 13, 4, 5, the keys 13 and 22 are both
  present, and \<open>alter_key(13, 22)\<close> fails the assertion of \<open>rebalance_and_seth\<close>
  instead of returning (true, true).
\<close>

theorem alter_key_onto_existing_key_aborts:
  "run_new 18446744073709551615 1 (Map_step 18446744073709551615 (<) ''z'')
      (map (\<lambda>k. MapEmplace k ''v'') [22, 11, 10, 3, 15, 9, 13, 4, 5::nat]) =
     Inr \<lparr>pool = \<lparr>data = [Val (), Val (), Val (), Val (), Val (), Val (), Val (), Val (), Val (), Val (),
                     Ptr 11, Ptr 12, Ptr 13, Ptr 14, Ptr 15, Ptr 16],
             capacity = 16, head = 10\<rparr>,
          root = node (node (node nil \<lparr>idx = 4, key = 3::nat, val = ''v'', h = 2\<rparr>
                          (node nil \<lparr>idx = 8, key = 4, val = ''v'', h = 1\<rparr>
                             (node nil \<lparr>idx = 9, key = 5, val = ''v'', h = 0\<rparr> nil)))
                    \<lparr>idx = 6, key = 9, val = ''v'', h = 3\<rparr>
                    (node nil \<lparr>idx = 3, key = 10, val = ''v'', h = 1\<rparr> nil))
               \<lparr>idx = 2, key = 11, val = ''v'', h = 4\<rparr>
               (node (node (node nil \<lparr>idx = 7, key = 13, val = ''v'', h = 0\<rparr> nil)
                        \<lparr>idx = 5, key = 15, val = ''v'', h = 1\<rparr> nil)
                  \<lparr>idx = 1, key = 22, val = ''v'', h = 2\<rparr> nil),
          size' = 9\<rparr>
   \<and> Map_alter_key 18446744073709551615 (<)
       \<lparr>pool = \<lparr>data = [Val (), Val (), Val (), Val (), Val (), Val (), Val (), Val (), Val (), Val (),
                     Ptr 11, Ptr 12, Ptr 13, Ptr 14, Ptr 15, Ptr 16],
             capacity = 16, head = 10\<rparr>,
          root = node (node (node nil \<lparr>idx = 4, key = 3::nat, val = ''v'', h = 2\<rparr>
                          (node nil \<lparr>idx = 8, key = 4, val = ''v'', h = 1\<rparr>
                             (node nil \<lparr>idx = 9, key = 5, val = ''v'', h = 0\<rparr> nil)))
                    \<lparr>idx = 6, key = 9, val = ''v'', h = 3\<rparr>
                    (node nil \<lparr>idx = 3, key = 10, val = ''v'', h = 1\<rparr> nil))
               \<lparr>idx = 2, key = 11, val = ''v'', h = 4\<rparr>
               (node (node (node nil \<lparr>idx = 7, key = 13, val = ''v'', h = 0\<rparr> nil)
                        \<lparr>idx = 5, key = 15, val = ''v'', h = 1\<rparr> nil)
                  \<lparr>idx = 1, key = 22, val = ''v'', h = 2\<rparr> nil),
          size' = 9\<rparr> 9 0 =
     Inr ((True, False),
       \<lparr>pool = \<lparr>data = [Val (), Val (), Val (), Val (), Val (), Val (), Val (), Val (), Val (), Val (),
                     Ptr 11, Ptr 12, Ptr 13, Ptr 14, Ptr 15, Ptr 16],
             capacity = 16, head = 10\<rparr>,
          root = node nil \<lparr>idx = 6, key = 0::nat, val = ''v'', h = 5\<rparr>
               (node (node (node nil \<lparr>idx = 4, key = 3, val = ''v'', h = 2\<rparr>
                              (node nil \<lparr>idx = 8, key = 4, val = ''v'', h = 1\<rparr> nil))
                        \<lparr>idx = 9, key = 5, val = ''v'', h = 3\<rparr>
                        (node nil \<lparr>idx = 3, key = 10, val = ''v'', h = 1\<rparr> nil))
                  \<lparr>idx = 2, key = 11, val = ''v'', h = 4\<rparr>
                  (node (node (node nil \<lparr>idx = 7, key = 13, val = ''v'', h = 0\<rparr> nil)
                           \<lparr>idx = 5, key = 15, val = ''v'', h = 1\<rparr> nil)
                     \<lparr>idx = 1, key = 22, val = ''v'', h = 2\<rparr> nil)),
          size' = 9\<rparr>)
   \<and> \<not> dict_inv 18446744073709551615
       \<lparr>pool = \<lparr>data = [Val (), Val (), Val (), Val (), Val (), Val (), Val (), Val (), Val (), Val (),
                     Ptr 11, Ptr 12, Ptr 13, Ptr 14, Ptr 15, Ptr 16],
             capacity = 16, head = 10\<rparr>,
          root = node nil \<lparr>idx = 6, key = 0::nat, val = ''v'', h = 5\<rparr>
               (node (node (node nil \<lparr>idx = 4, key = 3, val = ''v'', h = 2\<rparr>
                              (node nil \<lparr>idx = 8, key = 4, val = ''v'', h = 1\<rparr> nil))
                        \<lparr>idx = 9, key = 5, val = ''v'', h = 3\<rparr>
                        (node nil \<lparr>idx = 3, key = 10, val = ''v'', h = 1\<rparr> nil))
                  \<lparr>idx = 2, key = 11, val = ''v'', h = 4\<rparr>
                  (node (node (node nil \<lparr>idx = 7, key = 13, val = ''v'', h = 0\<rparr> nil)
                           \<lparr>idx = 5, key = 15, val = ''v'', h = 1\<rparr> nil)
                     \<lparr>idx = 1, key = 22, val = ''v'', h = 2\<rparr> nil)),
          size' = 9\<rparr>
   \<and> find_key (<) (node nil \<lparr>idx = 6, key = 0::nat, val = ''v'', h = 5\<rparr>
               (node (node (node nil \<lparr>idx = 4, key = 3, val = ''v'', h = 2\<rparr>
                              (node nil \<lparr>idx = 8, key = 4, val = ''v'', h = 1\<rparr> nil))
                        \<lparr>idx = 9, key = 5, val = ''v'', h = 3\<rparr>
                        (node nil \<lparr>idx = 3, key = 10, val = ''v'', h = 1\<rparr> nil))
                  \<lparr>idx = 2, key = 11, val = ''v'', h = 4\<rparr>
                  (node (node (node nil \<lparr>idx = 7, key = 13, val = ''v'', h = 0\<rparr> nil)
                           \<lparr>idx = 5, key = 15, val = ''v'', h = 1\<rparr> nil)
                     \<lparr>idx = 1, key = 22, val = ''v'', h = 2\<rparr> nil))) 13 =
       Some \<lparr>idx = 7, key = 13, val = ''v'', h = 0\<rparr>
   \<and> find_key (<) (node nil \<lparr>idx = 6, key = 0::nat, val = ''v'', h = 5\<rparr>
               (node (node (node nil \<lparr>idx = 4, key = 3, val = ''v'', h = 2\<rparr>
                              (node nil \<lparr>idx = 8, key = 4, val = ''v'', h = 1\<rparr> nil))
                        \<lparr>idx = 9, key = 5, val = ''v'', h = 3\<rparr>
                        (node nil \<lparr>idx = 3, key = 10, val = ''v'', h = 1\<rparr> nil))
                  \<lparr>idx = 2, key = 11, val = ''v'', h = 4\<rparr>
                  (node (node (node nil \<lparr>idx = 7, key = 13, val = ''v'', h = 0\<rparr> nil)
                           \<lparr>idx = 5, key = 15, val = ''v'', h = 1\<rparr> nil)
                     \<lparr>idx = 1, key = 22, val = ''v'', h = 2\<rparr> nil))) 22 =
       Some \<lparr>idx = 1, key = 22, val = ''v'', h = 2\<rparr>
   \<and> Map_alter_key 18446744073709551615 (<)
       \<lparr>pool = \<lparr>data = [Val (), Val (), Val (), Val (), Val (), Val (), Val (), Val (), Val (), Val (),
                     Ptr 11, Ptr 12, Ptr 13, Ptr 14, Ptr 15, Ptr 16],
             capacity = 16, head = 10\<rparr>,
          root = node nil \<lparr>idx = 6, key = 0::nat, val = ''v'', h = 5\<rparr>
               (node (node (node nil \<lparr>idx = 4, key = 3, val = ''v'', h = 2\<rparr>
                              (node nil \<lparr>idx = 8, key = 4, val = ''v'', h = 1\<rparr> nil))
                        \<lparr>idx = 9, key = 5, val = ''v'', h = 3\<rparr>
                        (node nil \<lparr>idx = 3, key = 10, val = ''v'', h = 1\<rparr> nil))
                  \<lparr>idx = 2, key = 11, val = ''v'', h = 4\<rparr>
                  (node (node (node nil \<lparr>idx = 7, key = 13, val = ''v'', h = 0\<rparr> nil)
                           \<lparr>idx = 5, key = 15, val = ''v'', h = 1\<rparr> nil)
                     \<lparr>idx = 1, key = 22, val = ''v'', h = 2\<rparr> nil)),
          size' = 9\<rparr> 13 22 =
     Inl AssertionFailed"
proof -
  have b:
    "find_key (<) (node nil \<lparr>idx = 6, key = 0::nat, val = ''v'', h = 5\<rparr>
               (node (node (node nil \<lparr>idx = 4, key = 3, val = ''v'', h = 2\<rparr>
                              (node nil \<lparr>idx = 8, key = 4, val = ''v'', h = 1\<rparr> nil))
                        \<lparr>idx = 9, key = 5, val = ''v'', h = 3\<rparr>
                        (node nil \<lparr>idx = 3, key = 10, val = ''v'', h = 1\<rparr> nil))
                  \<lparr>idx = 2, key = 11, val = ''v'', h = 4\<rparr>
                  (node (node (node nil \<lparr>idx = 7, key = 13, val = ''v'', h = 0\<rparr> nil)
                           \<lparr>idx = 5, key = 15, val = ''v'', h = 1\<rparr> nil)
                     \<lparr>idx = 1, key = 22, val = ''v'', h = 2\<rparr> nil))) 13 =
       Some \<lparr>idx = 7, key = 13, val = ''v'', h = 0\<rparr>"
    "find_key (<) (node nil \<lparr>idx = 6, key = 0::nat, val = ''v'', h = 5\<rparr>
               (node (node (node nil \<lparr>idx = 4, key = 3, val = ''v'', h = 2\<rparr>
                              (node nil \<lparr>idx = 8, key = 4, val = ''v'', h = 1\<rparr> nil))
                        \<lparr>idx = 9, key = 5, val = ''v'', h = 3\<rparr>
                        (node nil \<lparr>idx = 3, key = 10, val = ''v'', h = 1\<rparr> nil))
                  \<lparr>idx = 2, key = 11, val = ''v'', h = 4\<rparr>
                  (node (node (node nil \<lparr>idx = 7, key = 13, val = ''v'', h = 0\<rparr> nil)
                           \<lparr>idx = 5, key = 15, val = ''v'', h = 1\<rparr> nil)
                     \<lparr>idx = 1, key = 22, val = ''v'', h = 2\<rparr> nil))) 22 =
       Some \<lparr>idx = 1, key = 22, val = ''v'', h = 2\<rparr>"
    "Map_alter_key 18446744073709551615 (<)
       \<lparr>pool = \<lparr>data = [Val (), Val (), Val (), Val (), Val (), Val (), Val (), Val (), Val (), Val (),
                     Ptr 11, Ptr 12, Ptr 13, Ptr 14, Ptr 15, Ptr 16],
             capacity = 16, head = 10\<rparr>,
          root = node nil \<lparr>idx = 6, key = 0::nat, val = ''v'', h = 5\<rparr>
               (node (node (node nil \<lparr>idx = 4, key = 3, val = ''v'', h = 2\<rparr>
                              (node nil \<lparr>idx = 8, key = 4, val = ''v'', h = 1\<rparr> nil))
                        \<lparr>idx = 9, key = 5, val = ''v'', h = 3\<rparr>
                        (node nil \<lparr>idx = 3, key = 10, val = ''v'', h = 1\<rparr> nil))
                  \<lparr>idx = 2, key = 11, val = ''v'', h = 4\<rparr>
                  (node (node (node nil \<lparr>idx = 7, key = 13, val = ''v'', h = 0\<rparr> nil)
                           \<lparr>idx = 5, key = 15, val = ''v'', h = 1\<rparr> nil)
                     \<lparr>idx = 1, key = 22, val = ''v'', h = 2\<rparr> nil)),
          size' = 9\<rparr> 13 22 =
     Inl AssertionFailed"
    by (simp_all add: run_simps)
  show ?thesis using map_after_alter_key b by (intro conjI) simp_all
qed

text \<open>
  C4, what the code guarantees. The invariant \<open>dict_inv\<close> holds after every sequence
  of emplace, insert, \<open>operator[]\<close> and erase operations on a new dictionary (not after
  every \<open>alter_key\<close>). Let a Map satisfy it with a strictly sorted traversal, let \<open>eo\<close> be its
  element with key equivalent to \<open>old\<close> and \<open>en\<close> another element, with key equivalent
  to \<open>new\<close>. Then \<open>alter_key(old, new)\<close> returns (true, true), \<open>size()\<close> decreases
  by exactly 1, and the traversal is the old one without \<open>eo\<close> and with \<open>en\<close>
  replaced by the node of \<open>eo\<close> (same handle, same value) under the key \<open>new\<close>: it is
  the only element with a key equivalent to \<open>new\<close>, the value of \<open>en\<close> is gone and its
  slot is free. The invariant and the strict order are preserved.
\<close>

theorem alter_key_onto_existing_key:
  fixes d :: "('k, 'v) AVLDictionary"
  assumes swo: "strict_weak_order cmp" and inv: "dict_inv mx d"
    and srt: "sorted_unique cmp (inorder (root d))"
    and eo: "eo \<in> set (inorder (root d))" "equivalent cmp (ekey eo) old"
    and en: "en \<in> set (inorder (root d))" "equivalent cmp (ekey en) new" and ne: "en \<noteq> eo"
  shows "\<exists>d'. Map_alter_key mx cmp d old new = Inr ((True, True), d') \<and>
           size_of d' + 1 = size_of d \<and>
           inorder (root d') =
             map (\<lambda>e. if e = en then (fst eo, new, snd (snd eo)) else e)
               (filter (\<lambda>e. e \<noteq> eo) (inorder (root d))) \<and>
           (fst eo, new, snd (snd eo)) \<in> set (inorder (root d')) \<and>
           (\<forall>e \<in> set (inorder (root d')).
              equivalent cmp (ekey e) new \<longrightarrow> e = (fst eo, new, snd (snd eo))) \<and>
           occupied (pool d') = occupied (pool d) - {fst en} \<and>
           dict_inv mx d' \<and> sorted_unique cmp (inorder (root d'))"
proof -
  let ?e = "(fst eo, new, snd (snd eo))"
  let ?f = "\<lambda>e. if e = en then ?e else e"
  from Map_alter_key_collision[OF swo inv srt eo en ne]
  obtain d' where d': "Map_alter_key mx cmp d old new = Inr ((True, True), d')"
    "dict_inv mx d'" "sorted_unique cmp (inorder (root d'))" "size' d' + 1 = size' d"
    "inorder (root d') = map ?f (filter (\<lambda>e. e \<noteq> eo) (inorder (root d)))"
    "occupied (pool d') = occupied (pool d) - {fst en}"
    by blast
  have "en \<in> set (filter (\<lambda>e. e \<noteq> eo) (inorder (root d)))" using en(1) ne by simp
  then have "?f en \<in> set (inorder (root d'))" unfolding d'(5) set_map by (rule imageI)
  then have mem: "?e \<in> set (inorder (root d'))" by simp
  have eq: "equivalent cmp (ekey ?e) new"
    using swo_D(1)[OF swo] by (simp add: ekey_def equivalent_def)
  have uniq: "\<forall>e \<in> set (inorder (root d')). equivalent cmp (ekey e) new \<longrightarrow> e = ?e"
    using sorted_unique_equivalent_unique[OF swo d'(3) _ _ mem eq] by blast
  show ?thesis unfolding size_of_def using d'(1,4,5,6,2,3) mem uniq by blast
qed

theorem alter_key_onto_existing_key_witness:
  "strict_weak_order ((<) :: nat \<Rightarrow> nat \<Rightarrow> bool)
   \<and> run_new 18446744073709551615 1 (Map_step 18446744073709551615 (<) ''z'')
        [MapEmplace (1::nat) ''a'', MapEmplace 2 ''b'', MapEmplace 3 ''c''] =
     Inr \<lparr>pool = \<lparr>data = [Val (), Val (), Val (), Val ()], capacity = 4, head = 4\<rparr>,
          root = node nil \<lparr>idx = 1, key = 1, val = ''a'', h = 2\<rparr>
                   (node nil \<lparr>idx = 2, key = 2, val = ''b'', h = 1\<rparr>
                      (node nil \<lparr>idx = 3, key = 3, val = ''c'', h = 0\<rparr> nil)), size' = 3\<rparr>
   \<and> Map_alter_key 18446744073709551615 (<)
       \<lparr>pool = \<lparr>data = [Val (), Val (), Val (), Val ()], capacity = 4, head = 4\<rparr>,
          root = node nil \<lparr>idx = 1, key = 1::nat, val = ''a'', h = 2\<rparr>
                   (node nil \<lparr>idx = 2, key = 2, val = ''b'', h = 1\<rparr>
                      (node nil \<lparr>idx = 3, key = 3, val = ''c'', h = 0\<rparr> nil)), size' = 3\<rparr> 1 3 =
     Inr ((True, True),
       \<lparr>pool = \<lparr>data = [Val (), Val (), Val (), Ptr 4], capacity = 4, head = 3\<rparr>,
          root = node nil \<lparr>idx = 2, key = 2, val = ''b'', h = 1\<rparr>
                   (node nil \<lparr>idx = 1, key = 3, val = ''a'', h = 0\<rparr> nil), size' = 2\<rparr>)
   \<and> inorder (node nil \<lparr>idx = 2, key = 2::nat, val = ''b'', h = 1\<rparr>
                   (node nil \<lparr>idx = 1, key = 3, val = ''a'', h = 0\<rparr> nil)) =
     map (\<lambda>e. if e = (3, 3, ''c'') then (1, 3, ''a'') else e)
       (filter (\<lambda>e. e \<noteq> (1, 1, ''a'')) [(1, 1, ''a''), (2, 2, ''b''), (3, 3, ''c'')])"
proof -
  let ?d = "\<lparr>pool = \<lparr>data = [Val (), Val (), Val (), Val ()], capacity = 4, head = 4\<rparr>,
          root = node nil \<lparr>idx = 1, key = 1::nat, val = ''a'', h = 2\<rparr>
                   (node nil \<lparr>idx = 2, key = 2, val = ''b'', h = 1\<rparr>
                      (node nil \<lparr>idx = 3, key = 3, val = ''c'', h = 0\<rparr> nil)), size' = 3\<rparr>"
  note swo = less_nat_strict_weak_order
  have run: "run_new 18446744073709551615 1 (Map_step 18446744073709551615 (<) ''z'')
        [MapEmplace (1::nat) ''a'', MapEmplace 2 ''b'', MapEmplace 3 ''c''] = Inr ?d"
    by (simp add: run_simps)
  have "inv_unique 18446744073709551615 (<) ?d"
    by (rule Map_run_inv[OF swo _ _ _ run]) simp_all
  then have inv: "dict_inv 18446744073709551615 ?d" and srt: "sorted_unique (<) (inorder (root ?d))"
    by (simp_all add: inv_unique_def)
  have io: "inorder (root ?d) = [(1, 1, ''a''), (2, 2, ''b''), (3, 3, ''c'')]"
    by (simp add: entry_def)
  have eo: "(1, 1, ''a'') \<in> set (inorder (root ?d))" "equivalent (<) (ekey (1::nat, 1::nat, ''a'')) 1"
    unfolding io by (simp_all add: ekey_def equivalent_def)
  have en: "(3, 3, ''c'') \<in> set (inorder (root ?d))" "equivalent (<) (ekey (3::nat, 3::nat, ''c'')) 3"
    unfolding io by (simp_all add: ekey_def equivalent_def)
  have ne: "(3::nat, 3::nat, ''c'') \<noteq> (1, 1, ''a'')" by simp
  have ak: "Map_alter_key 18446744073709551615 (<) ?d 1 3 =
     Inr ((True, True),
       \<lparr>pool = \<lparr>data = [Val (), Val (), Val (), Ptr 4], capacity = 4, head = 3\<rparr>,
          root = node nil \<lparr>idx = 2, key = 2, val = ''b'', h = 1\<rparr>
                   (node nil \<lparr>idx = 1, key = 3, val = ''a'', h = 0\<rparr> nil), size' = 2\<rparr>)"
    by (simp add: run_simps)
  let ?d2 = "\<lparr>pool = \<lparr>data = [Val (), Val (), Val (), Ptr 4], capacity = 4, head = 3\<rparr>,
          root = node nil \<lparr>idx = 2, key = 2::nat, val = ''b'', h = 1\<rparr>
                   (node nil \<lparr>idx = 1, key = 3, val = ''a'', h = 0\<rparr> nil), size' = 2\<rparr>"
  from alter_key_onto_existing_key[OF swo inv srt eo en ne]
  obtain d' where d': "Map_alter_key 18446744073709551615 (<) ?d 1 3 = Inr ((True, True), d')"
    "inorder (root d') = map (\<lambda>e. if e = (3, 3, ''c'') then (fst (1::nat, 1::nat, ''a''), 3, snd (snd (1::nat, 1::nat, ''a''))) else e)
       (filter (\<lambda>e. e \<noteq> (1, 1, ''a'')) (inorder (root ?d)))"
    by blast
  have "d' = ?d2" using d'(1) unfolding ak by simp
  then have "inorder (root ?d2) = map (\<lambda>e. if e = (3, 3, ''c'') then (1, 3, ''a'') else e)
       (filter (\<lambda>e. e \<noteq> (1, 1, ''a'')) [(1, 1, ''a''), (2, 2, ''b''), (3, 3, ''c'')])"
    using d'(2) unfolding io by simp
  then show ?thesis using run ak swo by simp
qed


section \<open>Claim C6: the only failure is AllocatorExhausted\<close>

text \<open>
  C6 does not hold of the code, at two kinds of inputs.

  \<^item> In the map that \<open>alter_key(9, 0)\<close> leaves after \<open>emplace\<close> of 22, 11, 10, 3, 15,
    9, 13, 4, 5, the key 50 is absent, and \<open>erase(50)\<close> and \<open>alter_key(50, 60)\<close> fail
    the assertion of \<open>rebalance_and_seth\<close> instead of returning false and
    (false, false): a failure that is not \<open>AllocatorExhausted\<close>.
  \<^item> The early return of \<open>reserve_for\<close> is guarded by \<open>n < capacity()\<close>, so
    \<open>reserve_for(n)\<close> with \<open>n == capacity()\<close> goes on to the test
    \<open>capacity() == max_capacity()\<close> and throws when the arena already has the maximal
    capacity, although \<open>n\<close> does not exceed the capacity, no node is requested and
    slots may be free. With an 8-bit \<open>size_type\<close> (maximum 255), a pool constructed
    with 255 slots, all of them free, fails on \<open>reserve_for(255)\<close>.
\<close>

theorem absent_key_aborts_and_reserve_for_fails:
  "capacity (AVLPoolAllocator_reserve 255 :: unit AVLPoolAllocator) = 255
   \<and> head (AVLPoolAllocator_reserve 255 :: unit AVLPoolAllocator) = 0
   \<and> (255::nat) \<le> capacity (AVLPoolAllocator_reserve 255 :: unit AVLPoolAllocator)
   \<and> reserve_for 255 (AVLPoolAllocator_reserve 255 :: unit AVLPoolAllocator) 255 =
       Some (Inl AllocatorExhausted)
   \<and> run_new 18446744073709551615 1 (Map_step 18446744073709551615 (<) ''z'')
      (map (\<lambda>k. MapEmplace k ''v'') [22, 11, 10, 3, 15, 9, 13, 4, 5::nat]) =
     Inr \<lparr>pool = \<lparr>data = [Val (), Val (), Val (), Val (), Val (), Val (), Val (), Val (), Val (), Val (),
                     Ptr 11, Ptr 12, Ptr 13, Ptr 14, Ptr 15, Ptr 16],
             capacity = 16, head = 10\<rparr>,
          root = node (node (node nil \<lparr>idx = 4, key = 3::nat, val = ''v'', h = 2\<rparr>
                          (node nil \<lparr>idx = 8, key = 4, val = ''v'', h = 1\<rparr>
                             (node nil \<lparr>idx = 9, key = 5, val = ''v'', h = 0\<rparr> nil)))
                    \<lparr>idx = 6, key = 9, val = ''v'', h = 3\<rparr>
                    (node nil \<lparr>idx = 3, key = 10, val = ''v'', h = 1\<rparr> nil))
               \<lparr>idx = 2, key = 11, val = ''v'', h = 4\<rparr>
               (node (node (node nil \<lparr>idx = 7, key = 13, val = ''v'', h = 0\<rparr> nil)
                        \<lparr>idx = 5, key = 15, val = ''v'', h = 1\<rparr> nil)
                  \<lparr>idx = 1, key = 22, val = ''v'', h = 2\<rparr> nil),
          size' = 9\<rparr>
   \<and> Map_alter_key 18446744073709551615 (<)
       \<lparr>pool = \<lparr>data = [Val (), Val (), Val (), Val (), Val (), Val (), Val (), Val (), Val (), Val (),
                     Ptr 11, Ptr 12, Ptr 13, Ptr 14, Ptr 15, Ptr 16],
             capacity = 16, head = 10\<rparr>,
          root = node (node (node nil \<lparr>idx = 4, key = 3::nat, val = ''v'', h = 2\<rparr>
                          (node nil \<lparr>idx = 8, key = 4, val = ''v'', h = 1\<rparr>
                             (node nil \<lparr>idx = 9, key = 5, val = ''v'', h = 0\<rparr> nil)))
                    \<lparr>idx = 6, key = 9, val = ''v'', h = 3\<rparr>
                    (node nil \<lparr>idx = 3, key = 10, val = ''v'', h = 1\<rparr> nil))
               \<lparr>idx = 2, key = 11, val = ''v'', h = 4\<rparr>
               (node (node (node nil \<lparr>idx = 7, key = 13, val = ''v'', h = 0\<rparr> nil)
                        \<lparr>idx = 5, key = 15, val = ''v'', h = 1\<rparr> nil)
                  \<lparr>idx = 1, key = 22, val = ''v'', h = 2\<rparr> nil),
          size' = 9\<rparr> 9 0 =
     Inr ((True, False),
       \<lparr>pool = \<lparr>data = [Val (), Val (), Val (), Val (), Val (), Val (), Val (), Val (), Val (), Val (),
                     Ptr 11, Ptr 12, Ptr 13, Ptr 14, Ptr 15, Ptr 16],
             capacity = 16, head = 10\<rparr>,
          root = node nil \<lparr>idx = 6, key = 0::nat, val = ''v'', h = 5\<rparr>
               (node (node (node nil \<lparr>idx = 4, key = 3, val = ''v'', h = 2\<rparr>
                              (node nil \<lparr>idx = 8, key = 4, val = ''v'', h = 1\<rparr> nil))
                        \<lparr>idx = 9, key = 5, val = ''v'', h = 3\<rparr>
                        (node nil \<lparr>idx = 3, key = 10, val = ''v'', h = 1\<rparr> nil))
                  \<lparr>idx = 2, key = 11, val = ''v'', h = 4\<rparr>
                  (node (node (node nil \<lparr>idx = 7, key = 13, val = ''v'', h = 0\<rparr> nil)
                           \<lparr>idx = 5, key = 15, val = ''v'', h = 1\<rparr> nil)
                     \<lparr>idx = 1, key = 22, val = ''v'', h = 2\<rparr> nil)),
          size' = 9\<rparr>)
   \<and> \<not> dict_inv 18446744073709551615
       \<lparr>pool = \<lparr>data = [Val (), Val (), Val (), Val (), Val (), Val (), Val (), Val (), Val (), Val (),
                     Ptr 11, Ptr 12, Ptr 13, Ptr 14, Ptr 15, Ptr 16],
             capacity = 16, head = 10\<rparr>,
          root = node nil \<lparr>idx = 6, key = 0::nat, val = ''v'', h = 5\<rparr>
               (node (node (node nil \<lparr>idx = 4, key = 3, val = ''v'', h = 2\<rparr>
                              (node nil \<lparr>idx = 8, key = 4, val = ''v'', h = 1\<rparr> nil))
                        \<lparr>idx = 9, key = 5, val = ''v'', h = 3\<rparr>
                        (node nil \<lparr>idx = 3, key = 10, val = ''v'', h = 1\<rparr> nil))
                  \<lparr>idx = 2, key = 11, val = ''v'', h = 4\<rparr>
                  (node (node (node nil \<lparr>idx = 7, key = 13, val = ''v'', h = 0\<rparr> nil)
                           \<lparr>idx = 5, key = 15, val = ''v'', h = 1\<rparr> nil)
                     \<lparr>idx = 1, key = 22, val = ''v'', h = 2\<rparr> nil)),
          size' = 9\<rparr>
   \<and> find_key (<) (node nil \<lparr>idx = 6, key = 0::nat, val = ''v'', h = 5\<rparr>
               (node (node (node nil \<lparr>idx = 4, key = 3, val = ''v'', h = 2\<rparr>
                              (node nil \<lparr>idx = 8, key = 4, val = ''v'', h = 1\<rparr> nil))
                        \<lparr>idx = 9, key = 5, val = ''v'', h = 3\<rparr>
                        (node nil \<lparr>idx = 3, key = 10, val = ''v'', h = 1\<rparr> nil))
                  \<lparr>idx = 2, key = 11, val = ''v'', h = 4\<rparr>
                  (node (node (node nil \<lparr>idx = 7, key = 13, val = ''v'', h = 0\<rparr> nil)
                           \<lparr>idx = 5, key = 15, val = ''v'', h = 1\<rparr> nil)
                     \<lparr>idx = 1, key = 22, val = ''v'', h = 2\<rparr> nil))) 50 = None
   \<and> erase 18446744073709551615 (<)
       \<lparr>pool = \<lparr>data = [Val (), Val (), Val (), Val (), Val (), Val (), Val (), Val (), Val (), Val (),
                     Ptr 11, Ptr 12, Ptr 13, Ptr 14, Ptr 15, Ptr 16],
             capacity = 16, head = 10\<rparr>,
          root = node nil \<lparr>idx = 6, key = 0::nat, val = ''v'', h = 5\<rparr>
               (node (node (node nil \<lparr>idx = 4, key = 3, val = ''v'', h = 2\<rparr>
                              (node nil \<lparr>idx = 8, key = 4, val = ''v'', h = 1\<rparr> nil))
                        \<lparr>idx = 9, key = 5, val = ''v'', h = 3\<rparr>
                        (node nil \<lparr>idx = 3, key = 10, val = ''v'', h = 1\<rparr> nil))
                  \<lparr>idx = 2, key = 11, val = ''v'', h = 4\<rparr>
                  (node (node (node nil \<lparr>idx = 7, key = 13, val = ''v'', h = 0\<rparr> nil)
                           \<lparr>idx = 5, key = 15, val = ''v'', h = 1\<rparr> nil)
                     \<lparr>idx = 1, key = 22, val = ''v'', h = 2\<rparr> nil)),
          size' = 9\<rparr> 50 =
     Inl AssertionFailed
   \<and> Map_alter_key 18446744073709551615 (<)
       \<lparr>pool = \<lparr>data = [Val (), Val (), Val (), Val (), Val (), Val (), Val (), Val (), Val (), Val (),
                     Ptr 11, Ptr 12, Ptr 13, Ptr 14, Ptr 15, Ptr 16],
             capacity = 16, head = 10\<rparr>,
          root = node nil \<lparr>idx = 6, key = 0::nat, val = ''v'', h = 5\<rparr>
               (node (node (node nil \<lparr>idx = 4, key = 3, val = ''v'', h = 2\<rparr>
                              (node nil \<lparr>idx = 8, key = 4, val = ''v'', h = 1\<rparr> nil))
                        \<lparr>idx = 9, key = 5, val = ''v'', h = 3\<rparr>
                        (node nil \<lparr>idx = 3, key = 10, val = ''v'', h = 1\<rparr> nil))
                  \<lparr>idx = 2, key = 11, val = ''v'', h = 4\<rparr>
                  (node (node (node nil \<lparr>idx = 7, key = 13, val = ''v'', h = 0\<rparr> nil)
                           \<lparr>idx = 5, key = 15, val = ''v'', h = 1\<rparr> nil)
                     \<lparr>idx = 1, key = 22, val = ''v'', h = 2\<rparr> nil)),
          size' = 9\<rparr> 50 60 =
     Inl AssertionFailed"
proof -
  have a: "capacity (AVLPoolAllocator_reserve 255 :: unit AVLPoolAllocator) = 255
   \<and> head (AVLPoolAllocator_reserve 255 :: unit AVLPoolAllocator) = 0
   \<and> (255::nat) \<le> capacity (AVLPoolAllocator_reserve 255 :: unit AVLPoolAllocator)
   \<and> reserve_for 255 (AVLPoolAllocator_reserve 255 :: unit AVLPoolAllocator) 255 =
       Some (Inl AllocatorExhausted)"
    by (simp add: AVLPoolAllocator_reserve_def reserve_for_def)
  have b:
    "find_key (<) (node nil \<lparr>idx = 6, key = 0::nat, val = ''v'', h = 5\<rparr>
               (node (node (node nil \<lparr>idx = 4, key = 3, val = ''v'', h = 2\<rparr>
                              (node nil \<lparr>idx = 8, key = 4, val = ''v'', h = 1\<rparr> nil))
                        \<lparr>idx = 9, key = 5, val = ''v'', h = 3\<rparr>
                        (node nil \<lparr>idx = 3, key = 10, val = ''v'', h = 1\<rparr> nil))
                  \<lparr>idx = 2, key = 11, val = ''v'', h = 4\<rparr>
                  (node (node (node nil \<lparr>idx = 7, key = 13, val = ''v'', h = 0\<rparr> nil)
                           \<lparr>idx = 5, key = 15, val = ''v'', h = 1\<rparr> nil)
                     \<lparr>idx = 1, key = 22, val = ''v'', h = 2\<rparr> nil))) 50 = None"
    "erase 18446744073709551615 (<)
       \<lparr>pool = \<lparr>data = [Val (), Val (), Val (), Val (), Val (), Val (), Val (), Val (), Val (), Val (),
                     Ptr 11, Ptr 12, Ptr 13, Ptr 14, Ptr 15, Ptr 16],
             capacity = 16, head = 10\<rparr>,
          root = node nil \<lparr>idx = 6, key = 0::nat, val = ''v'', h = 5\<rparr>
               (node (node (node nil \<lparr>idx = 4, key = 3, val = ''v'', h = 2\<rparr>
                              (node nil \<lparr>idx = 8, key = 4, val = ''v'', h = 1\<rparr> nil))
                        \<lparr>idx = 9, key = 5, val = ''v'', h = 3\<rparr>
                        (node nil \<lparr>idx = 3, key = 10, val = ''v'', h = 1\<rparr> nil))
                  \<lparr>idx = 2, key = 11, val = ''v'', h = 4\<rparr>
                  (node (node (node nil \<lparr>idx = 7, key = 13, val = ''v'', h = 0\<rparr> nil)
                           \<lparr>idx = 5, key = 15, val = ''v'', h = 1\<rparr> nil)
                     \<lparr>idx = 1, key = 22, val = ''v'', h = 2\<rparr> nil)),
          size' = 9\<rparr> 50 =
     Inl AssertionFailed"
    "Map_alter_key 18446744073709551615 (<)
       \<lparr>pool = \<lparr>data = [Val (), Val (), Val (), Val (), Val (), Val (), Val (), Val (), Val (), Val (),
                     Ptr 11, Ptr 12, Ptr 13, Ptr 14, Ptr 15, Ptr 16],
             capacity = 16, head = 10\<rparr>,
          root = node nil \<lparr>idx = 6, key = 0::nat, val = ''v'', h = 5\<rparr>
               (node (node (node nil \<lparr>idx = 4, key = 3, val = ''v'', h = 2\<rparr>
                              (node nil \<lparr>idx = 8, key = 4, val = ''v'', h = 1\<rparr> nil))
                        \<lparr>idx = 9, key = 5, val = ''v'', h = 3\<rparr>
                        (node nil \<lparr>idx = 3, key = 10, val = ''v'', h = 1\<rparr> nil))
                  \<lparr>idx = 2, key = 11, val = ''v'', h = 4\<rparr>
                  (node (node (node nil \<lparr>idx = 7, key = 13, val = ''v'', h = 0\<rparr> nil)
                           \<lparr>idx = 5, key = 15, val = ''v'', h = 1\<rparr> nil)
                     \<lparr>idx = 1, key = 22, val = ''v'', h = 2\<rparr> nil)),
          size' = 9\<rparr> 50 60 =
     Inl AssertionFailed"
    by (simp_all add: run_simps)
  show ?thesis using a map_after_alter_key b by (intro conjI) simp_all
qed

text \<open>
  C6, what the code guarantees. For a well-formed pool with maximum \<open>mx\<close>:

  \<^item> \<open>allocate()\<close> fails only with \<open>AllocatorExhausted\<close>, and it does exactly when the
    free list is empty and the capacity is \<open>mx\<close>;
  \<^item> \<open>reserve_for(n)\<close> with \<open>n\<close> less than the capacity returns at once; with \<open>n\<close> at
    least the capacity it fails with \<open>AllocatorExhausted\<close> when the capacity is \<open>mx\<close>,
    and otherwise grows the capacity to at least \<open>n\<close>, leaving the head of the free list
    and the set of occupied slots as they were (it allocates no node).

  The invariant \<open>dict_inv\<close> holds after every sequence of emplace, insert,
  \<open>operator[]\<close> and erase operations on a new dictionary (not after every
  \<open>alter_key\<close>). For a Set \<open>ds\<close> and a Map \<open>dm\<close> that satisfy it with a strictly
  sorted traversal: an emplace or \<open>operator[]\<close> that fails, fails with
  \<open>AllocatorExhausted\<close> on a pool that is exhausted at capacity \<open>mx\<close>; \<open>erase\<close> never
  fails; for a key that is absent, \<open>find\<close> returns nothing, \<open>erase\<close> returns false and
  \<open>alter_key\<close> returns (false, false); for a key that is present and a pool that is not
  exhausted, \<open>Set.emplace\<close> returns false and \<open>Map.emplace\<close> returns was-new = false.

  For every pool \<open>q\<close> and every dictionary \<open>dx\<close>, \<open>dy\<close>, with or without the
  invariant: \<open>allocate\<close>, \<open>Set.emplace\<close>, \<open>Multiset.emplace\<close>, \<open>Map.emplace\<close> and
  \<open>Multimap.emplace\<close> raise \<open>AllocatorExhausted\<close> exactly when the free list is empty
  and the capacity is \<open>mx\<close>, \<open>operator[]\<close> raises it only then, and \<open>erase\<close> and
  \<open>alter_key\<close> never raise it.
\<close>

theorem failures_are_allocator_exhausted:
  fixes ds :: "('k, unit) AVLDictionary" and dm :: "('k, 'v) AVLDictionary"
    and p :: "'p AVLPoolAllocator"
  assumes wf: "pool_wf mx p fs" and n: "n \<le> mx"
    and swo: "strict_weak_order cmp"
    and set_inv: "dict_inv mx ds" "sorted_unique cmp (inorder (root ds))"
    and map_inv: "dict_inv mx dm" "sorted_unique cmp (inorder (root dm))"
  shows "(\<forall>e. allocate mx p = Inl e \<longrightarrow> e = AllocatorExhausted)
       \<and> (allocate mx p = Inl AllocatorExhausted \<longleftrightarrow> head p = capacity p \<and> capacity p = mx)
       \<and> (n < capacity p \<longrightarrow> reserve_for mx p n = Some (Inr p))
       \<and> (capacity p \<le> n \<and> capacity p = mx \<longrightarrow> reserve_for mx p n = Some (Inl AllocatorExhausted))
       \<and> (capacity p \<le> n \<and> capacity p \<noteq> mx \<longrightarrow>
            (\<exists>p'. reserve_for mx p n = Some (Inr p') \<and> n \<le> capacity p' \<and> capacity p' \<le> mx \<and>
               head p' = head p \<and> occupied p' = occupied p \<and> pool_ok mx p'))
       \<and> (\<forall>k e. Set_emplace mx cmp ds k = Inl e \<longrightarrow> e = AllocatorExhausted \<and> pool_full mx (pool ds))
       \<and> (\<forall>k v e. Map_emplace mx cmp dm k v = Inl e \<longrightarrow> e = AllocatorExhausted \<and> pool_full mx (pool dm))
       \<and> (\<forall>k e. Map_index mx cmp dflt dm k = Inl e \<longrightarrow> e = AllocatorExhausted \<and> pool_full mx (pool dm))
       \<and> (\<forall>k. \<exists>b d'. erase mx cmp dm k = Inr (b, d'))
       \<and> (\<forall>k. (\<forall>e \<in> set (inorder (root dm)). \<not> equivalent cmp (ekey e) k) \<longrightarrow>
              find_key cmp (root dm) k = None \<and>
              (\<exists>d'. erase mx cmp dm k = Inr (False, d')) \<and>
              (\<forall>new. \<exists>d'. Map_alter_key mx cmp dm k new = Inr ((False, False), d')))
       \<and> (\<forall>k. (\<exists>e \<in> set (inorder (root ds)). equivalent cmp (ekey e) k) \<and>
              \<not> pool_full mx (pool ds) \<longrightarrow> (\<exists>ds'. Set_emplace mx cmp ds k = Inr (False, ds')))
       \<and> (\<forall>k v. (\<exists>e \<in> set (inorder (root dm)). equivalent cmp (ekey e) k) \<and>
              \<not> pool_full mx (pool dm) \<longrightarrow>
              (\<exists>d'. Map_emplace mx cmp dm k v = Inr (((k, v), False), d')))
       \<and> (\<forall>q :: 'p AVLPoolAllocator. allocate mx q = Inl AllocatorExhausted \<longleftrightarrow> pool_full mx q)
       \<and> (\<forall>(dx :: ('k, 'v) AVLDictionary) a b v.
              erase mx cmp dx a \<noteq> Inl AllocatorExhausted \<and>
              Map_alter_key mx cmp dx a b \<noteq> Inl AllocatorExhausted \<and>
              Multimap_alter_key cmp dx a b \<noteq> Inl AllocatorExhausted \<and>
              (Map_emplace mx cmp dx a v = Inl AllocatorExhausted \<longleftrightarrow> pool_full mx (pool dx)) \<and>
              (Multimap_emplace mx cmp dx a v = Inl AllocatorExhausted \<longleftrightarrow> pool_full mx (pool dx)) \<and>
              (Map_index mx cmp dflt dx a = Inl AllocatorExhausted \<longrightarrow> pool_full mx (pool dx)))
       \<and> (\<forall>(dy :: ('k, unit) AVLDictionary) a.
              erase mx cmp dy a \<noteq> Inl AllocatorExhausted \<and>
              (Set_emplace mx cmp dy a = Inl AllocatorExhausted \<longleftrightarrow> pool_full mx (pool dy)) \<and>
              (Multiset_emplace mx cmp dy a = Inl AllocatorExhausted \<longleftrightarrow> pool_full mx (pool dy)))"
proof -
  note W = pool_wf_D[OF wf]
  have ok: "pool_ok mx p" using wf unfolding pool_ok_def by blast
  have sms: "sorted_multi cmp (inorder (root ds))" by (rule sorted_unique_multi[OF swo set_inv(2)])
  have smm: "sorted_multi cmp (inorder (root dm))" by (rule sorted_unique_multi[OF swo map_inv(2)])
  have a1: "\<forall>e. allocate mx p = Inl e \<longrightarrow> e = AllocatorExhausted"
    using allocate_fail[OF ok] by blast
  have a2: "allocate mx p = Inl AllocatorExhausted \<longleftrightarrow> head p = capacity p \<and> capacity p = mx"
    using allocate_fail[OF ok, of AllocatorExhausted] allocate_full[of mx p]
    unfolding pool_full_def by blast
  have r1: "n < capacity p \<longrightarrow> reserve_for mx p n = Some (Inr p)"
    using reserve_for_cases[OF wf, of n] by simp
  have r2: "capacity p \<le> n \<and> capacity p = mx \<longrightarrow> reserve_for mx p n = Some (Inl AllocatorExhausted)"
    using reserve_for_cases[OF wf, of n] by simp
  have r3: "capacity p \<le> n \<and> capacity p \<noteq> mx \<longrightarrow>
            (\<exists>p'. reserve_for mx p n = Some (Inr p') \<and> n \<le> capacity p' \<and> capacity p' \<le> mx \<and>
               head p' = head p \<and> occupied p' = occupied p \<and> pool_ok mx p')"
  proof
    assume c: "capacity p \<le> n \<and> capacity p \<noteq> mx"
    define nc where "nc = max n (if capacity p < mx div 2 then 2 * capacity p else mx)"
    have nc: "capacity p < nc" "nc \<le> mx" "n \<le> nc" using c n W(2,3) by (auto simp: nc_def)
    have "reserve_for mx p n = Some (Inr (grown nc p))"
      using reserve_for_cases[OF wf, of n] c unfolding nc_def by simp
    then show "\<exists>p'. reserve_for mx p n = Some (Inr p') \<and> n \<le> capacity p' \<and> capacity p' \<le> mx \<and>
               head p' = head p \<and> occupied p' = occupied p \<and> pool_ok mx p'"
      using grown_frame[OF wf nc(1,2)] nc by auto
  qed
  have s1: "\<forall>k e. Set_emplace mx cmp ds k = Inl e \<longrightarrow> e = AllocatorExhausted \<and> pool_full mx (pool ds)"
    using set_emplace_fail(1)[OF swo set_inv(1) sms] by blast
  have m1: "\<forall>k v e. Map_emplace mx cmp dm k v = Inl e \<longrightarrow> e = AllocatorExhausted \<and> pool_full mx (pool dm)"
    using emplace_fail(1)[OF swo map_inv(1) smm] by blast
  have m2: "\<forall>k e. Map_index mx cmp dflt dm k = Inl e \<longrightarrow> e = AllocatorExhausted \<and> pool_full mx (pool dm)"
    using emplace_fail(2)[OF swo map_inv(1) smm] by blast
  have e1: "\<forall>k. \<exists>b d'. erase mx cmp dm k = Inr (b, d')"
    using erase_dict[OF swo map_inv(1) smm] by blast
  have ab: "\<forall>k. (\<forall>e \<in> set (inorder (root dm)). \<not> equivalent cmp (ekey e) k) \<longrightarrow>
              find_key cmp (root dm) k = None \<and>
              (\<exists>d'. erase mx cmp dm k = Inr (False, d')) \<and>
              (\<forall>new. \<exists>d'. Map_alter_key mx cmp dm k new = Inr ((False, False), d'))"
  proof (intro allI impI conjI)
    fix k new assume a: "\<forall>e \<in> set (inorder (root dm)). \<not> equivalent cmp (ekey e) k"
    show "find_key cmp (root dm) k = None" by (rule find_key_absent[OF a])
    show "\<exists>d'. erase mx cmp dm k = Inr (False, d')"
      using erase_dict[OF swo map_inv(1) smm, of k] a by auto
    show "\<exists>d'. Map_alter_key mx cmp dm k new = Inr ((False, False), d')"
      using Map_alter_key_absent[OF swo map_inv(1) smm a, of new] by blast
  qed
  have s2: "\<forall>k. (\<exists>e \<in> set (inorder (root ds)). equivalent cmp (ekey e) k) \<and>
              \<not> pool_full mx (pool ds) \<longrightarrow> (\<exists>ds'. Set_emplace mx cmp ds k = Inr (False, ds'))"
  proof (intro allI impI)
    fix k assume a: "(\<exists>e \<in> set (inorder (root ds)). equivalent cmp (ekey e) k) \<and> \<not> pool_full mx (pool ds)"
    then obtain e where e: "e \<in> set (inorder (root ds))" "equivalent cmp (ekey e) k" by blast
    from Set_emplace_present[OF swo set_inv e] a
    show "\<exists>ds'. Set_emplace mx cmp ds k = Inr (False, ds')" by blast
  qed
  have m3: "\<forall>k v. (\<exists>e \<in> set (inorder (root dm)). equivalent cmp (ekey e) k) \<and>
              \<not> pool_full mx (pool dm) \<longrightarrow>
              (\<exists>d'. Map_emplace mx cmp dm k v = Inr (((k, v), False), d'))"
  proof (intro allI impI)
    fix k v assume a: "(\<exists>e \<in> set (inorder (root dm)). equivalent cmp (ekey e) k) \<and> \<not> pool_full mx (pool dm)"
    from Map_emplace_dict[OF swo map_inv(1) smm, of k v] a
    show "\<exists>d'. Map_emplace mx cmp dm k v = Inr (((k, v), False), d')" by blast
  qed
  have u1: "\<forall>q :: 'p AVLPoolAllocator. allocate mx q = Inl AllocatorExhausted \<longleftrightarrow> pool_full mx q"
    by (simp add: allocate_exhausted_iff)
  have u2: "\<forall>(dx :: ('k, 'v) AVLDictionary) a b v.
              erase mx cmp dx a \<noteq> Inl AllocatorExhausted \<and>
              Map_alter_key mx cmp dx a b \<noteq> Inl AllocatorExhausted \<and>
              Multimap_alter_key cmp dx a b \<noteq> Inl AllocatorExhausted \<and>
              (Map_emplace mx cmp dx a v = Inl AllocatorExhausted \<longleftrightarrow> pool_full mx (pool dx)) \<and>
              (Multimap_emplace mx cmp dx a v = Inl AllocatorExhausted \<longleftrightarrow> pool_full mx (pool dx)) \<and>
              (Map_index mx cmp dflt dx a = Inl AllocatorExhausted \<longrightarrow> pool_full mx (pool dx))"
    using Map_index_exhausted[of mx cmp dflt]
    by (simp add: erase_not_exhausted Map_alter_key_not_exhausted Multimap_alter_key_not_exhausted
        Map_emplace_exhausted_iff Multimap_emplace_exhausted_iff)
  have u3: "\<forall>(dy :: ('k, unit) AVLDictionary) a.
              erase mx cmp dy a \<noteq> Inl AllocatorExhausted \<and>
              (Set_emplace mx cmp dy a = Inl AllocatorExhausted \<longleftrightarrow> pool_full mx (pool dy)) \<and>
              (Multiset_emplace mx cmp dy a = Inl AllocatorExhausted \<longleftrightarrow> pool_full mx (pool dy))"
    by (simp add: erase_not_exhausted Set_emplace_exhausted_iff Multiset_emplace_exhausted_iff)
  show ?thesis using a1 a2 r1 r2 r3 s1 m1 m2 e1 ab s2 m3 u1 u2 u3 by (intro conjI)
qed

theorem failures_are_allocator_exhausted_witness:
  "pool_wf 18446744073709551615
      \<lparr>data = [Val (), Val (), Val (), Ptr 4], capacity = 4, head = 3\<rparr> [3]
   \<and> (10::nat) \<le> 18446744073709551615
   \<and> strict_weak_order ((<) :: nat \<Rightarrow> nat \<Rightarrow> bool)
   \<and> run_new 18446744073709551615 1 (Set_step 18446744073709551615 (<)) [Emplace (1::nat), Emplace 2] =
     Inr \<lparr>pool = \<lparr>data = [Val (), Val (), Val (), Ptr 4], capacity = 4, head = 3\<rparr>,
          root = node nil \<lparr>idx = 1, key = 1, val = (), h = 1\<rparr>
                   (node nil \<lparr>idx = 2, key = 2, val = (), h = 0\<rparr> nil), size' = 2\<rparr>
   \<and> run_new 18446744073709551615 1 (Map_step 18446744073709551615 (<) ''z'')
        [MapEmplace (1::nat) ''a'', MapEmplace 2 ''b''] =
     Inr \<lparr>pool = \<lparr>data = [Val (), Val (), Val (), Ptr 4], capacity = 4, head = 3\<rparr>,
          root = node nil \<lparr>idx = 1, key = 1, val = ''a'', h = 1\<rparr>
                   (node nil \<lparr>idx = 2, key = 2, val = ''b'', h = 0\<rparr> nil), size' = 2\<rparr>
   \<and> (\<exists>p'. reserve_for 18446744073709551615
            \<lparr>data = [Val (), Val (), Val (), Ptr 4], capacity = 4, head = 3\<rparr> 10 = Some (Inr p') \<and>
          10 \<le> capacity p' \<and> head p' = 3 \<and>
          occupied p' = occupied \<lparr>data = [Val (), Val (), Val (), Ptr 4], capacity = 4, head = 3\<rparr>)
   \<and> (\<exists>d'. Map_alter_key 18446744073709551615 (<)
       \<lparr>pool = \<lparr>data = [Val (), Val (), Val (), Ptr 4], capacity = 4, head = 3\<rparr>,
          root = node nil \<lparr>idx = 1, key = 1::nat, val = ''a'', h = 1\<rparr>
                   (node nil \<lparr>idx = 2, key = 2, val = ''b'', h = 0\<rparr> nil), size' = 2\<rparr> 7 9 =
       Inr ((False, False), d'))
   \<and> (\<exists>ds'. Set_emplace 18446744073709551615 (<)
       \<lparr>pool = \<lparr>data = [Val (), Val (), Val (), Ptr 4], capacity = 4, head = 3\<rparr>,
          root = node nil \<lparr>idx = 1, key = 1::nat, val = (), h = 1\<rparr>
                   (node nil \<lparr>idx = 2, key = 2, val = (), h = 0\<rparr> nil), size' = 2\<rparr> 2 =
       Inr (False, ds'))"
proof -
  let ?p = "\<lparr>data = [Val (), Val (), Val (), Ptr 4], capacity = 4, head = 3\<rparr> :: unit AVLPoolAllocator"
  let ?ds = "\<lparr>pool = ?p,
          root = node nil \<lparr>idx = 1, key = 1::nat, val = (), h = 1\<rparr>
                   (node nil \<lparr>idx = 2, key = 2, val = (), h = 0\<rparr> nil), size' = 2\<rparr>"
  let ?dm = "\<lparr>pool = ?p,
          root = node nil \<lparr>idx = 1, key = 1::nat, val = ''a'', h = 1\<rparr>
                   (node nil \<lparr>idx = 2, key = 2, val = ''b'', h = 0\<rparr> nil), size' = 2\<rparr>"
  note swo = less_nat_strict_weak_order
  have up: "[0 ..< 4] = [0, 1, 2, 3::nat]" by (simp add: upt_conv_Cons)
  have wf: "pool_wf 18446744073709551615 ?p [3]"
    by (simp add: pool_wf_def up)
  have n: "(10::nat) \<le> 18446744073709551615" by simp
  have rs: "run_new 18446744073709551615 1 (Set_step 18446744073709551615 (<))
      [Emplace (1::nat), Emplace 2] = Inr ?ds"
    by (simp add: run_simps)
  have rm: "run_new 18446744073709551615 1 (Map_step 18446744073709551615 (<) ''z'')
        [MapEmplace (1::nat) ''a'', MapEmplace 2 ''b''] = Inr ?dm"
    by (simp add: run_simps)
  have "inv_unique 18446744073709551615 (<) ?ds"
    by (rule Set_run_inv[OF swo _ _ _ rs]) simp_all
  then have iset: "dict_inv 18446744073709551615 ?ds" "sorted_unique (<) (inorder (root ?ds))"
    by (simp_all add: inv_unique_def)
  have "inv_unique 18446744073709551615 (<) ?dm"
    by (rule Map_run_inv[OF swo _ _ _ rm]) simp_all
  then have im: "dict_inv 18446744073709551615 ?dm" "sorted_unique (<) (inorder (root ?dm))"
    by (simp_all add: inv_unique_def)
  note T0 = failures_are_allocator_exhausted[OF wf n swo iset im, of "''z''"]
  note T = T0[THEN conjunct2, THEN conjunct2, THEN conjunct2, THEN conjunct2, THEN conjunct1]
    T0[THEN conjunct2, THEN conjunct2, THEN conjunct2, THEN conjunct2, THEN conjunct2,
       THEN conjunct2, THEN conjunct2, THEN conjunct2, THEN conjunct2, THEN conjunct1]
    T0[THEN conjunct2, THEN conjunct2, THEN conjunct2, THEN conjunct2, THEN conjunct2,
       THEN conjunct2, THEN conjunct2, THEN conjunct2, THEN conjunct2, THEN conjunct2,
       THEN conjunct1]
  have c: "capacity ?p \<le> 10 \<and> capacity ?p \<noteq> 18446744073709551615" by simp
  have r: "\<exists>p'. reserve_for 18446744073709551615 ?p 10 = Some (Inr p') \<and>
          10 \<le> capacity p' \<and> head p' = 3 \<and> occupied p' = occupied ?p"
    using T(1) c by auto
  have ab: "\<forall>e \<in> set (inorder (root ?dm)). \<not> equivalent (<) (ekey e) 7"
    by (simp add: entry_def ekey_def equivalent_def)
  have a: "\<exists>d'. Map_alter_key 18446744073709551615 (<) ?dm 7 9 = Inr ((False, False), d')"
    using T(2) ab by blast
  have pr: "(\<exists>e \<in> set (inorder (root ?ds)). equivalent (<) (ekey e) 2) \<and>
      \<not> pool_full 18446744073709551615 (pool ?ds)"
    by (simp add: entry_def ekey_def equivalent_def pool_full_def)
  have s: "\<exists>ds'. Set_emplace 18446744073709551615 (<) ?ds 2 = Inr (False, ds')"
    using T(3) pr by blast
  show ?thesis using wf n swo rs rm r a s by (intro conjI)
qed


section \<open>Claim C7: emptiness and clear\<close>

text \<open>
  C7 does not hold for \<open>clear()\<close>. \<open>delete_subtree\<close> starts with
  \<open>if constexpr (std::is_trivially_destructible_v<Node>) return;\<close>, which skips not only
  the destructor calls but also \<open>deallocate_node\<close>, the only place where a slot goes
  back to the free list and \<open>size_\<close> is decremented. For a node type that is trivially
  destructible (\<open>AVLDictSet<int>\<close>), \<open>clear()\<close> therefore only sets \<open>root = nil\<close>:
  after \<open>emplace(1); clear()\<close> the tree has no node, yet \<open>size()\<close> is 1,
  \<open>empty()\<close> is false and slot 1 is still occupied.
\<close>

theorem clear_of_trivially_destructible_set_keeps_size:
  "run_new 18446744073709551615 1 (Set_step 18446744073709551615 (<)) [Emplace (1::nat)] =
     Inr \<lparr>pool = \<lparr>data = [Val (), Val ()], capacity = 2, head = 2\<rparr>,
          root = node nil \<lparr>idx = 1, key = 1, val = (), h = 0\<rparr> nil, size' = 1\<rparr>
   \<and> clear True 18446744073709551615
        \<lparr>pool = \<lparr>data = [Val (), Val ()], capacity = 2, head = 2\<rparr>,
          root = node nil \<lparr>idx = 1, key = 1::nat, val = (), h = 0\<rparr> nil, size' = 1\<rparr> =
     Inr \<lparr>pool = \<lparr>data = [Val (), Val ()], capacity = 2, head = 2\<rparr>, root = nil, size' = 1\<rparr>
   \<and> size_of (\<lparr>pool = \<lparr>data = [Val (), Val ()], capacity = 2, head = 2\<rparr>, root = nil, size' = 1\<rparr>
        :: (nat, unit) AVLDictionary) = 1
   \<and> \<not> empty_dict (\<lparr>pool = \<lparr>data = [Val (), Val ()], capacity = 2, head = 2\<rparr>, root = nil, size' = 1\<rparr>
        :: (nat, unit) AVLDictionary)
   \<and> 1 \<in> occupied \<lparr>data = [Val (), Val ()], capacity = 2, head = 2\<rparr>
   \<and> clear False 18446744073709551615
        \<lparr>pool = \<lparr>data = [Val (), Val ()], capacity = 2, head = 2\<rparr>,
          root = node nil \<lparr>idx = 1, key = 1::nat, val = (), h = 0\<rparr> nil, size' = 1\<rparr> =
     Inr \<lparr>pool = \<lparr>data = [Val (), Ptr 2], capacity = 2, head = 1\<rparr>, root = nil, size' = 0\<rparr>"
  by (simp add: run_simps occupied_def)

text \<open>
  C7, what the code guarantees. For a dictionary that satisfies the invariant, \<open>root == nil\<close> iff
  \<open>size() == 0\<close>. \<open>clear()\<close> for a node type that is not trivially destructible
  returns with an empty dictionary: no node, \<open>size() == 0\<close>, every slot but the
  sentinel's back in the free list, the invariant kept. \<open>clear()\<close> for a trivially
  destructible node type changes nothing but \<open>root\<close>: \<open>size()\<close> and the pool stay as
  they were, so when the dictionary was not empty the result is not empty and the
  invariant is lost.
\<close>

theorem clear_and_emptiness:
  assumes inv: "dict_inv mx d"
  shows "(root d = nil \<longleftrightarrow> size_of d = 0)
       \<and> (\<exists>d'. clear False mx d = Inr d' \<and> root d' = nil \<and> size_of d' = 0 \<and> empty_dict d' \<and>
              inorder (root d') = [] \<and> occupied (pool d') = {0} \<and> dict_inv mx d')
       \<and> (\<exists>d'. clear True mx d = Inr d' \<and> root d' = nil \<and> size_of d' = size_of d \<and>
              pool d' = pool d \<and>
              (root d \<noteq> nil \<longrightarrow> \<not> empty_dict d' \<and> \<not> dict_inv mx d'))"
proof (intro conjI)
  show e: "root d = nil \<longleftrightarrow> size_of d = 0"
    using empty_dict_root[OF inv] by (simp add: empty_dict_def)
  from clear_destructs[OF inv]
  show "\<exists>d'. clear False mx d = Inr d' \<and> root d' = nil \<and> size_of d' = 0 \<and> empty_dict d' \<and>
              inorder (root d') = [] \<and> occupied (pool d') = {0} \<and> dict_inv mx d'"
    by (auto simp: size_of_def empty_dict_def)
  let ?d = "d\<lparr>root := nil\<rparr>"
  have "root d \<noteq> nil \<longrightarrow> \<not> empty_dict ?d \<and> \<not> dict_inv mx ?d"
    using e by (auto simp: empty_dict_def size_of_def dict_inv_def)
  then show "\<exists>d'. clear True mx d = Inr d' \<and> root d' = nil \<and> size_of d' = size_of d \<and>
              pool d' = pool d \<and>
              (root d \<noteq> nil \<longrightarrow> \<not> empty_dict d' \<and> \<not> dict_inv mx d')"
    using clear_trivial[of mx d] by (intro exI[of _ ?d]) (simp add: size_of_def)
qed

theorem clear_and_emptiness_witness:
  "dict_inv 18446744073709551615
      \<lparr>pool = \<lparr>data = [Val (), Val ()], capacity = 2, head = 2\<rparr>,
          root = node nil \<lparr>idx = 1, key = 1::nat, val = (), h = 0\<rparr> nil, size' = 1\<rparr>
   \<and> (\<exists>d'. clear False 18446744073709551615
        \<lparr>pool = \<lparr>data = [Val (), Val ()], capacity = 2, head = 2\<rparr>,
          root = node nil \<lparr>idx = 1, key = 1::nat, val = (), h = 0\<rparr> nil, size' = 1\<rparr> = Inr d' \<and>
        size_of d' = 0 \<and> occupied (pool d') = {0})
   \<and> (\<exists>d'. clear True 18446744073709551615
        \<lparr>pool = \<lparr>data = [Val (), Val ()], capacity = 2, head = 2\<rparr>,
          root = node nil \<lparr>idx = 1, key = 1::nat, val = (), h = 0\<rparr> nil, size' = 1\<rparr> = Inr d' \<and>
        root d' = nil \<and> size_of d' = 1 \<and> \<not> empty_dict d')"
proof -
  let ?d = "\<lparr>pool = \<lparr>data = [Val (), Val ()], capacity = 2, head = 2\<rparr>,
          root = node nil \<lparr>idx = 1, key = 1::nat, val = (), h = 0\<rparr> nil, size' = 1\<rparr>"
  have run: "run_new 18446744073709551615 1 (Set_step 18446744073709551615 (<)) [Emplace (1::nat)] = Inr ?d"
    by (simp add: run_simps)
  have "inv_unique 18446744073709551615 (<) ?d"
    by (rule Set_run_inv[OF less_nat_strict_weak_order _ _ _ run]) simp_all
  then have inv: "dict_inv 18446744073709551615 ?d" by (simp add: inv_unique_def)
  have s: "size_of ?d = 1" "root ?d \<noteq> nil" by (simp_all add: size_of_def)
  note T = clear_and_emptiness[OF inv]
  have a: "\<exists>d'. clear False 18446744073709551615 ?d = Inr d' \<and> size_of d' = 0 \<and> occupied (pool d') = {0}"
    using T by blast
  have b: "\<exists>d'. clear True 18446744073709551615 ?d = Inr d' \<and> root d' = nil \<and> size_of d' = 1 \<and>
      \<not> empty_dict d'"
    using T s by auto
  show ?thesis using inv a b by (intro conjI)
qed


section \<open>Claim C3: filter\<close>

text \<open>
  C3 does not hold of the code, at two kinds of inputs.

  \<^item> \<open>filter\<close> does not leave the tree AVL-balanced. It removes elements with
    \<open>erase\<close>, which balances on the stored heights, and a leaf that was never the
    argument of \<open>seth\<close> stores 0. The set built from 1, 2, 3, 0 has the root 1 with the
    leaf 0 to the left and the chain 2, 3 to the right; its real heights are balanced.
    \<open>filter\<close> with the condition \<open>key == 0\<close> erases the leaf and leaves the chain
    1, 2, 3: the subtrees of the root have the real heights 0 and 2, and the leaf 3 still
    stores 0.
  \<^item> In the map that \<open>alter_key(9, 0)\<close> leaves after \<open>emplace\<close> of 22, 11, 10, 3, 15,
    9, 13, 4, 5, \<open>filter\<close> with the condition \<open>key == 13\<close> calls \<open>erase(13)\<close>,
    which fails the assertion of \<open>rebalance_and_seth\<close>: nothing is removed.
\<close>

theorem filter_leaves_chain:
  "run_new 18446744073709551615 1 (Set_step 18446744073709551615 (<))
      [Emplace (1::nat), Emplace 2, Emplace 3, Emplace 0] =
     Inr \<lparr>pool = \<lparr>data = [Val (), Val (), Val (), Val (), Val (), Ptr 6, Ptr 7, Ptr 8],
                  capacity = 8, head = 5\<rparr>,
          root = node (node nil \<lparr>idx = 4, key = 0, val = (), h = 0\<rparr> nil)
                   \<lparr>idx = 1, key = 1, val = (), h = 2\<rparr>
                   (node nil \<lparr>idx = 2, key = 2, val = (), h = 1\<rparr>
                      (node nil \<lparr>idx = 3, key = 3, val = (), h = 0\<rparr> nil)), size' = 4\<rparr>
   \<and> height_balanced (node (node nil \<lparr>idx = 4, key = 0::nat, val = (), h = 0\<rparr> nil)
                   \<lparr>idx = 1, key = 1, val = (), h = 2\<rparr>
                   (node nil \<lparr>idx = 2, key = 2, val = (), h = 1\<rparr>
                      (node nil \<lparr>idx = 3, key = 3, val = (), h = 0\<rparr> nil)))
   \<and> filter_dict 18446744073709551615 (<) (\<lambda>(k, v). k = 0)
       \<lparr>pool = \<lparr>data = [Val (), Val (), Val (), Val (), Val (), Ptr 6, Ptr 7, Ptr 8],
                  capacity = 8, head = 5\<rparr>,
          root = node (node nil \<lparr>idx = 4, key = 0::nat, val = (), h = 0\<rparr> nil)
                   \<lparr>idx = 1, key = 1, val = (), h = 2\<rparr>
                   (node nil \<lparr>idx = 2, key = 2, val = (), h = 1\<rparr>
                      (node nil \<lparr>idx = 3, key = 3, val = (), h = 0\<rparr> nil)), size' = 4\<rparr> =
     Some (Inr \<lparr>pool = \<lparr>data = [Val (), Val (), Val (), Val (), Ptr 5, Ptr 6, Ptr 7, Ptr 8],
                  capacity = 8, head = 4\<rparr>,
          root = node nil \<lparr>idx = 1, key = 1, val = (), h = 2\<rparr>
                   (node nil \<lparr>idx = 2, key = 2, val = (), h = 1\<rparr>
                      (node nil \<lparr>idx = 3, key = 3, val = (), h = 0\<rparr> nil)), size' = 3\<rparr>)
   \<and> \<not> height_balanced (node nil \<lparr>idx = 1, key = 1::nat, val = (), h = 2\<rparr>
                   (node nil \<lparr>idx = 2, key = 2, val = (), h = 1\<rparr>
                      (node nil \<lparr>idx = 3, key = 3, val = (), h = 0\<rparr> nil)))
   \<and> \<not> avl_spec (node nil \<lparr>idx = 1, key = 1::nat, val = (), h = 2\<rparr>
                   (node nil \<lparr>idx = 2, key = 2, val = (), h = 1\<rparr>
                      (node nil \<lparr>idx = 3, key = 3, val = (), h = 0\<rparr> nil)))
   \<and> run_new 18446744073709551615 1 (Map_step 18446744073709551615 (<) ''z'')
      (map (\<lambda>k. MapEmplace k ''v'') [22, 11, 10, 3, 15, 9, 13, 4, 5::nat]) =
     Inr \<lparr>pool = \<lparr>data = [Val (), Val (), Val (), Val (), Val (), Val (), Val (), Val (), Val (), Val (),
                     Ptr 11, Ptr 12, Ptr 13, Ptr 14, Ptr 15, Ptr 16],
             capacity = 16, head = 10\<rparr>,
          root = node (node (node nil \<lparr>idx = 4, key = 3::nat, val = ''v'', h = 2\<rparr>
                          (node nil \<lparr>idx = 8, key = 4, val = ''v'', h = 1\<rparr>
                             (node nil \<lparr>idx = 9, key = 5, val = ''v'', h = 0\<rparr> nil)))
                    \<lparr>idx = 6, key = 9, val = ''v'', h = 3\<rparr>
                    (node nil \<lparr>idx = 3, key = 10, val = ''v'', h = 1\<rparr> nil))
               \<lparr>idx = 2, key = 11, val = ''v'', h = 4\<rparr>
               (node (node (node nil \<lparr>idx = 7, key = 13, val = ''v'', h = 0\<rparr> nil)
                        \<lparr>idx = 5, key = 15, val = ''v'', h = 1\<rparr> nil)
                  \<lparr>idx = 1, key = 22, val = ''v'', h = 2\<rparr> nil),
          size' = 9\<rparr>
   \<and> Map_alter_key 18446744073709551615 (<)
       \<lparr>pool = \<lparr>data = [Val (), Val (), Val (), Val (), Val (), Val (), Val (), Val (), Val (), Val (),
                     Ptr 11, Ptr 12, Ptr 13, Ptr 14, Ptr 15, Ptr 16],
             capacity = 16, head = 10\<rparr>,
          root = node (node (node nil \<lparr>idx = 4, key = 3::nat, val = ''v'', h = 2\<rparr>
                          (node nil \<lparr>idx = 8, key = 4, val = ''v'', h = 1\<rparr>
                             (node nil \<lparr>idx = 9, key = 5, val = ''v'', h = 0\<rparr> nil)))
                    \<lparr>idx = 6, key = 9, val = ''v'', h = 3\<rparr>
                    (node nil \<lparr>idx = 3, key = 10, val = ''v'', h = 1\<rparr> nil))
               \<lparr>idx = 2, key = 11, val = ''v'', h = 4\<rparr>
               (node (node (node nil \<lparr>idx = 7, key = 13, val = ''v'', h = 0\<rparr> nil)
                        \<lparr>idx = 5, key = 15, val = ''v'', h = 1\<rparr> nil)
                  \<lparr>idx = 1, key = 22, val = ''v'', h = 2\<rparr> nil),
          size' = 9\<rparr> 9 0 =
     Inr ((True, False),
       \<lparr>pool = \<lparr>data = [Val (), Val (), Val (), Val (), Val (), Val (), Val (), Val (), Val (), Val (),
                     Ptr 11, Ptr 12, Ptr 13, Ptr 14, Ptr 15, Ptr 16],
             capacity = 16, head = 10\<rparr>,
          root = node nil \<lparr>idx = 6, key = 0::nat, val = ''v'', h = 5\<rparr>
               (node (node (node nil \<lparr>idx = 4, key = 3, val = ''v'', h = 2\<rparr>
                              (node nil \<lparr>idx = 8, key = 4, val = ''v'', h = 1\<rparr> nil))
                        \<lparr>idx = 9, key = 5, val = ''v'', h = 3\<rparr>
                        (node nil \<lparr>idx = 3, key = 10, val = ''v'', h = 1\<rparr> nil))
                  \<lparr>idx = 2, key = 11, val = ''v'', h = 4\<rparr>
                  (node (node (node nil \<lparr>idx = 7, key = 13, val = ''v'', h = 0\<rparr> nil)
                           \<lparr>idx = 5, key = 15, val = ''v'', h = 1\<rparr> nil)
                     \<lparr>idx = 1, key = 22, val = ''v'', h = 2\<rparr> nil)),
          size' = 9\<rparr>)
   \<and> \<not> dict_inv 18446744073709551615
       \<lparr>pool = \<lparr>data = [Val (), Val (), Val (), Val (), Val (), Val (), Val (), Val (), Val (), Val (),
                     Ptr 11, Ptr 12, Ptr 13, Ptr 14, Ptr 15, Ptr 16],
             capacity = 16, head = 10\<rparr>,
          root = node nil \<lparr>idx = 6, key = 0::nat, val = ''v'', h = 5\<rparr>
               (node (node (node nil \<lparr>idx = 4, key = 3, val = ''v'', h = 2\<rparr>
                              (node nil \<lparr>idx = 8, key = 4, val = ''v'', h = 1\<rparr> nil))
                        \<lparr>idx = 9, key = 5, val = ''v'', h = 3\<rparr>
                        (node nil \<lparr>idx = 3, key = 10, val = ''v'', h = 1\<rparr> nil))
                  \<lparr>idx = 2, key = 11, val = ''v'', h = 4\<rparr>
                  (node (node (node nil \<lparr>idx = 7, key = 13, val = ''v'', h = 0\<rparr> nil)
                           \<lparr>idx = 5, key = 15, val = ''v'', h = 1\<rparr> nil)
                     \<lparr>idx = 1, key = 22, val = ''v'', h = 2\<rparr> nil)),
          size' = 9\<rparr>
   \<and> filter_dict 18446744073709551615 (<) (\<lambda>(k, v). k = 13)
       \<lparr>pool = \<lparr>data = [Val (), Val (), Val (), Val (), Val (), Val (), Val (), Val (), Val (), Val (),
                     Ptr 11, Ptr 12, Ptr 13, Ptr 14, Ptr 15, Ptr 16],
             capacity = 16, head = 10\<rparr>,
          root = node nil \<lparr>idx = 6, key = 0::nat, val = ''v'', h = 5\<rparr>
               (node (node (node nil \<lparr>idx = 4, key = 3, val = ''v'', h = 2\<rparr>
                              (node nil \<lparr>idx = 8, key = 4, val = ''v'', h = 1\<rparr> nil))
                        \<lparr>idx = 9, key = 5, val = ''v'', h = 3\<rparr>
                        (node nil \<lparr>idx = 3, key = 10, val = ''v'', h = 1\<rparr> nil))
                  \<lparr>idx = 2, key = 11, val = ''v'', h = 4\<rparr>
                  (node (node (node nil \<lparr>idx = 7, key = 13, val = ''v'', h = 0\<rparr> nil)
                           \<lparr>idx = 5, key = 15, val = ''v'', h = 1\<rparr> nil)
                     \<lparr>idx = 1, key = 22, val = ''v'', h = 2\<rparr> nil)),
          size' = 9\<rparr> =
     Some (Inl AssertionFailed)"
proof -
  have a: "run_new 18446744073709551615 1 (Set_step 18446744073709551615 (<))
      [Emplace (1::nat), Emplace 2, Emplace 3, Emplace 0] =
     Inr \<lparr>pool = \<lparr>data = [Val (), Val (), Val (), Val (), Val (), Ptr 6, Ptr 7, Ptr 8],
                  capacity = 8, head = 5\<rparr>,
          root = node (node nil \<lparr>idx = 4, key = 0, val = (), h = 0\<rparr> nil)
                   \<lparr>idx = 1, key = 1, val = (), h = 2\<rparr>
                   (node nil \<lparr>idx = 2, key = 2, val = (), h = 1\<rparr>
                      (node nil \<lparr>idx = 3, key = 3, val = (), h = 0\<rparr> nil)), size' = 4\<rparr>
   \<and> height_balanced (node (node nil \<lparr>idx = 4, key = 0::nat, val = (), h = 0\<rparr> nil)
                   \<lparr>idx = 1, key = 1, val = (), h = 2\<rparr>
                   (node nil \<lparr>idx = 2, key = 2, val = (), h = 1\<rparr>
                      (node nil \<lparr>idx = 3, key = 3, val = (), h = 0\<rparr> nil)))
   \<and> filter_dict 18446744073709551615 (<) (\<lambda>(k, v). k = 0)
       \<lparr>pool = \<lparr>data = [Val (), Val (), Val (), Val (), Val (), Ptr 6, Ptr 7, Ptr 8],
                  capacity = 8, head = 5\<rparr>,
          root = node (node nil \<lparr>idx = 4, key = 0::nat, val = (), h = 0\<rparr> nil)
                   \<lparr>idx = 1, key = 1, val = (), h = 2\<rparr>
                   (node nil \<lparr>idx = 2, key = 2, val = (), h = 1\<rparr>
                      (node nil \<lparr>idx = 3, key = 3, val = (), h = 0\<rparr> nil)), size' = 4\<rparr> =
     Some (Inr \<lparr>pool = \<lparr>data = [Val (), Val (), Val (), Val (), Ptr 5, Ptr 6, Ptr 7, Ptr 8],
                  capacity = 8, head = 4\<rparr>,
          root = node nil \<lparr>idx = 1, key = 1, val = (), h = 2\<rparr>
                   (node nil \<lparr>idx = 2, key = 2, val = (), h = 1\<rparr>
                      (node nil \<lparr>idx = 3, key = 3, val = (), h = 0\<rparr> nil)), size' = 3\<rparr>)
   \<and> \<not> height_balanced (node nil \<lparr>idx = 1, key = 1::nat, val = (), h = 2\<rparr>
                   (node nil \<lparr>idx = 2, key = 2, val = (), h = 1\<rparr>
                      (node nil \<lparr>idx = 3, key = 3, val = (), h = 0\<rparr> nil)))
   \<and> \<not> avl_spec (node nil \<lparr>idx = 1, key = 1::nat, val = (), h = 2\<rparr>
                   (node nil \<lparr>idx = 2, key = 2, val = (), h = 1\<rparr>
                      (node nil \<lparr>idx = 3, key = 3, val = (), h = 0\<rparr> nil)))"
    by (simp add: run_simps filter_loop.simps)
  have b:
    "filter_dict 18446744073709551615 (<) (\<lambda>(k, v). k = 13)
       \<lparr>pool = \<lparr>data = [Val (), Val (), Val (), Val (), Val (), Val (), Val (), Val (), Val (), Val (),
                     Ptr 11, Ptr 12, Ptr 13, Ptr 14, Ptr 15, Ptr 16],
             capacity = 16, head = 10\<rparr>,
          root = node nil \<lparr>idx = 6, key = 0::nat, val = ''v'', h = 5\<rparr>
               (node (node (node nil \<lparr>idx = 4, key = 3, val = ''v'', h = 2\<rparr>
                              (node nil \<lparr>idx = 8, key = 4, val = ''v'', h = 1\<rparr> nil))
                        \<lparr>idx = 9, key = 5, val = ''v'', h = 3\<rparr>
                        (node nil \<lparr>idx = 3, key = 10, val = ''v'', h = 1\<rparr> nil))
                  \<lparr>idx = 2, key = 11, val = ''v'', h = 4\<rparr>
                  (node (node (node nil \<lparr>idx = 7, key = 13, val = ''v'', h = 0\<rparr> nil)
                           \<lparr>idx = 5, key = 15, val = ''v'', h = 1\<rparr> nil)
                     \<lparr>idx = 1, key = 22, val = ''v'', h = 2\<rparr> nil)),
          size' = 9\<rparr> =
     Some (Inl AssertionFailed)"
    by (simp_all add: run_simps filter_loop.simps)
  show ?thesis using a map_after_alter_key b by (intro conjI) simp_all
qed

text \<open>
  C3, what the code guarantees. The invariant \<open>dict_inv\<close> holds after every sequence
  of emplace, insert, \<open>operator[]\<close> and erase operations on a new dictionary (not after
  every \<open>alter_key\<close>). For a strict weak order and a Set or Map that satisfies it with
  a strictly sorted traversal, \<open>filter(condition)\<close> returns (its loop ends) without
  failure; the traversal of the result is that of the argument without the elements that
  satisfy the condition, in the same order and with the same handles; \<open>size()\<close> is their
  number; the invariant, with the balance of the stored heights (a node without kids may
  store 0), and the strict order are kept; and when no element satisfies the condition the
  dictionary is returned unchanged.
\<close>

theorem filter_removes_matching:
  assumes swo: "strict_weak_order cmp" and inv: "dict_inv mx d"
    and su: "sorted_unique cmp (inorder (root d))"
  shows "\<exists>d'. filter_dict mx cmp c d = Some (Inr d') \<and>
           inorder (root d') = filter (\<lambda>e. \<not> c (snd e)) (inorder (root d)) \<and>
           size_of d' = length (filter (\<lambda>e. \<not> c (snd e)) (inorder (root d))) \<and>
           dict_inv mx d' \<and> avl_stored (root d') \<and> sorted_unique cmp (inorder (root d')) \<and>
           ((\<forall>e \<in> set (inorder (root d)). \<not> c (snd e)) \<longrightarrow> d' = d)"
proof -
  from filter_dict_result[OF swo inv su, of c]
  obtain d' where d': "filter_dict mx cmp c d = Some (Inr d')" "dict_inv mx d'"
    "sorted_unique cmp (inorder (root d'))"
    "inorder (root d') = filter (\<lambda>e. \<not> c (snd e)) (inorder (root d))"
    by blast
  have sz: "size_of d' = length (filter (\<lambda>e. \<not> c (snd e)) (inorder (root d)))"
    using dict_inv_D(6)[OF d'(2)] d'(4) by (simp add: size_of_def)
  have avl: "avl_stored (root d')" by (rule dict_inv_D(7)[OF d'(2)])
  have noop: "(\<forall>e \<in> set (inorder (root d)). \<not> c (snd e)) \<longrightarrow> d' = d"
  proof
    assume "\<forall>e \<in> set (inorder (root d)). \<not> c (snd e)"
    from filter_dict_noop[OF this, of mx cmp] d'(1) show "d' = d" by simp
  qed
  show ?thesis using d' sz avl noop by blast
qed

theorem filter_removes_matching_witness:
  "strict_weak_order ((<) :: nat \<Rightarrow> nat \<Rightarrow> bool)
   \<and> dict_inv 18446744073709551615
       \<lparr>pool = \<lparr>data = [Val (), Val (), Val (), Val (), Val (), Ptr 6, Ptr 7, Ptr 8],
                  capacity = 8, head = 5\<rparr>,
          root = node (node nil \<lparr>idx = 4, key = 0::nat, val = (), h = 0\<rparr> nil)
                   \<lparr>idx = 1, key = 1, val = (), h = 2\<rparr>
                   (node nil \<lparr>idx = 2, key = 2, val = (), h = 1\<rparr>
                      (node nil \<lparr>idx = 3, key = 3, val = (), h = 0\<rparr> nil)), size' = 4\<rparr>
   \<and> sorted_unique (<) (inorder (node (node nil \<lparr>idx = 4, key = 0::nat, val = (), h = 0\<rparr> nil)
                   \<lparr>idx = 1, key = 1, val = (), h = 2\<rparr>
                   (node nil \<lparr>idx = 2, key = 2, val = (), h = 1\<rparr>
                      (node nil \<lparr>idx = 3, key = 3, val = (), h = 0\<rparr> nil))))
   \<and> (\<exists>d'. filter_dict 18446744073709551615 (<) (\<lambda>(k, v). k = 0 \<or> k = 2)
       \<lparr>pool = \<lparr>data = [Val (), Val (), Val (), Val (), Val (), Ptr 6, Ptr 7, Ptr 8],
                  capacity = 8, head = 5\<rparr>,
          root = node (node nil \<lparr>idx = 4, key = 0::nat, val = (), h = 0\<rparr> nil)
                   \<lparr>idx = 1, key = 1, val = (), h = 2\<rparr>
                   (node nil \<lparr>idx = 2, key = 2, val = (), h = 1\<rparr>
                      (node nil \<lparr>idx = 3, key = 3, val = (), h = 0\<rparr> nil)), size' = 4\<rparr> =
          Some (Inr d') \<and>
        inorder (root d') = [(1, 1, ()), (3, 3, ())] \<and> size_of d' = 2)"
proof -
  let ?d = "\<lparr>pool = \<lparr>data = [Val (), Val (), Val (), Val (), Val (), Ptr 6, Ptr 7, Ptr 8],
                  capacity = 8, head = 5\<rparr>,
          root = node (node nil \<lparr>idx = 4, key = 0::nat, val = (), h = 0\<rparr> nil)
                   \<lparr>idx = 1, key = 1, val = (), h = 2\<rparr>
                   (node nil \<lparr>idx = 2, key = 2, val = (), h = 1\<rparr>
                      (node nil \<lparr>idx = 3, key = 3, val = (), h = 0\<rparr> nil)), size' = 4\<rparr>"
  note swo = less_nat_strict_weak_order
  have run: "run_new 18446744073709551615 1 (Set_step 18446744073709551615 (<))
      [Emplace (1::nat), Emplace 2, Emplace 3, Emplace 0] = Inr ?d"
    by (simp add: run_simps)
  have "inv_unique 18446744073709551615 (<) ?d"
    by (rule Set_run_inv[OF swo _ _ _ run]) simp_all
  then have inv: "dict_inv 18446744073709551615 ?d" and su: "sorted_unique (<) (inorder (root ?d))"
    by (simp_all add: inv_unique_def)
  have io: "inorder (root ?d) = [(4, 0, ()), (1, 1, ()), (2, 2, ()), (3, 3, ())]"
    by (simp add: entry_def)
  from filter_removes_matching[OF swo inv su, of "\<lambda>(k, v). k = 0 \<or> k = 2"]
  obtain d' where d': "filter_dict 18446744073709551615 (<) (\<lambda>(k, v). k = 0 \<or> k = 2) ?d = Some (Inr d')"
    "inorder (root d') = filter (\<lambda>e. \<not> (case snd e of (k, v) \<Rightarrow> k = 0 \<or> k = 2)) (inorder (root ?d))"
    "size_of d' = length (filter (\<lambda>e. \<not> (case snd e of (k, v) \<Rightarrow> k = 0 \<or> k = 2)) (inorder (root ?d)))"
    by blast
  have "inorder (root d') = [(1, 1, ()), (3, 3, ())]" "size_of d' = 2"
    using d'(2,3) unfolding io by simp_all
  then have "\<exists>d'. filter_dict 18446744073709551615 (<) (\<lambda>(k, v). k = 0 \<or> k = 2) ?d = Some (Inr d') \<and>
        inorder (root d') = [(1, 1, ()), (3, 3, ())] \<and> size_of d' = 2"
    using d'(1) by blast
  then show ?thesis using inv su swo by simp
qed


section \<open>Map.alter_key onto a new key\<close>

text \<open>
  X1. \<open>pull_out\<close> resets the kids of the node it detaches but not its stored height,
  and \<open>alter_key\<close> hands the node to \<open>insert_or_replace\<close> as it is. When the new key
  is not in the map the node becomes a leaf that still stores the height of its old
  position. In the map built from the keys 1 to 9 the root 4 stores the height 4;
  \<open>alter_key(4, 100)\<close> links it below the node 9, next to a \<open>nil\<close> kid, and
  \<open>rebalance_and_seth\<close> computes \<open>b = (0 - 4) / 2 = -2\<close>: its assertion
  \<open>-1 <= b and b <= 1\<close> fails.
\<close>

theorem alter_key_reinserts_stale_height:
  "\<exists>d. run_new 18446744073709551615 1 (Map_step 18446744073709551615 (<) ''z'')
          (map (\<lambda>k. MapEmplace k ''v'') [1, 2, 3, 4, 5, 6, 7, 8, 9::nat]) = Inr d
       \<and> find_key (<) (root d) 100 = None
       \<and> (\<exists>t. pull_out (<) d 4 = Inr (Some \<lparr>idx = 4, key = 4, val = ''v'', h = 4\<rparr>, t))
       \<and> Map_alter_key 18446744073709551615 (<) d 4 100 = Inl AssertionFailed"
  by (simp add: run_simps)


end
